(* ===== verification/Prelude.thy ===== *)
theory Prelude
  imports Main "HOL-Library.Word"
begin

text \<open>
  Shared vocabulary of the development: the C integer types at their width, the lemmas on
  shifts, masks and bounded words that every register-level component uses, lemmas on
  lists updated by index, and the two generic interfaces (a register bank, a loop over the
  nodes of a cluster) that several components provide or rely on.
\<close>

unbundle bit_operations_syntax

type_synonym u8 = "8 word"
type_synonym u16 = "16 word"
type_synonym u32 = "32 word"
type_synonym u64 = "64 word"

named_theorems layout_simps "index of each hardware register in the mapped window"
named_theorems frame_simps "what an operation leaves unchanged"

section \<open>Words\<close>

lemma u32_le_7_unat: "(c :: u32) \<le> 7 \<Longrightarrow> unat c \<le> 7"
  by (simp add: word_le_nat_alt)

lemma unat_mult_4: "(c :: u32) \<le> 7 \<Longrightarrow> unat (c * 4) = 4 * unat c"
  using u32_le_7_unat [of c] by (simp add: unat_word_ariths)

lemma bit_int_7 [simp]: "bit (7 :: int) n \<longleftrightarrow> n < 3"
proof -
  have m: "(7 :: int) = mask 3" by (simp add: mask_eq_exp_minus_1)
  show ?thesis unfolding m by (simp add: bit_mask_iff)
qed

lemma bit_le_7: "(e :: u32) \<le> 7 \<Longrightarrow> bit e n \<Longrightarrow> n < 3"
proof -
  assume e: "e \<le> 7" and b: "bit e n"
  have "unat e < 2 ^ 3" using u32_le_7_unat [OF e] by simp
  then have "take_bit 3 e = e"
    by (simp add: word_unat_eq_iff unsigned_take_bit_eq take_bit_nat_eq_self)
  with b show "n < 3" by (metis bit_take_bit_iff)
qed

text \<open>The low bits of a sum depend on the low bits of the operands alone.\<close>

lemma take_bit_add_u64:
  "n \<le> 64 \<Longrightarrow> take_bit n (take_bit n x + take_bit n (y :: u64)) = take_bit n (x + y)"
  by transfer (simp add: take_bit_add)

lemma word_zero_iff_bits: "(w :: 'a::len word) = 0 \<longleftrightarrow> (\<forall>n. \<not> bit w n)"
  by (auto intro: bit_word_eqI)

text \<open>A \<open>uint32_t\<close> parameter that passed the code's \<open>> 7\<close> guard is one of eight values.\<close>

lemma u32_le_7_cases:
  assumes "(c :: u32) \<le> 7"
  obtains "c = 0" | "c = 1" | "c = 2" | "c = 3" | "c = 4" | "c = 5" | "c = 6" | "c = 7"
proof -
  from assms have "unat c \<le> 7" by (simp add: word_le_nat_alt)
  then have "unat c = 0 \<or> unat c = 1 \<or> unat c = 2 \<or> unat c = 3 \<or>
    unat c = 4 \<or> unat c = 5 \<or> unat c = 6 \<or> unat c = 7" by arith
  then have "c = 0 \<or> c = 1 \<or> c = 2 \<or> c = 3 \<or> c = 4 \<or> c = 5 \<or> c = 6 \<or> c = 7"
    by (simp add: word_unat_eq_iff)
  then show ?thesis using that by blast
qed

lemma u32_not_gt_7 [simp]: "(c :: u32) \<le> 7 \<Longrightarrow> (7 < c) = False"
  by (simp add: not_less)

section \<open>Lists updated by index\<close>

lemma map_upt_nth: "map (\<lambda>i. xs ! i) [0..<length xs] = xs"
  by (rule map_nth)

lemma take_Suc_append: "i < length xs \<Longrightarrow> take (Suc i) xs = take i xs @ [xs ! i]"
  by (rule take_Suc_conv_app_nth)

section \<open>Interface: a bank of registers\<close>

text \<open>
  What the code relies on from a bank of memory-mapped registers: a read returns the last
  value written to that register, and a write to one register leaves the others alone.
  \<open>ix\<close> is the location a register name denotes.
\<close>

locale register_bank =
  fixes rd :: "'s \<Rightarrow> 'r \<Rightarrow> 'v"
    and wr :: "'s \<Rightarrow> 'r \<Rightarrow> 'v \<Rightarrow> 's"
    and ix :: "'r \<Rightarrow> nat"
  assumes rd_wr_same: "ix r = ix q \<Longrightarrow> rd (wr s r v) q = v"
    and rd_wr_other: "ix r \<noteq> ix q \<Longrightarrow> rd (wr s r v) q = rd s q"
begin

lemma rd_wr: "rd (wr s r v) q = (if ix r = ix q then v else rd s q)"
  by (simp add: rd_wr_same rd_wr_other)

primrec wrs :: "'s \<Rightarrow> ('r \<times> 'v) list \<Rightarrow> 's" where
  "wrs s [] = s"
| "wrs s (x # xs) = wrs (wr s (fst x) (snd x)) xs"

lemma rd_wrs_other: "\<forall>x\<in>set xs. ix (fst x) \<noteq> ix q \<Longrightarrow> rd (wrs s xs) q = rd s q"
  by (induction xs arbitrary: s) (simp_all add: rd_wr_other)

lemma rd_wr_idem: "rd (wr (wr s r v) r w) q = rd (wr s r w) q"
  by (simp add: rd_wr)

end

section \<open>Interface: the same operation on every node\<close>

text \<open>
  The library drives an array of NumaChips by applying one operation to each node in turn
  and stopping at the first error. \<open>all_nodes\<close> is that loop (nodes already done keep the
  effect, the failing node keeps the effect its operation had, later nodes are untouched).
\<close>

fun all_nodes :: "('c \<Rightarrow> 'c \<times> 'e) \<Rightarrow> 'e \<Rightarrow> 'c list \<Rightarrow> 'c list \<times> 'e" where
  "all_nodes f ok [] = ([], ok)"
| "all_nodes f ok (c # cs) =
     (case f c of (c', e) \<Rightarrow>
        if e \<noteq> ok then (c' # cs, e)
        else (case all_nodes f ok cs of (cs', e') \<Rightarrow> (c' # cs', e')))"

lemma all_nodes_length: "length (fst (all_nodes f ok cs)) = length cs"
  by (induction cs) (auto split: prod.splits if_splits)

lemma all_nodes_ok:
  "(\<And>c. c \<in> set cs \<Longrightarrow> snd (f c) = ok) \<Longrightarrow> all_nodes f ok cs = (map (fst \<circ> f) cs, ok)"
  by (induction cs) (auto split: prod.splits simp: prod_eq_iff)

lemma all_nodes_error:
  "snd (all_nodes f ok cs) = e \<Longrightarrow> e \<noteq> ok \<Longrightarrow>
    \<exists>pre c post. cs = pre @ c # post \<and> snd (f c) = e \<and> (\<forall>d\<in>set pre. snd (f d) = ok) \<and>
      fst (all_nodes f ok cs) = map (fst \<circ> f) pre @ fst (f c) # post"
proof (induction cs)
  case Nil
  then show ?case by simp
next
  case (Cons c cs)
  show ?case
  proof (cases "snd (f c) = ok")
    case False
    with Cons.prems have "snd (f c) = e" by (auto split: prod.splits if_splits)
    moreover from False have "fst (all_nodes f ok (c # cs)) = fst (f c) # cs"
      by (auto split: prod.splits)
    ultimately show ?thesis
      by (intro exI[of _ "[]"] exI[of _ c] exI[of _ cs]) simp
  next
    case True
    with Cons.prems have "snd (all_nodes f ok cs) = e"
      by (auto split: prod.splits if_splits)
    from Cons.IH[OF this Cons.prems(2)] obtain pre d post where
      *: "cs = pre @ d # post" "snd (f d) = e" "\<forall>x\<in>set pre. snd (f x) = ok"
      "fst (all_nodes f ok cs) = map (fst \<circ> f) pre @ fst (f d) # post" by blast
    from True *(4) have "fst (all_nodes f ok (c # cs)) = fst (f c) # map (fst \<circ> f) pre @ fst (f d) # post"
      by (auto split: prod.splits)
    with True * show ?thesis
      by (intro exI[of _ "c # pre"] exI[of _ d] exI[of _ post]) simp
  qed
qed

end
