(* ===== verification/Atomic.thy ===== *)
theory Atomic
  imports Prelude
begin

text \<open>
  The atomic operations of \<open>lib/ncutils_atomic.h\<close>. Each macro chooses the instruction of the
  operand's size (1, 2, 4 or 8 bytes); the model is one function on a word of that size.
  The value left in memory is the result of the operations without a result, and the second
  component of the pair of the others, the first being what the macro returns (the value
  read, or the flag the instruction sets). One application is one atomic step: the
  interleaving of several processors is a sequence of them.
\<close>

section \<open>The operations\<close>

text \<open>\<open>smp_store_release\<close> and \<open>smp_load_acquire\<close>: a plain store and a plain load.\<close>

definition smp_store_release :: "'a::len word \<Rightarrow> 'a word \<Rightarrow> 'a word" where
  "smp_store_release mem v = v"

definition smp_load_acquire :: "'a::len word \<Rightarrow> 'a word" where
  "smp_load_acquire mem = mem"

text \<open>\<open>cmpxchg\<close>: the accumulator holds the expected value and receives the value read.\<close>

definition atomic_compare_and_exchange ::
    "'a::len word \<Rightarrow> 'a word \<Rightarrow> 'a word \<Rightarrow> 'a word \<times> 'a word" where
  "atomic_compare_and_exchange mem oldval newval =
     (mem, if mem = oldval then newval else mem)"

definition atomic_exchange :: "'a::len word \<Rightarrow> 'a word \<Rightarrow> 'a word \<times> 'a word" where
  "atomic_exchange mem newvalue = (mem, newvalue)"

definition atomic_exchange_and_add :: "'a::len word \<Rightarrow> 'a word \<Rightarrow> 'a word \<times> 'a word" where
  "atomic_exchange_and_add mem value = (mem, mem + value)"

definition atomic_increment :: "'a::len word \<Rightarrow> 'a word" where
  "atomic_increment mem = mem + 1"

definition atomic_decrement :: "'a::len word \<Rightarrow> 'a word" where
  "atomic_decrement mem = mem - 1"

text \<open>\<open>const\<close> is \<open>__builtin_constant_p (value)\<close>.\<close>

definition atomic_add :: "bool \<Rightarrow> 'a::len word \<Rightarrow> 'a word \<Rightarrow> 'a word" where
  "atomic_add const mem value =
     (if const \<and> value = 1 then atomic_increment mem
      else if const \<and> value = - 1 then atomic_decrement mem
      else mem + value)"

text \<open>\<open>sets\<close> reads the sign flag, \<open>setz\<close> and \<open>sete\<close> the zero flag of the value stored.\<close>

definition atomic_add_negative :: "'a::len word \<Rightarrow> 'a word \<Rightarrow> bool \<times> 'a word" where
  "atomic_add_negative mem value =
     (let r = mem + value in (bit r (LENGTH('a) - 1), r))"

definition atomic_add_zero :: "'a::len word \<Rightarrow> 'a word \<Rightarrow> bool \<times> 'a word" where
  "atomic_add_zero mem value = (let r = mem + value in (r = 0, r))"

definition atomic_increment_and_test :: "'a::len word \<Rightarrow> bool \<times> 'a word" where
  "atomic_increment_and_test mem = (let r = mem + 1 in (r = 0, r))"

definition atomic_decrement_and_test :: "'a::len word \<Rightarrow> bool \<times> 'a word" where
  "atomic_decrement_and_test mem = (let r = mem - 1 in (r = 0, r))"

text \<open>
  The mask is computed as a \<open>long\<close> and cut to the size of the operand. \<open>bit\<close> is less than
  64, the range in which the C shift is defined.
\<close>

definition bit_mask64 :: "nat \<Rightarrow> u64" where
  "bit_mask64 b = push_bit b 1"

definition atomic_bit_set :: "'a::len word \<Rightarrow> nat \<Rightarrow> 'a word" where
  "atomic_bit_set mem b = mem OR ucast (bit_mask64 b)"

definition atomic_bit_clear :: "'a::len word \<Rightarrow> nat \<Rightarrow> 'a word" where
  "atomic_bit_clear mem b = mem AND ucast (NOT (bit_mask64 b))"

text \<open>
  \<open>bts\<close> with the bit number in a register, as \<open>lib/libncbte.c\<close> uses it: the operand is the
  start of a bit string in memory, so a bit number beyond the operand changes the memory
  after it. That case is \<open>None\<close>.
\<close>

definition atomic_bit_test_set :: "'a::len word \<Rightarrow> nat \<Rightarrow> (bool \<times> 'a word) option" where
  "atomic_bit_test_set mem b =
     (if b < LENGTH('a) then Some (bit mem b, set_bit b mem) else None)"

section \<open>Their results\<close>

named_theorems atomic_simps "what each atomic operation returns and stores"

lemma xchg_simps [atomic_simps]:
  "fst (atomic_exchange m v) = m" "snd (atomic_exchange m v) = v"
  "fst (atomic_exchange_and_add m v) = m" "snd (atomic_exchange_and_add m v) = m + v"
  "fst (atomic_compare_and_exchange m old new) = m"
  by (simp_all add: atomic_exchange_def atomic_exchange_and_add_def
      atomic_compare_and_exchange_def)

lemma atomic_add_plus [atomic_simps]: "atomic_add const m v = m + v"
  by (simp add: atomic_add_def atomic_increment_def atomic_decrement_def)

text \<open>A compare-and-exchange succeeded exactly when it returned the expected value.\<close>

lemma cas_result:
  "snd (atomic_compare_and_exchange m old new) =
     (if fst (atomic_compare_and_exchange m old new) = old then new else m)"
  by (simp add: atomic_compare_and_exchange_def)

lemma bit_mask64_bit: "b < 64 \<Longrightarrow> bit (bit_mask64 b) n \<longleftrightarrow> n = b"
  by (auto simp: bit_mask64_def bit_exp_iff)

lemma bit_set_bits:
  "b < 64 \<Longrightarrow> n < LENGTH('a) \<Longrightarrow> bit (atomic_bit_set (m :: 'a::len word) b) n \<longleftrightarrow> n = b \<or> bit m n"
  by (auto simp: atomic_bit_set_def bit_or_iff bit_ucast_iff bit_mask64_bit)

lemma bit_clear_bits:
  assumes "b < 64" "LENGTH('a) \<le> 64" "n < LENGTH('a)"
  shows "bit (atomic_bit_clear (m :: 'a::len word) b) n \<longleftrightarrow> n \<noteq> b \<and> bit m n"
  using assms by (auto simp: atomic_bit_clear_def bit_and_iff bit_ucast_iff bit_not_iff bit_mask64_bit)

text \<open>Setting a bit by \<open>bts\<close> and clearing it by \<open>and\<close> gives the word back, when it was clear.\<close>

lemma bit_test_set_clear:
  fixes m :: "'a::len word"
  assumes "LENGTH('a) \<le> 64" "b < LENGTH('a)" "\<not> bit m b"
  shows "\<exists>m'. atomic_bit_test_set m b = Some (False, m') \<and> atomic_bit_clear m' b = m"
proof -
  have "atomic_bit_clear (set_bit b m) b = m"
  proof (rule bit_word_eqI)
    fix n assume "n < LENGTH('a)"
    then show "bit (atomic_bit_clear (set_bit b m) b) n \<longleftrightarrow> bit m n"
      using assms by (subst bit_clear_bits) (auto simp: bit_set_bit_iff)
  qed
  with assms show ?thesis by (simp add: atomic_bit_test_set_def)
qed

text \<open>
  The flags the arithmetic macros return. The tests answer whether the value stored is
  zero, which for a counter of the operand's width is whether the old value was the negated
  addend (so 1 for the decrement, all ones for the increment, which wraps); the sign test
  answers about the wrapped sum: it is the sign of the true sum exactly when that sum fits.
\<close>

theorem atomic_flags:
  fixes m v :: "'a::len word"
  shows "fst (atomic_decrement_and_test m) = (m = 1) \<and>
    fst (atomic_increment_and_test m) = (m = - 1) \<and>
    fst (atomic_add_zero m v) = (m = - v) \<and>
    fst (atomic_add_negative m v) = (sint (m + v) < 0) \<and>
    (sint (m + v) = sint m + sint v) =
      (- (2 ^ (LENGTH('a) - 1)) \<le> sint m + sint v \<and> sint m + sint v < 2 ^ (LENGTH('a) - 1))"
proof (intro conjI)
  show "fst (atomic_decrement_and_test m) = (m = 1)"
    by (simp add: atomic_decrement_and_test_def)
  show "fst (atomic_increment_and_test m) = (m = - 1)"
    by (simp add: atomic_increment_and_test_def Let_def eq_neg_iff_add_eq_0)
  show "fst (atomic_add_zero m v) = (m = - v)"
    by (simp add: atomic_add_zero_def Let_def eq_neg_iff_add_eq_0)
  show "fst (atomic_add_negative m v) = (sint (m + v) < 0)"
    by (simp add: atomic_add_negative_def Let_def bit_last_iff)
  show "(sint (m + v) = sint m + sint v) = 
      (- (2 ^ (LENGTH('a) - 1)) \<le> sint m + sint v \<and> sint m + sint v < 2 ^ (LENGTH('a) - 1))"
    by (simp only: sint_word_ariths(1) signed_take_bit_int_eq_self_iff)
qed

end
