(* ===== verification/Locks.thy ===== *)
theory Locks
  imports Atomic
begin

text \<open>
  The locks of \<open>lib/ncutils_lock.h\<close> and their interface. A lock is its word in memory and,
  for each thread, where the thread stands in the acquire function and the locals it keeps
  there. The threads run interleaved: one step of a thread is one atomic access to the lock
  word with the tests on local values that follow it. \<open>lock_impl\<close> collects the steps of one
  kind of lock, the locale \<open>mutex_lock\<close> states what the clients rely on, and each lock is an
  interpretation of it.
\<close>

section \<open>The interface\<close>

text \<open>
  A thread is outside the lock's functions, in the loop of the acquire function, or past it
  and before the release.
\<close>

datatype phase = Out | Trying | In

text \<open>
  \<open>lk_acquire\<close> is the first access of the acquire function, \<open>lk_spin\<close> one turn of its loop,
  \<open>lk_release\<close> the release function; each for one thread.
\<close>

record 'l lock_impl =
  lk_init :: 'l
  lk_acquire :: "nat \<Rightarrow> 'l \<Rightarrow> 'l"
  lk_spin :: "nat \<Rightarrow> 'l \<Rightarrow> 'l"
  lk_release :: "nat \<Rightarrow> 'l \<Rightarrow> 'l"
  lk_phase :: "'l \<Rightarrow> nat \<Rightarrow> phase"

text \<open>
  The moves of threads on one lock; a thread only calls the function its phase allows.
\<close>

datatype event = Acquire nat | Spin nat | Release nat

fun event_thread :: "event \<Rightarrow> nat" where
  "event_thread (Acquire t) = t"
| "event_thread (Spin t) = t"
| "event_thread (Release t) = t"

fun lock_do :: "'l lock_impl \<Rightarrow> event \<Rightarrow> 'l \<Rightarrow> 'l option" where
  "lock_do L (Acquire t) l = (if lk_phase L l t = Out then Some (lk_acquire L t l) else None)"
| "lock_do L (Spin t) l = (if lk_phase L l t = Trying then Some (lk_spin L t l) else None)"
| "lock_do L (Release t) l = (if lk_phase L l t = In then Some (lk_release L t l) else None)"

text \<open>What a set of threads can make of a lock, as a relation and as a run of moves.\<close>

inductive lock_reaches :: "'l lock_impl \<Rightarrow> nat set \<Rightarrow> 'l \<Rightarrow> bool" for L T where
  reach_init: "lock_reaches L T (lk_init L)"
| reach_step: "lock_reaches L T l \<Longrightarrow> event_thread ev \<in> T \<Longrightarrow> lock_do L ev l = Some l' \<Longrightarrow>
    lock_reaches L T l'"

fun lock_run :: "'l lock_impl \<Rightarrow> event list \<Rightarrow> 'l \<Rightarrow> 'l option" where
  "lock_run L [] l = Some l"
| "lock_run L (ev # evs) l =
     (case lock_do L ev l of None \<Rightarrow> None | Some l' \<Rightarrow> lock_run L evs l')"

lemma lock_run_reaches:
  "lock_reaches L T l \<Longrightarrow> event_thread ` set evs \<subseteq> T \<Longrightarrow> lock_run L evs l = Some l' \<Longrightarrow>
    lock_reaches L T l'"
  by (induction evs arbitrary: l) (auto split: option.splits intro: reach_step)

fun_cases lock_doE: "lock_do L ev l = Some l'"

text \<open>
  The contract: an invariant of the lock that every move of the threads in \<open>T\<close> keeps, under
  which at most one thread is inside, a move changes the phase of no other thread, a thread
  inside leaves when it releases, and as long as some thread wants the lock one of them has
  it or gets it with its next turn.
\<close>

locale mutex_lock =
  fixes L :: "'l lock_impl"
    and T :: "nat set"
    and inv :: "'l \<Rightarrow> bool"
  assumes inv_init: "inv (lk_init L)"
    and init_out: "lk_phase L (lk_init L) t = Out"
    and inv_acquire: "inv l \<Longrightarrow> t \<in> T \<Longrightarrow> lk_phase L l t = Out \<Longrightarrow> inv (lk_acquire L t l)"
    and inv_spin: "inv l \<Longrightarrow> t \<in> T \<Longrightarrow> lk_phase L l t = Trying \<Longrightarrow> inv (lk_spin L t l)"
    and inv_release: "inv l \<Longrightarrow> t \<in> T \<Longrightarrow> lk_phase L l t = In \<Longrightarrow> inv (lk_release L t l)"
    and one_inside: "inv l \<Longrightarrow> lk_phase L l t = In \<Longrightarrow> lk_phase L l u = In \<Longrightarrow> t = u"
    and acquire_phase: "inv l \<Longrightarrow> t \<in> T \<Longrightarrow> lk_phase L l t = Out \<Longrightarrow>
      lk_phase L (lk_acquire L t l) t \<noteq> Out"
    and spin_phase: "inv l \<Longrightarrow> t \<in> T \<Longrightarrow> lk_phase L l t = Trying \<Longrightarrow>
      lk_phase L (lk_spin L t l) t \<noteq> Out"
    and release_phase: "inv l \<Longrightarrow> t \<in> T \<Longrightarrow> lk_phase L l t = In \<Longrightarrow>
      lk_phase L (lk_release L t l) t = Out"
    and acquire_other: "inv l \<Longrightarrow> t \<in> T \<Longrightarrow> lk_phase L l t = Out \<Longrightarrow> u \<noteq> t \<Longrightarrow>
      lk_phase L (lk_acquire L t l) u = lk_phase L l u"
    and spin_other: "inv l \<Longrightarrow> t \<in> T \<Longrightarrow> lk_phase L l t = Trying \<Longrightarrow> u \<noteq> t \<Longrightarrow>
      lk_phase L (lk_spin L t l) u = lk_phase L l u"
    and release_other: "inv l \<Longrightarrow> t \<in> T \<Longrightarrow> lk_phase L l t = In \<Longrightarrow> u \<noteq> t \<Longrightarrow>
      lk_phase L (lk_release L t l) u = lk_phase L l u"
    and progress: "inv l \<Longrightarrow> lk_phase L l t \<noteq> Out \<Longrightarrow>
      \<exists>u. lk_phase L l u = In \<or> lk_phase L l u = Trying \<and> lk_phase L (lk_spin L u l) u = In"
begin

lemma do_inv: "inv l \<Longrightarrow> event_thread ev \<in> T \<Longrightarrow> lock_do L ev l = Some l' \<Longrightarrow> inv l'"
  by (cases ev) (auto split: if_splits intro: inv_acquire inv_spin inv_release)

lemma reaches_inv: "lock_reaches L T l \<Longrightarrow> inv l"
  by (induction rule: lock_reaches.induct) (auto intro: inv_init do_inv)

lemma mutual_exclusion:
  "lock_reaches L T l \<Longrightarrow> lk_phase L l t = In \<Longrightarrow> lk_phase L l u = In \<Longrightarrow> t = u"
  using reaches_inv one_inside by blast

lemma run_mutual_exclusion:
  "event_thread ` set evs \<subseteq> T \<Longrightarrow> lock_run L evs (lk_init L) = Some l \<Longrightarrow>
    lk_phase L l t = In \<Longrightarrow> lk_phase L l u = In \<Longrightarrow> t = u"
  by (rule mutual_exclusion [OF lock_run_reaches [OF reach_init]])

end

section \<open>SpinLock\<close>

record spin_lock =
  spin_word :: u32
  spin_phase :: "nat \<Rightarrow> phase"

definition SpinInit :: spin_lock where
  "SpinInit = \<lparr>spin_word = smp_store_release 0 0, spin_phase = (\<lambda>_. Out)\<rparr>"

text \<open>One evaluation of the loop's condition \<open>atomic_exchange(lock, 1) != 0\<close>.\<close>

definition spin_try :: "nat \<Rightarrow> spin_lock \<Rightarrow> spin_lock" where
  "spin_try t l = (case atomic_exchange (spin_word l) 1 of (old, w) \<Rightarrow>
     l\<lparr>spin_word := w, spin_phase := (spin_phase l)(t := if old \<noteq> 0 then Trying else In)\<rparr>)"

definition SpinRelease :: "nat \<Rightarrow> spin_lock \<Rightarrow> spin_lock" where
  "SpinRelease t l =
     l\<lparr>spin_word := smp_store_release (spin_word l) 0, spin_phase := (spin_phase l)(t := Out)\<rparr>"

definition spin_impl :: "spin_lock lock_impl" where
  "spin_impl = \<lparr>lk_init = SpinInit, lk_acquire = spin_try, lk_spin = spin_try,
     lk_release = SpinRelease, lk_phase = spin_phase\<rparr>"

lemmas spin_defs = SpinInit_def spin_try_def SpinRelease_def spin_impl_def
  atomic_exchange_def smp_store_release_def

text \<open>The word is 1 exactly when some thread holds the lock, and then only one does.\<close>

definition spin_inv :: "spin_lock \<Rightarrow> bool" where
  "spin_inv l \<longleftrightarrow>
     (if spin_word l = 0 then (\<forall>t. spin_phase l t \<noteq> In)
      else spin_word l = 1 \<and> (\<exists>t. spin_phase l t = In \<and> (\<forall>u. spin_phase l u = In \<longrightarrow> u = t)))"

lemma spin_inv_try:
  assumes "spin_inv l" "spin_phase l t \<noteq> In"
  shows "spin_inv (spin_try t l)"
  using assms by (auto simp: spin_inv_def spin_defs split: if_splits)

lemma spin_inv_release: "spin_inv l \<Longrightarrow> spin_phase l t = In \<Longrightarrow> spin_inv (SpinRelease t l)"
  by (auto simp: spin_inv_def spin_defs split: if_splits)

lemma spin_progress:
  assumes "spin_inv l" "spin_phase l t \<noteq> Out"
  shows "\<exists>u. spin_phase l u = In \<or> spin_phase l u = Trying \<and> spin_phase (spin_try u l) u = In"
proof (cases "spin_word l = 0")
  case True
  then show ?thesis using assms
    by (intro exI [of _ t], cases "spin_phase l t") (auto simp: spin_inv_def spin_defs)
next
  case False
  then show ?thesis using assms by (auto simp: spin_inv_def)
qed

interpretation spin: mutex_lock spin_impl T spin_inv for T :: "nat set"
proof (unfold_locales, goal_cases)
  case (13 l t)
  then show ?case using spin_progress [of l t] by (simp add: spin_impl_def)
qed (auto simp: spin_impl_def intro: spin_inv_try spin_inv_release,
     auto simp: spin_inv_def spin_defs split: if_splits)

section \<open>The ticket pair\<close>

text \<open>
  \<open>TicketLock_t\<close> is a union of a 32-bit word and two 16-bit tickets; on this little-endian
  machine the head is the low half and the tail the high half of the word.
\<close>

definition pair_head :: "u32 \<Rightarrow> u16" where
  "pair_head w = ucast w"

definition pair_tail :: "u32 \<Rightarrow> u16" where
  "pair_tail w = ucast (drop_bit 16 w)"

text \<open>The struct \<open>__raw_tickets\<close> with a head and a tail, and the store to the head alone.\<close>

definition raw_tickets :: "u16 \<Rightarrow> u16 \<Rightarrow> u32" where
  "raw_tickets h t = word_cat t h"

definition set_head :: "u32 \<Rightarrow> u16 \<Rightarrow> u32" where
  "set_head w h = raw_tickets h (pair_tail w)"

lemma unat_raw_tickets: "unat (raw_tickets h t) = unat t * 65536 + unat h"
proof -
  have h: "unat h < 2 ^ 16" and t: "unat t < 2 ^ 16"
    using unsigned_less [of h] unsigned_less [of t] by simp_all
  then show ?thesis
    unfolding raw_tickets_def word_cat_eq
    by (subst unat_plus_if') (auto simp: unsigned_push_bit_eq unsigned_ucast_eq push_bit_nat_def
        take_bit_nat_eq_self take_bit_nat_def)
qed

lemma unat_pair_head: "unat (pair_head w) = unat w mod 65536"
  by (simp add: pair_head_def unsigned_ucast_eq take_bit_nat_def)

lemma unat_pair_tail: "unat (pair_tail w) = unat w div 65536"
proof -
  have "unat w < 2 ^ 32" using unsigned_less [of w] by simp
  then show ?thesis
    by (simp add: pair_tail_def unsigned_ucast_eq unsigned_drop_bit_eq drop_bit_nat_def take_bit_nat_def)
qed

lemma raw_tickets_simps [simp]:
  "pair_head (raw_tickets h t) = h" "pair_tail (raw_tickets h t) = t"
proof -
  have "unat h < 65536" using unsigned_less [of h] by simp
  then show "pair_head (raw_tickets h t) = h" "pair_tail (raw_tickets h t) = t"
    by (simp_all add: word_unat_eq_iff unat_pair_head unat_pair_tail unat_raw_tickets)
qed

lemma word_xor_zero [simp]: "(a :: 'a::len word) XOR b = 0 \<longleftrightarrow> a = b"
  by (metis xor.assoc xor.left_neutral xor.right_neutral xor_self_eq)

lemma set_head_simps [simp]:
  "pair_head (set_head w h) = h" "pair_tail (set_head w h) = pair_tail w"
  by (simp_all add: set_head_def)

lemma pair_eq_iff: "w = v \<longleftrightarrow> pair_head w = pair_head v \<and> pair_tail w = pair_tail v"
proof
  assume "pair_head w = pair_head v \<and> pair_tail w = pair_tail v"
  then have "unat w mod 65536 = unat v mod 65536" "unat w div 65536 = unat v div 65536"
    unfolding unat_pair_head [symmetric] unat_pair_tail [symmetric] by simp_all
  then have "unat w = unat v" by (metis div_mult_mod_eq)
  then show "w = v" by (simp add: word_unat_eq_iff)
qed simp

text \<open>The 32-bit addition moves the tail alone, and it wraps within its half.\<close>

lemma add_tail [simp]:
  "pair_head (w + raw_tickets 0 c) = pair_head w"
  "pair_tail (w + raw_tickets 0 c) = pair_tail w + c"
proof -
  have w: "unat w < 4294967296" and c: "unat c < 65536"
    using unsigned_less [of w] unsigned_less [of c] by simp_all
  have s: "unat (w + raw_tickets 0 c) = (unat w + unat c * 65536) mod 4294967296"
    by (simp add: unat_word_ariths unat_raw_tickets)
  have low: "n mod 4294967296 mod 65536 = n mod 65536" for n :: nat
    by (rule mod_mod_cancel) simp
  have high: "n mod 4294967296 div 65536 = n div 65536 mod 65536" for n :: nat
    using div_exp_mod_exp_eq [of n 16 16] by simp
  show "pair_head (w + raw_tickets 0 c) = pair_head w"
    unfolding word_unat_eq_iff unat_pair_head s low by simp
  have "unat (pair_tail (w + raw_tickets 0 c)) = (unat w div 65536 + unat c) mod 65536"
    unfolding unat_pair_tail s high by (simp add: add.commute)
  also have "\<dots> = unat (pair_tail w + c)"
    by (simp add: unat_word_ariths unat_pair_tail)
  finally show "pair_tail (w + raw_tickets 0 c) = pair_tail w + c"
    by (simp only: word_unat_eq_iff)
qed

section \<open>The specification of a fair lock\<close>

text \<open>
  The threads stand in a line in the order in which they called the acquire function; the
  first of the line may enter, and leaves the line when it releases the lock.
\<close>

record fifo =
  line :: "nat list"
  inside :: bool

definition fifo_phase :: "fifo \<Rightarrow> nat \<Rightarrow> phase" where
  "fifo_phase a t =
     (if t \<notin> set (line a) then Out else if inside a \<and> t = hd (line a) then In else Trying)"

definition fifo_enter :: "nat \<Rightarrow> fifo \<Rightarrow> fifo" where
  "fifo_enter t a = (if t = hd (line a) then a\<lparr>inside := True\<rparr> else a)"

definition fifo_impl :: "fifo lock_impl" where
  "fifo_impl = \<lparr>lk_init = \<lparr>line = [], inside = False\<rparr>,
     lk_acquire = (\<lambda>t a. fifo_enter t (a\<lparr>line := line a @ [t]\<rparr>)),
     lk_spin = fifo_enter,
     lk_release = (\<lambda>t a. a\<lparr>line := tl (line a), inside := False\<rparr>),
     lk_phase = fifo_phase\<rparr>"

text \<open>
  A lock that a line of threads stands for: \<open>R\<close> relates its states to lines of threads of \<open>T\<close>
  and every move of the lock is that move of the line. Such a lock keeps the contract above,
  and its threads enter in the order in which they came.
\<close>

locale fair_lock =
  fixes L :: "'l lock_impl"
    and T :: "nat set"
    and R :: "'l \<Rightarrow> fifo \<Rightarrow> bool"
  assumes R_init: "R (lk_init L) (lk_init fifo_impl)"
    and R_acquire: "R l a \<Longrightarrow> t \<in> T \<Longrightarrow> lk_phase L l t = Out \<Longrightarrow>
      R (lk_acquire L t l) (lk_acquire fifo_impl t a)"
    and R_spin: "R l a \<Longrightarrow> t \<in> T \<Longrightarrow> lk_phase L l t = Trying \<Longrightarrow>
      R (lk_spin L t l) (lk_spin fifo_impl t a)"
    and R_release: "R l a \<Longrightarrow> t \<in> T \<Longrightarrow> lk_phase L l t = In \<Longrightarrow>
      R (lk_release L t l) (lk_release fifo_impl t a)"
    and R_line: "R l a \<Longrightarrow> distinct (line a) \<and> set (line a) \<subseteq> T \<and> (inside a \<longrightarrow> line a \<noteq> [])"
    and R_phase: "R l a \<Longrightarrow> lk_phase L l = fifo_phase a"
begin

lemmas R_moves = R_acquire R_spin R_release

lemma do_on_line:
  assumes "R l a" "event_thread ev \<in> T" "lock_do L ev l = Some l'"
  obtains a' where "lock_do fifo_impl ev a = Some a'" "R l' a'"
  using assms R_phase [OF assms(1)]
  by (cases ev) (auto simp: fifo_impl_def dest: R_moves split: if_splits)

lemma run_on_line:
  "R l a \<Longrightarrow> \<forall>ev\<in>set evs. event_thread ev \<in> T \<Longrightarrow> lock_run L evs l = Some l' \<Longrightarrow>
    \<exists>a'. lock_run fifo_impl evs a = Some a' \<and> R l' a'"
proof (induction evs arbitrary: l a)
  case (Cons ev evs)
  then obtain m where m: "lock_do L ev l = Some m" "lock_run L evs m = Some l'"
    by (auto split: option.splits)
  have "event_thread ev \<in> T" "\<forall>ev\<in>set evs. event_thread ev \<in> T" using Cons.prems(2) by simp_all
  with do_on_line [OF Cons.prems(1) _ m(1)] obtain b where
    "lock_do fifo_impl ev a = Some b" "R m b" "\<forall>ev\<in>set evs. event_thread ev \<in> T" by blast
  with Cons.IH [OF _ _ m(2)] show ?case by simp
qed simp

lemma first_inside: "R l a \<Longrightarrow> lk_phase L l t = In \<Longrightarrow> line a \<noteq> [] \<and> t = hd (line a)"
  using R_phase by (auto simp: fifo_phase_def split: if_splits)

lemma line_progress:
  assumes r: "R l a" and t: "lk_phase L l t \<noteq> Out"
  shows "\<exists>u. lk_phase L l u = In \<or> lk_phase L l u = Trying \<and> lk_phase L (lk_spin L u l) u = In"
proof (cases "inside a")
  case True
  with r R_line R_phase have "lk_phase L l (hd (line a)) = In" by (simp add: fifo_phase_def)
  then show ?thesis by blast
next
  case False
  from t r R_phase have ne: "line a \<noteq> []" by (auto simp: fifo_phase_def)
  let ?u = "hd (line a)"
  have u: "?u \<in> T" using R_line [OF r] ne hd_in_set by blast
  have tr: "lk_phase L l ?u = Trying" using R_phase [OF r] ne False by (simp add: fifo_phase_def)
  from R_phase [OF R_spin [OF r u tr]] ne have "lk_phase L (lk_spin L ?u l) ?u = In"
    by (simp add: fifo_impl_def fifo_enter_def fifo_phase_def)
  with tr show ?thesis by blast
qed

end

lemma fifo_moves:
  assumes "distinct (line a)" "inside a \<longrightarrow> line a \<noteq> []"
  shows "fifo_phase a t = Out \<Longrightarrow> fifo_phase (lk_acquire fifo_impl t a) t \<noteq> Out"
    and "fifo_phase a t = Trying \<Longrightarrow> fifo_phase (lk_spin fifo_impl t a) t \<noteq> Out"
    and "fifo_phase a t = In \<Longrightarrow> fifo_phase (lk_release fifo_impl t a) t = Out"
    and "u \<noteq> t \<Longrightarrow> fifo_phase a t = Out \<Longrightarrow> fifo_phase (lk_acquire fifo_impl t a) u = fifo_phase a u"
    and "u \<noteq> t \<Longrightarrow> fifo_phase a t = Trying \<Longrightarrow> fifo_phase (lk_spin fifo_impl t a) u = fifo_phase a u"
    and "u \<noteq> t \<Longrightarrow> fifo_phase a t = In \<Longrightarrow> fifo_phase (lk_release fifo_impl t a) u = fifo_phase a u"
  using assms
  by (auto simp: fifo_impl_def fifo_phase_def fifo_enter_def neq_Nil_conv hd_append split: if_splits)

sublocale fair_lock \<subseteq> mutex_lock L T "\<lambda>l. \<exists>a. R l a"
proof (unfold_locales, goal_cases)
  case (6 l t u)
  then show ?case using first_inside by blast
next
  case (7 l t)
  then obtain a where a: "R l a" by blast
  show ?case using fifo_moves(1) [of a t] R_line [OF a] R_phase [OF a] R_phase [OF R_acquire [OF a 7(2,3)]] 7
    by auto
next
  case (8 l t)
  then obtain a where a: "R l a" by blast
  show ?case using fifo_moves(2) [of a t] R_line [OF a] R_phase [OF a] R_phase [OF R_spin [OF a 8(2,3)]] 8
    by auto
next
  case (9 l t)
  then obtain a where a: "R l a" by blast
  show ?case using fifo_moves(3) [of a t] R_line [OF a] R_phase [OF a] R_phase [OF R_release [OF a 9(2,3)]] 9
    by auto
next
  case (10 l t u)
  then obtain a where a: "R l a" by blast
  show ?case using fifo_moves(4) [of a u t] R_line [OF a] R_phase [OF a] R_phase [OF R_acquire [OF a 10(2,3)]] 10
    by auto
next
  case (11 l t u)
  then obtain a where a: "R l a" by blast
  show ?case using fifo_moves(5) [of a u t] R_line [OF a] R_phase [OF a] R_phase [OF R_spin [OF a 11(2,3)]] 11
    by auto
next
  case (12 l t u)
  then obtain a where a: "R l a" by blast
  show ?case using fifo_moves(6) [of a u t] R_line [OF a] R_phase [OF a] R_phase [OF R_release [OF a 12(2,3)]] 12
    by auto
next
  case (13 l t)
  then show ?case using line_progress by blast
qed (use R_init R_phase [OF R_init] in \<open>auto simp: fifo_impl_def fifo_phase_def\<close>, (blast intro: R_moves)+)

section \<open>TicketLock\<close>

text \<open>\<open>my_ticket\<close> is the local \<open>inc.tail\<close> of the threads in the acquire function.\<close>

record ticket_lock =
  head_tail :: u32
  tkt_phase :: "nat \<Rightarrow> phase"
  my_ticket :: "nat \<Rightarrow> u16"

definition TicketInit :: ticket_lock where
  "TicketInit = \<lparr>head_tail = smp_store_release 0 0, tkt_phase = (\<lambda>_. Out), my_ticket = (\<lambda>_. 0)\<rparr>"

text \<open>Drawing the ticket, with the first comparison of head and tail.\<close>

definition ticket_draw :: "nat \<Rightarrow> ticket_lock \<Rightarrow> ticket_lock" where
  "ticket_draw t l = (case atomic_exchange_and_add (head_tail l) (raw_tickets 0 1) of (inc, w) \<Rightarrow>
     l\<lparr>head_tail := w, my_ticket := (my_ticket l)(t := pair_tail inc),
       tkt_phase := (tkt_phase l)(t := if pair_head inc = pair_tail inc then In else Trying)\<rparr>)"

text \<open>One turn of the loop: the head is read again and compared.\<close>

definition ticket_spin :: "nat \<Rightarrow> ticket_lock \<Rightarrow> ticket_lock" where
  "ticket_spin t l =
     l\<lparr>tkt_phase := (tkt_phase l)
         (t := if pair_head (head_tail l) XOR my_ticket l t = 0 then In else Trying)\<rparr>"

definition TicketRelease :: "nat \<Rightarrow> ticket_lock \<Rightarrow> ticket_lock" where
  "TicketRelease t l =
     l\<lparr>head_tail := set_head (head_tail l) (atomic_increment (pair_head (head_tail l))),
       tkt_phase := (tkt_phase l)(t := Out)\<rparr>"

definition ticket_impl :: "ticket_lock lock_impl" where
  "ticket_impl = \<lparr>lk_init = TicketInit, lk_acquire = ticket_draw, lk_spin = ticket_spin,
     lk_release = TicketRelease, lk_phase = tkt_phase\<rparr>"

lemmas ticket_defs = TicketInit_def ticket_draw_def ticket_spin_def TicketRelease_def
  atomic_exchange_and_add_def atomic_increment_def smp_store_release_def

subsection \<open>The lock as a line of threads\<close>

text \<open>
  The tickets of the line are consecutive from the head, and the tail is the next one. There
  are never more threads in line than tickets.
\<close>

definition represents :: "ticket_lock \<Rightarrow> fifo \<Rightarrow> bool" where
  "represents l a \<longleftrightarrow>
     distinct (line a) \<and> set (line a) \<subseteq> {..<65536} \<and> (inside a \<longrightarrow> line a \<noteq> []) \<and>
     pair_tail (head_tail l) = pair_head (head_tail l) + of_nat (length (line a)) \<and>
     (\<forall>i<length (line a). my_ticket l (line a ! i) = pair_head (head_tail l) + of_nat i) \<and>
     tkt_phase l = fifo_phase a"

lemma line_bound:
  assumes "distinct xs" "set xs \<subseteq> {..<65536 :: nat}"
  shows "length xs \<le> 65536"
  using card_mono [OF _ assms(2)] distinct_card [OF assms(1)] by simp

lemma of_nat_u16_zero: "n < 65536 \<Longrightarrow> (of_nat n :: u16) = 0 \<longleftrightarrow> n = 0"
  by (simp add: word_unat_eq_iff unsigned_of_nat take_bit_nat_eq_self)

lemma ticket_first:
  assumes "represents l a" "i < length (line a)"
  shows "my_ticket l (line a ! i) = pair_head (head_tail l) \<longleftrightarrow> i = 0"
  using assms line_bound [of "line a"] of_nat_u16_zero [of i] by (simp add: represents_def)

lemma represents_init: "represents TicketInit (lk_init fifo_impl)"
proof -
  have "pair_tail 0 = 0" "pair_head 0 = 0" by (simp_all add: pair_tail_def pair_head_def)
  then show ?thesis by (simp add: represents_def fifo_impl_def ticket_defs fifo_phase_def fun_eq_iff)
qed

lemma represents_acquire:
  assumes r: "represents l a" and t: "t < 65536" "tkt_phase l t = Out"
  shows "represents (ticket_draw t l) (lk_acquire fifo_impl t a)"
proof -
  have out: "t \<notin> set (line a)"
    using r t by (auto simp: represents_def fifo_phase_def split: if_splits)
  then have d: "distinct (line a @ [t])" "set (line a @ [t]) \<subseteq> {..<65536}"
    using r t by (auto simp: represents_def)
  then have len: "length (line a) < 65536" using line_bound [OF d] by simp
  have first: "pair_head (head_tail l) = pair_tail (head_tail l) \<longleftrightarrow> line a = []"
    using r of_nat_u16_zero [OF len] by (auto simp: represents_def)
  have nth: "(line a @ [t]) ! i = t \<longleftrightarrow> i = length (line a)" if "i < Suc (length (line a))" for i
    using out that by (auto simp: nth_append less_Suc_eq)
  show ?thesis
  proof (cases "line a = []")
    case True
    with r t first show ?thesis
      by (auto simp: represents_def ticket_defs fifo_impl_def fifo_enter_def fifo_phase_def fun_eq_iff)
  next
    case False
    with out have "hd (line a) \<noteq> t" by auto
    with False r d first nth show ?thesis
      by (auto simp: represents_def ticket_defs fifo_impl_def fifo_enter_def fifo_phase_def
          fun_eq_iff nth_append less_Suc_eq)
  qed
qed

lemma represents_spin:
  assumes r: "represents l a" and t: "tkt_phase l t = Trying"
  shows "represents (ticket_spin t l) (lk_spin fifo_impl t a)"
proof -
  have "t \<in> set (line a)" using r t by (auto simp: represents_def fifo_phase_def split: if_splits)
  then obtain i where i: "i < length (line a)" "t = line a ! i" by (auto simp: in_set_conv_nth)
  have "t = hd (line a) \<longleftrightarrow> i = 0"
    using r i by (cases "line a") (auto simp: represents_def nth_eq_iff_index_eq nth_Cons')
  then have h: "pair_head (head_tail l) = my_ticket l t \<longleftrightarrow> t = hd (line a)"
    using ticket_first [OF r i(1)] i(2) by metis
  have "hd (line a) \<in> set (line a)" using i(1) by (intro hd_in_set) auto
  then show ?thesis
    using r t h i
    by (auto simp: represents_def ticket_defs fifo_impl_def fifo_enter_def fifo_phase_def fun_eq_iff
        word_xor_zero split: if_splits)
qed

lemma represents_release:
  assumes r: "represents l a" and t: "tkt_phase l t = In"
  shows "represents (TicketRelease t l) (lk_release fifo_impl t a)"
proof -
  have f: "tkt_phase l t = fifo_phase a t" using r by (simp add: represents_def)
  with t have a: "t \<in> set (line a)" "inside a" "t = hd (line a)"
    by (auto simp: fifo_phase_def split: if_splits)
  then obtain ts where ts: "line a = t # ts" by (cases "line a") auto
  have nth: "my_ticket l (ts ! i) = pair_head (head_tail l) + (1 + of_nat i)" if "i < length ts" for i
    using r that unfolding represents_def ts by (auto dest: spec [of _ "Suc i"])
  show ?thesis
    using r t ts nth
    by (auto simp: represents_def ticket_defs fifo_impl_def fifo_phase_def fun_eq_iff
        ac_simps split: if_splits)
qed

lemma represents_line:
  "represents l a \<Longrightarrow> distinct (line a) \<and> set (line a) \<subseteq> {..<65536} \<and> (inside a \<longrightarrow> line a \<noteq> [])"
  by (simp add: represents_def)

lemma represents_phase: "represents l a \<Longrightarrow> tkt_phase l = fifo_phase a"
  by (simp add: represents_def)

definition ticket_inv :: "ticket_lock \<Rightarrow> bool" where
  "ticket_inv l \<longleftrightarrow> (\<exists>a. represents l a)"

interpretation ticket: fair_lock ticket_impl "{..<65536}" represents
  rewrites "(\<lambda>l. \<exists>a. represents l a) = ticket_inv"
proof -
  show "fair_lock ticket_impl {..<65536} represents"
    by unfold_locales (use represents_init represents_acquire represents_spin represents_release
        represents_line represents_phase in \<open>auto simp: ticket_impl_def\<close>)
  show "(\<lambda>l. \<exists>a. represents l a) = ticket_inv"
    by (simp add: ticket_inv_def fun_eq_iff)
qed

section \<open>Properties\<close>

text \<open>
  C31: whatever moves any number of threads make on a spin lock after \<open>SpinInit\<close>, at most one
  of them is past its acquire, the lock word is 1 while one is and 0 while none is, and as
  long as some thread is in an acquire or holds the lock, one holds it or gets it with its
  next turn (no deadlock).
\<close>

theorem spin_lock_safe:
  assumes "lock_run spin_impl evs SpinInit = Some l"
  shows "(\<forall>t u. spin_phase l t = In \<and> spin_phase l u = In \<longrightarrow> t = u) \<and>
    spin_word l = (if \<exists>t. spin_phase l t = In then 1 else 0) \<and>
    (\<forall>t. spin_phase l t \<noteq> Out \<longrightarrow>
      (\<exists>u. spin_phase l u = In \<or> spin_phase l u = Trying \<and> spin_phase (spin_try u l) u = In))"
proof (intro conjI)
  have "lock_reaches spin_impl UNIV l"
    using lock_run_reaches [OF reach_init, of evs UNIV spin_impl l] assms
    by (simp add: spin_impl_def)
  then have inv: "spin_inv l" by (rule spin.reaches_inv)
  then show "\<forall>t u. spin_phase l t = In \<and> spin_phase l u = In \<longrightarrow> t = u"
    using spin.one_inside [of l] by (auto simp: spin_impl_def)
  show "spin_word l = (if \<exists>t. spin_phase l t = In then 1 else 0)"
    using inv by (auto simp: spin_inv_def split: if_splits)
  show "\<forall>t. spin_phase l t \<noteq> Out \<longrightarrow>
      (\<exists>u. spin_phase l u = In \<or> spin_phase l u = Trying \<and> spin_phase (spin_try u l) u = In)"
    using spin_progress [OF inv] by blast
qed

text \<open>Thread 1 takes the lock; thread 2 spins in vain, then gets it after the release.\<close>

lemma spin_lock_safe_witness:
  "\<exists>l. lock_run spin_impl [Acquire 1, Acquire 2, Spin 2, Release 1, Spin 2] SpinInit = Some l \<and>
    spin_phase l 2 = In \<and> spin_word l = (if \<exists>t. spin_phase l t = In then 1 else 0)"
proof -
  let ?evs = "[Acquire 1, Acquire 2, Spin 2, Release 1, Spin 2]"
  have r: "\<exists>l. lock_run spin_impl ?evs SpinInit = Some l \<and> spin_phase l 2 = In"
    by (simp add: spin_defs)
  then obtain l where l: "lock_run spin_impl ?evs SpinInit = Some l" "spin_phase l 2 = In" by blast
  from spin_lock_safe [OF l(1)] l show ?thesis by blast
qed

text \<open>
  C3: the ticket lock is the fair lock of the specification, for up to 65536 threads: every
  run of it after \<open>TicketInit\<close> is a run of the line of threads with the same moves, at whose
  end each thread is in the same phase. So the threads enter in the order in which they drew
  their tickets, one at a time, although both tickets wrap at 16 bits.
\<close>

theorem ticket_lock_is_fair:
  assumes "lock_run ticket_impl evs TicketInit = Some l"
    and "\<forall>ev\<in>set evs. event_thread ev < 65536"
  shows "\<exists>a. lock_run fifo_impl evs (lk_init fifo_impl) = Some a \<and> tkt_phase l = fifo_phase a \<and>
      distinct (line a) \<and>
      pair_tail (head_tail l) - pair_head (head_tail l) = of_nat (length (line a)) \<and>
      (\<forall>t. tkt_phase l t = In \<longrightarrow> line a \<noteq> [] \<and> t = hd (line a))"
proof -
  from ticket.run_on_line [OF represents_init _ assms(1)] assms(2) obtain a where
    a: "lock_run fifo_impl evs (lk_init fifo_impl) = Some a" "represents l a" by auto
  moreover from a(2) have "\<forall>t. tkt_phase l t = In \<longrightarrow> line a \<noteq> [] \<and> t = hd (line a)"
    by (auto simp: represents_def fifo_phase_def split: if_splits)
  ultimately show ?thesis by (auto simp: represents_def)
qed

text \<open>Threads 7, 3 and 5 draw in this order; 3 enters after 7, before 5.\<close>

lemma ticket_lock_is_fair_witness:
  "\<exists>l a. lock_run ticket_impl [Acquire 7, Acquire 3, Acquire 5, Spin 5, Release 7, Spin 5, Spin 3]
      TicketInit = Some l \<and> tkt_phase l = fifo_phase a \<and> line a = [3, 5] \<and> tkt_phase l 3 = In"
proof -
  let ?evs = "[Acquire 7, Acquire 3, Acquire 5, Spin 5, Release 7, Spin 5, Spin 3]"
  have "lock_run fifo_impl ?evs (lk_init fifo_impl) = Some \<lparr>line = [3, 5], inside = True\<rparr>"
    by (simp add: fifo_impl_def fifo_phase_def fifo_enter_def)
  moreover have "case lock_run ticket_impl ?evs TicketInit of None \<Rightarrow> False | Some l \<Rightarrow> True"
    by code_simp
  then obtain l where l: "lock_run ticket_impl ?evs TicketInit = Some l"
    by (auto split: option.splits)
  moreover have "\<forall>ev\<in>set ?evs. event_thread ev < 65536" by simp
  ultimately have p: "tkt_phase l = fifo_phase \<lparr>line = [3, 5], inside = True\<rparr>"
    using ticket_lock_is_fair [OF l] by auto
  then have "tkt_phase l 3 = In" by (simp add: fifo_phase_def)
  with l p show ?thesis by (intro exI conjI) (assumption | simp)+
qed

end
