(* ===== verification/LockTest.thy ===== *)
theory LockTest
  imports Locks
begin

text \<open>
  The program \<open>lock_test\<close> (\<open>lock_test/lock_test.c\<close>, \<open>lock_test/test.c\<close>) as a client of the lock
  interface: every thread adds 1 to one element and -1 to another, each under the element's
  lock, and at the end the sum over the elements must be 0. The addition is the load, the
  addition and the store the compiler makes of it, so it needs the lock. The threads are
  interleaved in any order; one step of a thread is one access to shared memory. The results
  are proved for every lock that keeps the contract and instantiated with the locks of
  \<open>Locks\<close>.
\<close>

section \<open>The program\<close>

text \<open>
  Where a thread stands in \<open>ADD(s,i)\<close>, that is
  \<open>{ Acquire(&s->l); s->v += i; Release(&s->l); }\<close>.
\<close>

datatype test_pc = Ready | Acquiring | Holding | Loaded u32 | Stored

text \<open>
  The elements (\<open>l\<close> and \<open>v\<close> of the structures), and for each thread the additions it still
  has to make, as element and amount, with its place in the first of them. An \<open>int\<close> of the
  program is a 32-bit word.
\<close>

record 'l test =
  elem_lock :: "nat \<Rightarrow> 'l"
  elem_val :: "nat \<Rightarrow> u32"
  todo :: "nat \<Rightarrow> (nat \<times> u32) list"
  pc :: "nat \<Rightarrow> test_pc"

definition entered :: "'l lock_impl \<Rightarrow> nat \<Rightarrow> 'l \<Rightarrow> test_pc" where
  "entered L t l = (if lk_phase L l t = In then Holding else Acquiring)"

text \<open>The next step of thread \<open>t\<close>, or \<open>None\<close> once it has finished.\<close>

definition thread_step :: "'l lock_impl \<Rightarrow> nat \<Rightarrow> 'l test \<Rightarrow> 'l test option" where
  "thread_step L t s =
     (case todo s t of
        [] \<Rightarrow> None
      | (e, i) # rest \<Rightarrow>
         (case pc s t of
            Ready \<Rightarrow>
              let l = lk_acquire L t (elem_lock s e)
              in Some (s\<lparr>elem_lock := (elem_lock s)(e := l), pc := (pc s)(t := entered L t l)\<rparr>)
          | Acquiring \<Rightarrow>
              let l = lk_spin L t (elem_lock s e)
              in Some (s\<lparr>elem_lock := (elem_lock s)(e := l), pc := (pc s)(t := entered L t l)\<rparr>)
          | Holding \<Rightarrow> Some (s\<lparr>pc := (pc s)(t := Loaded (elem_val s e))\<rparr>)
          | Loaded x \<Rightarrow> Some (s\<lparr>elem_val := (elem_val s)(e := x + i), pc := (pc s)(t := Stored)\<rparr>)
          | Stored \<Rightarrow>
              Some (s\<lparr>elem_lock := (elem_lock s)(e := lk_release L t (elem_lock s e)),
                      pc := (pc s)(t := Ready), todo := (todo s)(t := rest)\<rparr>)))"

inductive test_reaches :: "'l lock_impl \<Rightarrow> 'l test \<Rightarrow> 'l test \<Rightarrow> bool" for L s where
  test_refl: "test_reaches L s s"
| test_step: "test_reaches L s u \<Longrightarrow> thread_step L t u = Some v \<Longrightarrow> test_reaches L s v"

fun run_schedule :: "'l lock_impl \<Rightarrow> nat list \<Rightarrow> 'l test \<Rightarrow> 'l test option" where
  "run_schedule L [] s = Some s"
| "run_schedule L (t # ts) s =
     (case thread_step L t s of None \<Rightarrow> None | Some s' \<Rightarrow> run_schedule L ts s')"

text \<open>
  The additions of one thread: \<open>perm\<close> is its table of \<open>2 * nmbrElems\<close> element numbers, drawn by
  \<open>rand_r\<close> (a parameter).
\<close>

definition thread_work :: "nat \<Rightarrow> nat \<Rightarrow> (nat \<Rightarrow> nat) \<Rightarrow> (nat \<times> u32) list" where
  "thread_work nmbrElems nIter perm =
     concat (map (\<lambda>j. [(perm (2 * (j mod nmbrElems)), 1), (perm (2 * (j mod nmbrElems) + 1), - 1)])
       [0..<nIter])"

definition test_start ::
    "'l lock_impl \<Rightarrow> nat \<Rightarrow> nat \<Rightarrow> nat \<Rightarrow> (nat \<Rightarrow> nat \<Rightarrow> nat) \<Rightarrow> 'l test" where
  "test_start L nmbrElems nIter nThreads perm =
     \<lparr>elem_lock = (\<lambda>_. lk_init L), elem_val = (\<lambda>_. 0),
      todo = (\<lambda>t. if t < nThreads then thread_work nmbrElems nIter (perm t) else []),
      pc = (\<lambda>_. Ready)\<rparr>"

definition finished :: "'l test \<Rightarrow> bool" where
  "finished s \<longleftrightarrow> (\<forall>t. todo s t = [])"

text \<open>The sum over the elements, and the result \<open>sum != 0\<close> of the test.\<close>

definition test_sum :: "nat \<Rightarrow> 'l test \<Rightarrow> u32" where
  "test_sum nmbrElems s = sum_list (map (elem_val s) [0..<nmbrElems])"

definition test_result :: "nat \<Rightarrow> 'l test \<Rightarrow> int" where
  "test_result nmbrElems s = (if test_sum nmbrElems s \<noteq> 0 then 1 else 0)"

section \<open>The invariant\<close>

text \<open>The phase the place of a thread stands for, on the lock of element \<open>e\<close>.\<close>

fun pc_phase :: "test_pc \<Rightarrow> phase" where
  "pc_phase Ready = Out"
| "pc_phase Acquiring = Trying"
| "pc_phase Holding = In"
| "pc_phase (Loaded x) = In"
| "pc_phase Stored = In"

definition phase_at :: "'l test \<Rightarrow> nat \<Rightarrow> nat \<Rightarrow> phase" where
  "phase_at s e t =
     (case todo s t of [] \<Rightarrow> Out | (d, i) # rest \<Rightarrow> if d = e then pc_phase (pc s t) else Out)"

text \<open>What a thread still has to add to the values in memory.\<close>

definition pending :: "'l test \<Rightarrow> nat \<Rightarrow> u32" where
  "pending s t = sum_list (map snd (if pc s t = Stored then tl (todo s t) else todo s t))"

definition test_total :: "nat \<Rightarrow> nat \<Rightarrow> 'l test \<Rightarrow> u32" where
  "test_total m n s = (\<Sum>e<m. elem_val s e) + (\<Sum>t<n. pending s t)"

definition test_inv :: "'l lock_impl \<Rightarrow> ('l \<Rightarrow> bool) \<Rightarrow> nat \<Rightarrow> nat \<Rightarrow> 'l test \<Rightarrow> bool" where
  "test_inv L I m n s \<longleftrightarrow>
     (\<forall>e. I (elem_lock s e)) \<and>
     (\<forall>e t. lk_phase L (elem_lock s e) t = phase_at s e t) \<and>
     (\<forall>t. n \<le> t \<longrightarrow> todo s t = []) \<and>
     (\<forall>t d i rest x. todo s t = (d, i) # rest \<longrightarrow> pc s t = Loaded x \<longrightarrow> elem_val s d = x) \<and>
     (\<forall>t. \<forall>w\<in>set (todo s t). fst w < m)"

text \<open>What is left to do, in steps other than vain turns of the acquire loop.\<close>

fun steps_done :: "test_pc \<Rightarrow> nat" where
  "steps_done Ready = 0"
| "steps_done Acquiring = 1"
| "steps_done Holding = 2"
| "steps_done (Loaded x) = 3"
| "steps_done Stored = 4"

definition thread_left :: "'l test \<Rightarrow> nat \<Rightarrow> nat" where
  "thread_left s t = 5 * length (todo s t) - (if todo s t = [] then 0 else steps_done (pc s t))"

lemma sum_list_concat_zero:
  "(\<And>x. sum_list (f x) = 0) \<Longrightarrow> sum_list (concat (map f xs)) = (0 :: 'b::monoid_add)"
  by (induction xs) simp_all

lemma sum_change:
  fixes f g :: "nat \<Rightarrow> 'b::ab_group_add"
  assumes "k < n" "\<And>i. i \<noteq> k \<Longrightarrow> g i = f i"
  shows "(\<Sum>i<n. g i) = (\<Sum>i<n. f i) - f k + g k"
proof -
  have "(\<Sum>i\<in>{..<n} - {k}. g i) = (\<Sum>i\<in>{..<n} - {k}. f i)"
    using assms(2) by (intro sum.cong) auto
  then show ?thesis
    using assms(1) by (simp add: sum.remove [of "{..<n}" k])
qed

lemma sum_decreases:
  fixes f g :: "nat \<Rightarrow> nat"
  assumes "k < n" "\<And>i. i \<noteq> k \<Longrightarrow> g i = f i" "g k < f k"
  shows "(\<Sum>i<n. g i) < (\<Sum>i<n. f i)"
proof (rule sum_strict_mono_ex1)
  show "\<forall>i\<in>{..<n}. g i \<le> f i"
  proof
    fix i show "g i \<le> f i" using assms(2) [of i] assms(3) by (cases "i = k") auto
  qed
qed (use assms in auto)

lemmas thread_step_simps = thread_step_def entered_def Let_def

lemma thread_step_todo:
  assumes "thread_step L t s = Some s'"
  obtains e i rest where "todo s t = (e, i) # rest"
  using assms by (auto simp: thread_step_def split: list.splits)

lemma phase_at_head: "todo s t = (e, i) # rest \<Longrightarrow> phase_at s e t = pc_phase (pc s t)"
  by (simp add: phase_at_def)

lemma phase_at_elsewhere: "todo s t = (e, i) # rest \<Longrightarrow> d \<noteq> e \<Longrightarrow> phase_at s d t = Out"
  by (simp add: phase_at_def)

lemma phase_at_ready: "pc s t = Ready \<Longrightarrow> phase_at s d t = Out"
  by (simp add: phase_at_def split: list.splits)

lemma test_invD:
  assumes "test_inv L I m n s"
  shows "I (elem_lock s e)"
    and "lk_phase L (elem_lock s e) t = phase_at s e t"
    and "n \<le> t \<Longrightarrow> todo s t = []"
    and "todo s t = (d, i) # rest \<Longrightarrow> pc s t = Loaded x \<Longrightarrow> elem_val s d = x"
    and "w \<in> set (todo s t) \<Longrightarrow> fst w < m"
  using assms unfolding test_inv_def by blast+

text \<open>
  How a step of thread \<open>t\<close>, whose next addition is to \<open>e\<close>, keeps the invariant: it is enough
  to know what becomes of the lock of \<open>e\<close> and of \<open>t\<close>.
\<close>

lemma test_inv_moveI:
  assumes i: "test_inv L I m n s" and td: "todo s t = (e, i) # rest"
    and s': "s' = s\<lparr>elem_lock := (elem_lock s)(e := l), elem_val := (elem_val s)(e := v),
      pc := (pc s)(t := p), todo := (todo s)(t := w)\<rparr>"
    and l: "I l" "\<And>u. u \<noteq> t \<Longrightarrow> lk_phase L l u = lk_phase L (elem_lock s e) u"
      "lk_phase L l t = pc_phase p"
    and w: "w = todo s t \<or> w = rest \<and> p = Ready"
    and p: "\<And>x. p = Loaded x \<Longrightarrow> v = x"
    and v: "v = elem_val s e \<or> (\<forall>u. u \<noteq> t \<longrightarrow> phase_at s e u \<noteq> In)"
  shows "test_inv L I m n s'"
proof -
  have same: "phase_at s' d u = phase_at s d u" if "u \<noteq> t" for d u
    using that by (simp add: s' phase_at_def split: list.splits)
  have mine: "phase_at s' d t = (if d = e then pc_phase p else Out)" for d
    using w td by (auto simp: s' phase_at_def split: list.splits)
  have ph: "lk_phase L (elem_lock s' d) u = phase_at s' d u" for d u
  proof (cases "d = e")
    case True
    with l mine same test_invD(2) [OF i] show ?thesis by (cases "u = t") (auto simp: s')
  next
    case False
    with mine same test_invD(2) [OF i] phase_at_elsewhere [OF td False] show ?thesis
      by (cases "u = t") (auto simp: s')
  qed
  have lo: "elem_val s' d = x" if "todo s' u = (d, j) # r" "pc s' u = Loaded x" for u d j r x
  proof (cases "u = t")
    case True
    with that td w p show ?thesis by (auto simp: s')
  next
    case False
    with that have u: "todo s u = (d, j) # r" "pc s u = Loaded x" by (simp_all add: s')
    from u have "phase_at s d u = In" by (simp add: phase_at_def)
    with v False have "d = e \<Longrightarrow> v = elem_val s e" by auto
    with test_invD(4) [OF i u] show ?thesis by (auto simp: s')
  qed
  have "n \<le> u \<Longrightarrow> todo s' u = []" for u
    using test_invD(3) [OF i, of u] td w by (auto simp: s')
  moreover have "x \<in> set (todo s' u) \<Longrightarrow> fst x < m" for u x
    using test_invD(5) [OF i, of x u] td w by (auto simp: s' split: if_splits)
  ultimately show ?thesis
    using test_invD(1) [OF i] l(1) ph lo by (auto simp: test_inv_def s')
qed

context mutex_lock
begin

lemma test_inv_step:
  assumes i: "test_inv L inv m n s" and n: "{..<n} \<subseteq> T" and st: "thread_step L t s = Some s'"
  shows "test_inv L inv m n s'"
proof -
  from thread_step_todo [OF st] obtain e a rest where td: "todo s t = (e, a) # rest" .
  with test_invD(3) [OF i, of t] have "t < n" by (cases "n \<le> t") auto
  with n have t: "t \<in> T" by auto
  have me: "lk_phase L (elem_lock s e) t = pc_phase (pc s t)"
    using test_invD(2) [OF i] phase_at_head [OF td] by simp
  have alone: "\<forall>u. u \<noteq> t \<longrightarrow> phase_at s e u \<noteq> In" if "pc_phase (pc s t) = In"
    using one_inside [OF test_invD(1) [OF i, of e], of t] me that test_invD(2) [OF i] by metis
  have entered: "lk_phase L l t = pc_phase (entered L t l)" if "lk_phase L l t \<noteq> Out" for l
    using that by (cases "lk_phase L l t") (simp_all add: entered_def)
  note step = st [unfolded thread_step_def td list.case prod.case, symmetric]
  note moveI = test_inv_moveI [OF i td]
  note I = test_invD(1) [OF i, of e]
  show ?thesis
  proof (cases "pc s t")
    case Ready
    let ?l = "lk_acquire L t (elem_lock s e)"
    have "s' = s\<lparr>elem_lock := (elem_lock s)(e := ?l), elem_val := (elem_val s)(e := elem_val s e),
        pc := (pc s)(t := entered L t ?l), todo := (todo s)(t := todo s t)\<rparr>"
      using step Ready by (simp add: Let_def)
    then show ?thesis
      by (rule moveI) (use me Ready inv_acquire [OF I t] entered [of ?l] acquire_phase [OF I t] acquire_other [OF I t]
          in \<open>auto simp: entered_def split: if_splits\<close>)
  next
    case Acquiring
    let ?l = "lk_spin L t (elem_lock s e)"
    have "s' = s\<lparr>elem_lock := (elem_lock s)(e := ?l), elem_val := (elem_val s)(e := elem_val s e),
        pc := (pc s)(t := entered L t ?l), todo := (todo s)(t := todo s t)\<rparr>"
      using step Acquiring by (simp add: Let_def)
    then show ?thesis
      by (rule moveI) (use me Acquiring inv_spin [OF I t] entered [of ?l] spin_phase [OF I t] spin_other [OF I t]
          in \<open>auto simp: entered_def split: if_splits\<close>)
  next
    case Holding
    have "s' = s\<lparr>elem_lock := (elem_lock s)(e := elem_lock s e),
        elem_val := (elem_val s)(e := elem_val s e),
        pc := (pc s)(t := Loaded (elem_val s e)), todo := (todo s)(t := todo s t)\<rparr>"
      using step Holding by simp
    then show ?thesis by (rule moveI) (use me Holding I in auto)
  next
    case (Loaded x)
    have "s' = s\<lparr>elem_lock := (elem_lock s)(e := elem_lock s e),
        elem_val := (elem_val s)(e := x + a), pc := (pc s)(t := Stored), todo := (todo s)(t := todo s t)\<rparr>"
      using step Loaded by simp
    then show ?thesis by (rule moveI) (use me Loaded I alone in auto)
  next
    case Stored
    let ?l = "lk_release L t (elem_lock s e)"
    have "s' = s\<lparr>elem_lock := (elem_lock s)(e := ?l), elem_val := (elem_val s)(e := elem_val s e),
        pc := (pc s)(t := Ready), todo := (todo s)(t := rest)\<rparr>"
      using step Stored by simp
    then show ?thesis
      by (rule moveI) (use me Stored inv_release [OF I t] release_phase [OF I t] release_other [OF I t] in auto)
  qed
qed

text \<open>No step changes what is in memory together with what is still to be added.\<close>

lemma test_total_step:
  assumes i: "test_inv L inv m n s" and st: "thread_step L t s = Some s'"
  shows "test_total m n s' = test_total m n s"
proof -
  from thread_step_todo [OF st] obtain e a rest where td: "todo s t = (e, a) # rest" .
  have t: "t < n" using test_invD(3) [OF i, of t] td by (cases "n \<le> t") auto
  have e: "e < m" using test_invD(5) [OF i, of "(e, a)" t] td by simp
  note step = st [unfolded thread_step_def td list.case prod.case, symmetric]
  have P: "(\<Sum>u<n. pending s' u) = (\<Sum>u<n. pending s u) - pending s t + pending s' t"
    using step by (intro sum_change [OF t])
      (auto simp: pending_def Let_def split: test_pc.splits)
  have V: "(\<Sum>d<m. elem_val s' d) = (\<Sum>d<m. elem_val s d) - elem_val s e + elem_val s' e"
    using step by (intro sum_change [OF e]) (auto simp: Let_def split: test_pc.splits)
  have "elem_val s' e + pending s' t = elem_val s e + pending s t"
    using step td test_invD(4) [OF i td]
    by (cases "pc s t") (auto simp: pending_def Let_def entered_def)
  then show ?thesis unfolding test_total_def P V by (simp add: algebra_simps)
qed

lemma reaches_inv_total:
  assumes "test_reaches L s s'" "test_inv L inv m n s" "{..<n} \<subseteq> T"
  shows "test_inv L inv m n s' \<and> test_total m n s' = test_total m n s"
  using assms by induction (auto intro: test_inv_step simp: test_total_step)

lemma start_inv:
  assumes "\<forall>t<n. \<forall>k. perm t k < m"
  shows "test_inv L inv m n (test_start L m k n perm)"
proof -
  have "phase_at (test_start L m k n perm) e t = Out" for e t
    by (rule phase_at_ready) (simp add: test_start_def)
  then show ?thesis
    using assms inv_init init_out by (auto simp: test_inv_def test_start_def thread_work_def)
qed

text \<open>As long as a thread has not finished, some thread can make a step that counts.\<close>

lemma unfinished_step:
  assumes i: "test_inv L inv m n s" and u: "\<not> finished s"
  obtains t s' where "thread_step L t s = Some s'"
    "(\<Sum>u<n. thread_left s' u) < (\<Sum>u<n. thread_left s u)"
proof -
  have "\<exists>t e a rest. todo s t = (e, a) # rest \<and>
      (pc s t \<noteq> Acquiring \<or> lk_phase L (lk_spin L t (elem_lock s e)) t = In)"
  proof (rule ccontr)
    assume none: "\<not> ?thesis"
    from u obtain t e a rest where td: "todo s t = (e, a) # rest"
      by (auto simp: finished_def neq_Nil_conv)
    with none have "pc s t = Acquiring" by blast
    with td have "lk_phase L (elem_lock s e) t \<noteq> Out"
      using test_invD(2) [OF i] by (simp add: phase_at_def)
    from progress [OF test_invD(1) [OF i] this] obtain w where
      w: "phase_at s e w = In \<or> phase_at s e w = Trying \<and> lk_phase L (lk_spin L w (elem_lock s e)) w = In"
      using test_invD(2) [OF i] by auto
    then obtain b rest' where wd: "todo s w = (e, b) # rest'"
      by (auto simp: phase_at_def split: list.splits if_splits)
    with none have "pc s w = Acquiring" "lk_phase L (lk_spin L w (elem_lock s e)) w \<noteq> In" by blast+
    with w wd show False by (simp add: phase_at_def)
  qed
  then obtain t e a rest where td: "todo s t = (e, a) # rest"
    and go: "pc s t \<noteq> Acquiring \<or> lk_phase L (lk_spin L t (elem_lock s e)) t = In" by blast
  have t: "t < n" using test_invD(3) [OF i, of t] td by (cases "n \<le> t") auto
  from td obtain s' where s': "thread_step L t s = Some s'"
    by (cases "pc s t") (auto simp: thread_step_def Let_def)
  note step = s' [unfolded thread_step_def td list.case prod.case, symmetric]
  have "thread_left s' t < thread_left s t"
    using step td go by (cases "pc s t") (auto simp: thread_left_def Let_def entered_def)
  moreover have "thread_left s' u = thread_left s u" if "u \<noteq> t" for u
    using step that by (cases "pc s t") (auto simp: thread_left_def Let_def)
  ultimately have "(\<Sum>u<n. thread_left s' u) < (\<Sum>u<n. thread_left s u)"
    by (intro sum_decreases [OF t])
  then show ?thesis by (rule that [OF s'])
qed

lemma test_finishes:
  assumes n: "{..<n} \<subseteq> T" and "test_inv L inv m n s" "test_reaches L s0 s"
  shows "\<exists>s'. test_reaches L s0 s' \<and> finished s'"
  using assms(2,3)
proof (induction "\<Sum>u<n. thread_left s u" arbitrary: s rule: less_induct)
  case less
  show ?case
  proof (cases "finished s")
    case False
    from unfinished_step [OF less.prems(1) False] obtain t s' where
      s': "thread_step L t s = Some s'" "(\<Sum>u<n. thread_left s' u) < (\<Sum>u<n. thread_left s u)" .
    from less.hyps [OF s'(2) test_inv_step [OF less.prems(1) n s'(1)] test_step [OF less.prems(2) s'(1)]]
    show ?thesis .
  qed (use less.prems in blast)
qed

lemma test_passes:
  assumes n: "{..<n} \<subseteq> T" and perm: "\<forall>t<n. \<forall>k. perm t k < m"
    and r: "test_reaches L (test_start L m k n perm) s" and f: "finished s"
  shows "test_result m s = 0"
proof -
  note start = start_inv [OF perm, of k]
  from reaches_inv_total [OF r start n] have t: "test_total m n s = test_total m n (test_start L m k n perm)"
    by simp
  have "pending (test_start L m k n perm) u = 0" for u
    by (simp add: pending_def test_start_def thread_work_def map_concat o_def sum_list_concat_zero)
  then have "test_total m n (test_start L m k n perm) = 0"
    by (simp add: test_total_def test_start_def)
  moreover have "pending s u = 0" for u
    using f by (simp add: pending_def finished_def)
  then have "test_total m n s = test_sum m s"
    by (simp add: test_total_def test_sum_def interv_sum_list_conv_sum_set_nat atLeast0LessThan)
  ultimately show ?thesis using t by (simp add: test_result_def)
qed

end

section \<open>Properties\<close>

lemma run_schedule_reaches:
  "test_reaches L s u \<Longrightarrow> run_schedule L ts u = Some v \<Longrightarrow> test_reaches L s v"
  by (induction ts arbitrary: u) (auto split: option.splits intro: test_step)

text \<open>
  C12: \<open>testSpinLock\<close> with any number of threads and \<open>testTicketLock\<close> with up to 65536
  return 0: in whatever order the threads are interleaved, when all have finished, the sum
  over the elements is 0, so no addition was lost.
\<close>

theorem lock_test_passes:
  assumes perm: "\<forall>t<n. \<forall>k. perm t k < m"
  shows "(\<forall>s. test_reaches spin_impl (test_start spin_impl m iters n perm) s \<and> finished s \<longrightarrow>
      test_result m s = 0) \<and>
    (n \<le> 65536 \<longrightarrow>
      (\<forall>s. test_reaches ticket_impl (test_start ticket_impl m iters n perm) s \<and> finished s \<longrightarrow>
      test_result m s = 0))"
  using spin.test_passes [OF _ perm] ticket.test_passes [OF _ perm] by auto

text \<open>
  Two threads, one iteration, two elements: thread 1 draws a ticket of element 0 while
  thread 0 holds its lock, and goes on when thread 0 has left.
\<close>

definition demo_schedule :: "nat list" where
  "demo_schedule = [0, 1, 1, 0, 0, 0, 0, 0, 0, 0, 1, 1, 1, 1, 1, 1, 1, 1]"

lemma demo_run:
  defines "s0 \<equiv> test_start ticket_impl 2 1 2 (\<lambda>t k. k mod 2)"
  obtains s where "test_reaches ticket_impl s0 s" "finished s"
proof -
  have "case run_schedule ticket_impl demo_schedule s0 of None \<Rightarrow> False
      | Some s \<Rightarrow> todo s 0 = [] \<and> todo s 1 = []"
    unfolding s0_def by code_simp
  then obtain s where s: "run_schedule ticket_impl demo_schedule s0 = Some s"
      "todo s 0 = []" "todo s 1 = []"
    by (auto split: option.splits)
  have r: "test_reaches ticket_impl s0 s"
    using run_schedule_reaches [OF test_refl s(1)] .
  have "test_inv ticket_impl ticket_inv 2 2 s0"
    unfolding s0_def by (rule ticket.start_inv) simp
  from ticket.reaches_inv_total [OF r this] have "test_inv ticket_impl ticket_inv 2 2 s" by simp
  from test_invD(3) [OF this] s have "todo s t = []" for t
    by (cases "2 \<le> t") (auto simp: not_le less_2_cases_iff)
  with r show ?thesis using that by (simp add: finished_def)
qed

lemma lock_test_passes_witness:
  "\<exists>s. test_reaches ticket_impl (test_start ticket_impl 2 1 2 (\<lambda>t k. k mod 2)) s \<and> finished s \<and>
    test_result 2 s = 0"
proof -
  obtain s where s: "test_reaches ticket_impl (test_start ticket_impl 2 1 2 (\<lambda>t k. k mod 2)) s"
    "finished s" by (rule demo_run)
  moreover have "test_result 2 s = 0"
    using lock_test_passes [of 2 "\<lambda>t k. k mod 2" 2 1] s by simp
  ultimately show ?thesis by blast
qed

text \<open>
  The tests cannot block: from every state they reach, all threads can still run to their
  end.
\<close>

theorem lock_test_can_finish:
  assumes perm: "\<forall>t<n. \<forall>k. perm t k < m"
  shows "(\<forall>s. test_reaches spin_impl (test_start spin_impl m iters n perm) s \<longrightarrow>
      (\<exists>s'. test_reaches spin_impl s s' \<and> finished s')) \<and>
    (n \<le> 65536 \<longrightarrow> (\<forall>u. test_reaches ticket_impl (test_start ticket_impl m iters n perm) u \<longrightarrow>
      (\<exists>s'. test_reaches ticket_impl u s' \<and> finished s')))"
proof (intro conjI impI allI)
  show "\<exists>s'. test_reaches spin_impl s s' \<and> finished s'"
    if r: "test_reaches spin_impl (test_start spin_impl m iters n perm) s" for s
    by (rule spin.test_finishes [where T = UNIV and n = n and m = m])
      (use spin.reaches_inv_total [OF r spin.start_inv [OF perm], of UNIV] in \<open>auto intro: test_refl\<close>)
  show "\<exists>s'. test_reaches ticket_impl u s' \<and> finished s'"
    if n: "n \<le> 65536" and r: "test_reaches ticket_impl (test_start ticket_impl m iters n perm) u" for u
    by (rule ticket.test_finishes [where n = n and m = m])
      (use n ticket.reaches_inv_total [OF r ticket.start_inv [OF perm]] in \<open>auto intro: test_refl\<close>)
qed

text \<open>After five steps of the two threads, thread 1 still waits.\<close>

lemma lock_test_can_finish_witness:
  "\<exists>u s'. run_schedule ticket_impl (take 5 demo_schedule)
      (test_start ticket_impl 2 1 2 (\<lambda>t k. k mod 2)) = Some u \<and> pc u 1 = Acquiring \<and>
    test_reaches ticket_impl u s' \<and> finished s'"
proof -
  let ?s0 = "test_start ticket_impl 2 1 2 (\<lambda>t k. k mod 2)"
  have "case run_schedule ticket_impl (take 5 demo_schedule) ?s0 of None \<Rightarrow> False
      | Some u \<Rightarrow> (case pc u 1 of Acquiring \<Rightarrow> True | _ \<Rightarrow> False)"
    by code_simp
  then obtain u where u: "run_schedule ticket_impl (take 5 demo_schedule) ?s0 = Some u"
      "pc u 1 = Acquiring"
    by (auto split: option.splits test_pc.splits)
  have "\<exists>s'. test_reaches ticket_impl u s' \<and> finished s'"
    using lock_test_can_finish [of 2 "\<lambda>t k. k mod 2" 2 1]
      run_schedule_reaches [OF test_refl u(1)] by simp
  with u show ?thesis by blast
qed

end
