(* ===== verification/QTicket.thy ===== *)
theory QTicket
  imports LockTest
begin

text \<open>
  The queued ticket lock: \<open>QTicketAcquire\<close> and \<open>QTicketRelease\<close> of \<open>lib/ncutils_lock.h\<close> and all
  of \<open>lib/tktqlock.c\<close>. When eight threads wait for a lock, one of them gives it a queue from a
  pool that all locks share; bit 0 of the head says that a lock has one, and the lock is then
  handed from thread to thread along the queue. A step of a thread is one access to shared
  memory with the tests on local values that follow it. With at most eight threads on a lock
  there is never a queue and the lock keeps the contract of \<open>mutex_lock\<close>; with more, two threads
  can be inside at once.
\<close>

section \<open>Queues\<close>

definition TKT_Q_SWITCH :: nat where "TKT_Q_SWITCH = 8 * 2"

definition NR_CPUS :: nat where "NR_CPUS = 4096"

definition TKT_Q_NQUEUES :: nat where
  "TKT_Q_NQUEUES = (NR_CPUS + TKT_Q_SWITCH - 1 + TKT_Q_SWITCH - 1) div TKT_Q_SWITCH * 2"

definition tkt_q_next_slot :: "nat \<Rightarrow> nat" where
  "tkt_q_next_slot i = (if i + 1 < TKT_Q_NQUEUES then i + 1 else 0)"

text \<open>A lock is its address.\<close>

definition tkt_q_hash :: "nat \<Rightarrow> nat" where
  "tkt_q_hash lock = lock div 2 ^ 8 mod TKT_Q_NQUEUES"

text \<open>
  The element of a queue is on the stack of its thread, so a pointer to an element is the
  thread. A pointer to a pointer is to the start of a queue or to the link of an element.
\<close>

datatype tkt_q_ref = No_lock | Reserved | Lock_at nat

datatype tkt_q_link = Null_link | Spin_of nat | Next_of nat

record tkt_q =
  q_cpu :: int
  q_tail :: u16
  q_next :: "nat option"

record tkt_q_head =
  q_ref :: tkt_q_ref
  q_head_tkt :: int
  q_spin :: "nat option"
  q_spin_tail :: tkt_q_link

section \<open>Where a thread stands\<close>

text \<open>
  Each place is before the access it is named after, with the lock, the ticket (\<open>inc.tail\<close>) or
  the word read, and the queue. \<open>Inside\<close> is the critical section, from \<open>Wake_find\<close> on the thread is
  in \<open>tkt_q_do_wake\<close>.
\<close>

datatype q_place =
  Outside
| Loop nat u16
| Find nat u16 nat
| Test_ticket nat u16 nat
| Clear_ticket nat nat
| Enqueue nat nat
| Link nat nat tkt_q_link
| Wait nat nat
| Woken nat nat
| Set_empty nat nat
| Cas_tail nat nat
| Wait_next nat nat
| Advance nat nat
| Start nat u16 nat
| Claim nat u16 nat
| Test_queued nat u16 nat
| Init_spin nat u16 nat
| Init_tail nat u16 nat
| Read_word nat u16 nat
| Back_out nat u16 nat
| Set_ticket nat u16 nat u32
| Cas_queued nat u16 nat u32
| Set_ref nat u16 nat
| Inside nat
| Wake_find nat nat
| Wake_spin nat nat
| Unqueue_read nat nat
| Unqueue_cas nat nat u32
| Unqueue_ref nat
| Wake_test nat nat
| Wake_clear nat nat
| Hand_over nat

record q_state =
  q_word :: "nat \<Rightarrow> u32"
  q_heads :: "nat \<Rightarrow> tkt_q_head"
  q_elem :: "nat \<Rightarrow> tkt_q"
  q_at :: "nat \<Rightarrow> q_place"

definition go :: "nat \<Rightarrow> q_place \<Rightarrow> q_state \<Rightarrow> q_state" where
  "go t p s = s\<lparr>q_at := (q_at s)(t := p)\<rparr>"

definition set_word :: "nat \<Rightarrow> u32 \<Rightarrow> q_state \<Rightarrow> q_state" where
  "set_word l w s = s\<lparr>q_word := (q_word s)(l := w)\<rparr>"

definition set_head_of :: "nat \<Rightarrow> (tkt_q_head \<Rightarrow> tkt_q_head) \<Rightarrow> q_state \<Rightarrow> q_state" where
  "set_head_of i f s = s\<lparr>q_heads := (q_heads s)(i := f (q_heads s i))\<rparr>"

definition set_elem :: "nat \<Rightarrow> (tkt_q \<Rightarrow> tkt_q) \<Rightarrow> q_state \<Rightarrow> q_state" where
  "set_elem t f s = s\<lparr>q_elem := (q_elem s)(t := f (q_elem s t))\<rparr>"

definition queued :: "u16 \<Rightarrow> bool" where
  "queued head \<longleftrightarrow> head AND 1 \<noteq> 0"

text \<open>
  The comparison of head and ticket and, when they differ, \<open>tkt_spin_pass\<close>: to the queue, to
  the set-up of a queue, or back to the loop.
\<close>

definition tkt_spin_pass :: "nat \<Rightarrow> u16 \<Rightarrow> u16 \<Rightarrow> q_place" where
  "tkt_spin_pass l head tail =
     (if head XOR tail = 0 then Inside l
      else if queued head then Find l tail (tkt_q_hash l)
      else if int (unat tail) - int TKT_Q_SWITCH = int (unat head) then Start l tail (tkt_q_hash l)
      else Loop l tail)"

section \<open>The steps\<close>

definition QTicketAcquire :: "nat \<Rightarrow> nat \<Rightarrow> q_state \<Rightarrow> q_state" where
  "QTicketAcquire l t s =
     (case atomic_exchange_and_add (q_word s l) (raw_tickets 0 2) of (inc, w) \<Rightarrow>
        go t (tkt_spin_pass l (pair_head inc) (pair_tail inc)) (set_word l w s))"

text \<open>\<open>*oldtail = &tq\<close>\<close>

definition store_link :: "tkt_q_link \<Rightarrow> nat \<Rightarrow> q_state \<Rightarrow> q_state" where
  "store_link p t s =
     (case p of
        Null_link \<Rightarrow> s
      | Spin_of i \<Rightarrow> set_head_of i (\<lambda>h. h\<lparr>q_spin := Some t\<rparr>) s
      | Next_of u \<Rightarrow> set_elem u (\<lambda>e. e\<lparr>q_next := Some t\<rparr>) s)"

text \<open>
  One turn of \<open>tkt_q_find_head\<close>: where the thread goes when slot \<open>i\<close> is the queue of the lock, when
  the last slot was not (\<open>NULL\<close>), and to look at the next slot.
\<close>

definition tkt_q_find_head ::
    "nat \<Rightarrow> nat \<Rightarrow> q_state \<Rightarrow> q_place \<Rightarrow> q_place \<Rightarrow> (nat \<Rightarrow> q_place) \<Rightarrow> q_place" where
  "tkt_q_find_head l i s found null again =
     (if q_ref (q_heads s i) = Lock_at l then found
      else if tkt_q_next_slot i = tkt_q_hash l then null
      else again (tkt_q_next_slot i))"

text \<open>\<open>tkt_q_do_spin\<close>; without a queue it is back to the loop.\<close>

fun do_spin :: "nat \<Rightarrow> q_place \<Rightarrow> q_state \<Rightarrow> q_state" where
  "do_spin t (Find l tail i) s =
     go t (tkt_q_find_head l i s (Test_ticket l tail i) (Loop l tail) (Find l tail)) s"
| "do_spin t (Test_ticket l tail i) s =
     (let s = set_elem t (\<lambda>_. \<lparr>q_cpu = 0, q_tail = tail, q_next = None\<rparr>) s
      in go t (if q_head_tkt (q_heads s i) = int (unat tail) then Clear_ticket l i else Enqueue l i) s)"
| "do_spin t (Clear_ticket l i) s = go t (Inside l) (set_head_of i (\<lambda>h. h\<lparr>q_head_tkt := -1\<rparr>) s)"
| "do_spin t (Enqueue l i) s =
     go t (Link l i (q_spin_tail (q_heads s i))) (set_head_of i (\<lambda>h. h\<lparr>q_spin_tail := Next_of t\<rparr>) s)"
| "do_spin t (Link l i p) s = go t (Wait l i) (store_link p t s)"
| "do_spin t (Wait l i) s = (if q_cpu (q_elem s t) = -1 then go t (Woken l i) s else s)"
| "do_spin t (Woken l i) s = go t (if q_next (q_elem s t) = None then Set_empty l i else Advance l i) s"
| "do_spin t (Set_empty l i) s = go t (Cas_tail l i) (set_head_of i (\<lambda>h. h\<lparr>q_spin := None\<rparr>) s)"
| "do_spin t (Cas_tail l i) s =
     (if q_spin_tail (q_heads s i) = Next_of t
      then go t (Inside l) (set_head_of i (\<lambda>h. h\<lparr>q_spin_tail := Spin_of i\<rparr>) s)
      else go t (Wait_next l i) s)"
| "do_spin t (Wait_next l i) s = (if q_next (q_elem s t) = None then s else go t (Advance l i) s)"
| "do_spin t (Advance l i) s = go t (Inside l) (set_head_of i (\<lambda>h. h\<lparr>q_spin := q_next (q_elem s t)\<rparr>) s)"
| "do_spin t p s = s"

text \<open>\<open>tkt_q_start_contend\<close> and \<open>tkt_q_init_contend\<close>.\<close>

fun start_contend :: "nat \<Rightarrow> q_place \<Rightarrow> q_state \<Rightarrow> q_state" where
  "start_contend t (Start l tail i) s =
     go t (if q_ref (q_heads s i) = No_lock then Claim l tail i else Test_queued l tail i) s"
| "start_contend t (Claim l tail i) s =
     (if q_ref (q_heads s i) = No_lock
      then go t (Init_spin l tail i) (set_head_of i (\<lambda>h. h\<lparr>q_ref := Reserved\<rparr>) s)
      else go t (Test_queued l tail i) s)"
| "start_contend t (Test_queued l tail i) s =
     go t (if queued (pair_head (q_word s l)) then Find l tail (tkt_q_hash l)
           else if tkt_q_next_slot i = tkt_q_hash l then Loop l tail
           else Start l tail (tkt_q_next_slot i)) s"
| "start_contend t (Init_spin l tail i) s = go t (Init_tail l tail i) (set_head_of i (\<lambda>h. h\<lparr>q_spin := None\<rparr>) s)"
| "start_contend t (Init_tail l tail i) s = go t (Read_word l tail i) (set_head_of i (\<lambda>h. h\<lparr>q_spin_tail := Spin_of i\<rparr>) s)"
| "start_contend t (Read_word l tail i) s =
     go t (if queued (pair_head (q_word s l)) then Back_out l tail i else Set_ticket l tail i (q_word s l)) s"
| "start_contend t (Back_out l tail i) s =
     go t (Find l tail (tkt_q_hash l)) (set_head_of i (\<lambda>h. h\<lparr>q_ref := No_lock\<rparr>) s)"
| "start_contend t (Set_ticket l tail i old) s =
     go t (Cas_queued l tail i old) (set_head_of i (\<lambda>h. h\<lparr>q_head_tkt := int (unat (pair_head old))\<rparr>) s)"
| "start_contend t (Cas_queued l tail i old) s =
     (if q_word s l = old
      then go t (Set_ref l tail i) (set_word l (set_head old (pair_head old OR 1)) s)
      else go t (Read_word l tail i) s)"
| "start_contend t (Set_ref l tail i) s =
     go t (Find l tail (tkt_q_hash l)) (set_head_of i (\<lambda>h. h\<lparr>q_ref := Lock_at l\<rparr>) s)"
| "start_contend t p s = s"

text \<open>The loop of \<open>QTicketAcquire\<close>.\<close>

definition acquire_turn :: "nat \<Rightarrow> q_state \<Rightarrow> q_state" where
  "acquire_turn t s =
     (case q_at s t of
        Loop l tail \<Rightarrow> go t (tkt_spin_pass l (pair_head (q_word s l)) tail) s
      | p \<Rightarrow> start_contend t p (do_spin t p s))"

text \<open>\<open>QTicketRelease\<close>: the addition to the head, and the way into \<open>tkt_q_do_wake\<close>.\<close>

definition QTicketRelease :: "nat \<Rightarrow> q_state \<Rightarrow> q_state" where
  "QTicketRelease t s =
     (case q_at s t of
        Inside l \<Rightarrow>
          (case atomic_exchange_and_add (pair_head (q_word s l)) 2 of (old, h) \<Rightarrow>
             go t (if queued old then Wake_find l (tkt_q_hash l) else Outside) (set_word l (set_head (q_word s l) h) s))
      | _ \<Rightarrow> s)"

text \<open>\<open>tkt_q_do_wake\<close> and \<open>tkt_q_try_unqueue\<close>.\<close>

fun do_wake :: "nat \<Rightarrow> q_place \<Rightarrow> q_state \<Rightarrow> q_state" where
  "do_wake t (Wake_find l i) s =
     go t (tkt_q_find_head l i s (Wake_spin l i) (Wake_find l (tkt_q_hash l)) (Wake_find l)) s"
| "do_wake t (Wake_spin l i) s =
     go t (case q_spin (q_heads s i) of None \<Rightarrow> Unqueue_read l i | Some u \<Rightarrow> Wake_test i u) s"
| "do_wake t (Unqueue_read l i) s =
     (let w = q_word s l
      in go t (if pair_head w AND NOT 1 = pair_tail w then Unqueue_cas l i w else Wake_spin l i) s)"
| "do_wake t (Unqueue_cas l i old) s =
     (if q_word s l = old
      then go t (Unqueue_ref i) (set_word l (set_head old (pair_head old AND NOT 1)) s)
      else go t (Wake_spin l i) s)"
| "do_wake t (Unqueue_ref i) s = go t Outside (set_head_of i (\<lambda>h. h\<lparr>q_ref := No_lock\<rparr>) s)"
| "do_wake t (Wake_test i u) s = go t (if q_head_tkt (q_heads s i) \<noteq> -1 then Wake_clear i u else Hand_over u) s"
| "do_wake t (Wake_clear i u) s = go t (Hand_over u) (set_head_of i (\<lambda>h. h\<lparr>q_head_tkt := -1\<rparr>) s)"
| "do_wake t (Hand_over u) s = go t Outside (set_elem u (\<lambda>e. e\<lparr>q_cpu := -1\<rparr>) s)"
| "do_wake t p s = s"

section \<open>Moves\<close>

text \<open>
  The start: no lock has a queue, the heads are the zeroes of static memory, the locks are zero
  (\<open>TicketInit\<close>).
\<close>

definition q_start :: q_state where
  "q_start = \<lparr>q_word = (\<lambda>_. smp_store_release 0 0),
     q_heads = (\<lambda>_. \<lparr>q_ref = No_lock, q_head_tkt = 0, q_spin = None, q_spin_tail = Null_link\<rparr>),
     q_elem = (\<lambda>_. \<lparr>q_cpu = 0, q_tail = 0, q_next = None\<rparr>),
     q_at = (\<lambda>_. Outside)\<rparr>"

text \<open>A thread in \<open>tkt_q_do_wake\<close> has left the critical section, but not yet the release.\<close>

fun q_waking :: "q_place \<Rightarrow> bool" where
  "q_waking (Wake_find l i) = True"
| "q_waking (Wake_spin l i) = True"
| "q_waking (Unqueue_read l i) = True"
| "q_waking (Unqueue_cas l i w) = True"
| "q_waking (Unqueue_ref i) = True"
| "q_waking (Wake_test i u) = True"
| "q_waking (Wake_clear i u) = True"
| "q_waking (Hand_over u) = True"
| "q_waking p = False"

definition q_turn :: "nat \<Rightarrow> q_state \<Rightarrow> q_state" where
  "q_turn t s = (if q_waking (q_at s t) then do_wake t (q_at s t) s else acquire_turn t s)"

definition q_inside :: "q_state \<Rightarrow> nat \<Rightarrow> nat \<Rightarrow> bool" where
  "q_inside s l t \<longleftrightarrow> q_at s t = Inside l"

text \<open>The moves of threads over any locks: each calls what its place allows.\<close>

datatype q_move = Take nat nat | Turn nat | Leave nat

fun q_do :: "q_move \<Rightarrow> q_state \<Rightarrow> q_state option" where
  "q_do (Take l t) s = (if q_at s t = Outside then Some (QTicketAcquire l t s) else None)"
| "q_do (Turn t) s =
     (case q_at s t of Outside \<Rightarrow> None | Inside l \<Rightarrow> None | _ \<Rightarrow> Some (q_turn t s))"
| "q_do (Leave t) s = (case q_at s t of Inside l \<Rightarrow> Some (QTicketRelease t s) | _ \<Rightarrow> None)"

fun q_run :: "q_move list \<Rightarrow> q_state \<Rightarrow> q_state option" where
  "q_run [] s = Some s"
| "q_run (m # ms) s = (case q_do m s of None \<Rightarrow> None | Some s \<Rightarrow> q_run ms s)"

section \<open>Up to eight threads\<close>

text \<open>One lock behind the interface of \<open>Locks\<close>.\<close>

definition q_phase :: "q_state \<Rightarrow> nat \<Rightarrow> phase" where
  "q_phase s t =
     (case q_at s t of Outside \<Rightarrow> Out | Inside l \<Rightarrow> In | p \<Rightarrow> if q_waking p then In else Trying)"

definition qticket_impl :: "nat \<Rightarrow> q_state lock_impl" where
  "qticket_impl l = \<lparr>lk_init = q_start, lk_acquire = QTicketAcquire l, lk_spin = q_turn,
     lk_release = QTicketRelease, lk_phase = q_phase\<rparr>"

text \<open>
  The line of threads that a lock without queue stands for: the tickets go up in steps of two
  from the head, which is even.
\<close>

definition q_represents :: "nat \<Rightarrow> q_state \<Rightarrow> fifo \<Rightarrow> bool" where
  "q_represents l s a \<longleftrightarrow>
     distinct (line a) \<and> set (line a) \<subseteq> {..<8} \<and> (inside a \<longrightarrow> line a \<noteq> []) \<and>
     \<not> queued (pair_head (q_word s l)) \<and>
     pair_tail (q_word s l) = pair_head (q_word s l) + 2 * of_nat (length (line a)) \<and>
     (\<forall>t. t \<notin> set (line a) \<longrightarrow> q_at s t = Outside) \<and>
     (\<forall>i<length (line a). q_at s (line a ! i) =
        (if inside a \<and> i = 0 then Inside l else Loop l (pair_head (q_word s l) + 2 * of_nat i)))"

lemma queued_odd: "queued h \<longleftrightarrow> odd h"
  by (auto simp: queued_def and_one_eq odd_iff_mod_2_eq_one)

lemma unat_ticket:
  fixes h :: u16
  assumes "i \<le> 8"
  shows "unat (h + 2 * of_nat i) = (unat h + 2 * i) mod 65536"
proof -
  have "unat (2 * of_nat i :: u16) = 2 * i"
    using assms by (simp add: unat_word_ariths unsigned_of_nat take_bit_nat_def)
  then show ?thesis by (simp add: unat_word_ariths)
qed

lemma few_tickets:
  fixes h :: u16
  assumes "i < 8"
  shows "int (unat (h + 2 * of_nat i)) - int TKT_Q_SWITCH \<noteq> int (unat h)"
    and "h + 2 * of_nat i = h \<longleftrightarrow> i = 0"
proof -
  define n where "n = unat h"
  have n: "n < 65536" using unsigned_less [of h] by (simp add: n_def)
  have u: "unat (h + 2 * of_nat i) = (if n + 2 * i < 65536 then n + 2 * i else n + 2 * i - 65536)"
    using unat_ticket [of i h] assms n by (simp add: mod_if flip: n_def)
  show "int (unat (h + 2 * of_nat i)) - int TKT_Q_SWITCH \<noteq> int (unat h)"
    unfolding u TKT_Q_SWITCH_def n_def [symmetric] using n assms by (simp split: if_split)
  show "h + 2 * of_nat i = h \<longleftrightarrow> i = 0"
    unfolding word_unat_eq_iff u n_def [symmetric] using n assms by (simp split: if_split) arith
qed

text \<open>With fewer than eight in front, a thread enters or stays in the loop.\<close>

lemma spin_pass_few:
  assumes "i < 8" "\<not> queued h"
  shows "tkt_spin_pass l h (h + 2 * of_nat i) = (if i = 0 then Inside l else Loop l (h + 2 * of_nat i))"
  unfolding tkt_spin_pass_def word_xor_zero
  using few_tickets [OF assms(1), of h] assms(2) by (simp only: eq_commute [of h] if_False)

lemma q_representsD:
  assumes "q_represents l s a"
  shows "distinct (line a)" "set (line a) \<subseteq> {..<8}" "inside a \<longrightarrow> line a \<noteq> []"
    "\<not> queued (pair_head (q_word s l))"
    "pair_tail (q_word s l) = pair_head (q_word s l) + 2 * of_nat (length (line a))"
    "t \<notin> set (line a) \<Longrightarrow> q_at s t = Outside"
    "i < length (line a) \<Longrightarrow> q_at s (line a ! i) =
      (if inside a \<and> i = 0 then Inside l else Loop l (pair_head (q_word s l) + 2 * of_nat i))"
  using assms unfolding q_represents_def by blast+

lemma few_in_line:
  assumes "distinct xs" "set xs \<subseteq> {..<8 :: nat}"
  shows "length xs \<le> 8"
  using card_mono [OF _ assms(2)] distinct_card [OF assms(1)] by simp

lemma q_phase_line:
  assumes "q_represents l s a"
  shows "q_phase s = fifo_phase a"
proof
  note D = q_representsD [OF assms]
  fix t
  show "q_phase s t = fifo_phase a t"
  proof (cases "t \<in> set (line a)")
    case False
    with D(6) show ?thesis by (simp add: q_phase_def fifo_phase_def)
  next
    case True
    then obtain i where i: "i < length (line a)" "t = line a ! i" by (auto simp: in_set_conv_nth)
    then have "t = hd (line a) \<longleftrightarrow> i = 0"
      using D(1) by (cases "line a") (auto simp: nth_eq_iff_index_eq nth_Cons')
    with True D(7) [OF i(1)] i(2) show ?thesis by (simp add: q_phase_def fifo_phase_def)
  qed
qed

lemma q_represents_init: "q_represents l q_start (lk_init fifo_impl)"
proof -
  have "pair_tail 0 = 0" "pair_head 0 = 0" by (simp_all add: pair_tail_def pair_head_def)
  then show ?thesis
    by (simp add: q_represents_def q_start_def smp_store_release_def fifo_impl_def queued_def)
qed

lemma q_represents_acquire:
  assumes r: "q_represents l s a" and t: "t < 8" "q_phase s t = Out"
  shows "q_represents l (QTicketAcquire l t s) (lk_acquire fifo_impl t a)"
proof -
  note D = q_representsD [OF r]
  have out: "t \<notin> set (line a)"
    using t q_phase_line [OF r] by (auto simp: fifo_phase_def split: if_splits)
  then have d: "distinct (line a @ [t])" "set (line a @ [t]) \<subseteq> {..<8}"
    using D t by auto
  then have len: "length (line a) < 8" using few_in_line [OF d] by simp
  let ?h = "pair_head (q_word s l)"
  let ?p = "if length (line a) = 0 then Inside l else Loop l (?h + 2 * of_nat (length (line a)))"
  have eq: "QTicketAcquire l t s = go t ?p (set_word l (q_word s l + raw_tickets 0 2) s)"
    using spin_pass_few [OF len D(4)] D(5) by (simp add: QTicketAcquire_def atomic_exchange_and_add_def)
  show ?thesis
  proof (cases "line a = []")
    case True
    with D t show ?thesis
      unfolding eq by (simp add: q_represents_def fifo_impl_def fifo_enter_def go_def set_word_def)
  next
    case False
    with out have "t \<noteq> hd (line a)" by auto
    moreover have "line a ! i \<noteq> t" if "i < length (line a)" for i using out that by auto
    ultimately show ?thesis
      using False d D
      unfolding eq by (auto simp: q_represents_def fifo_impl_def fifo_enter_def go_def set_word_def
          nth_append less_Suc_eq algebra_simps)
  qed
qed

lemma q_represents_spin:
  assumes r: "q_represents l s a" and t: "q_phase s t = Trying"
  shows "q_represents l (q_turn t s) (lk_spin fifo_impl t a)"
proof -
  note D = q_representsD [OF r]
  have "t \<in> set (line a)" "\<not> (inside a \<and> t = hd (line a))"
    using t q_phase_line [OF r] by (auto simp: fifo_phase_def split: if_splits)
  then obtain i where i: "i < length (line a)" "t = line a ! i" by (auto simp: in_set_conv_nth)
  have hd: "t = hd (line a) \<longleftrightarrow> i = 0"
    using i D(1) by (cases "line a") (auto simp: nth_eq_iff_index_eq nth_Cons')
  let ?h = "pair_head (q_word s l)"
  have at: "q_at s t = Loop l (?h + 2 * of_nat i)"
    using D(7) [OF i(1)] hd \<open>\<not> (inside a \<and> t = hd (line a))\<close> i(2) by auto
  have i8: "i < 8" using few_in_line [OF D(1,2)] i(1) by simp
  have eq: "q_turn t s = go t (if i = 0 then Inside l else Loop l (?h + 2 * of_nat i)) s"
    by (simp add: q_turn_def acquire_turn_def at spin_pass_few [OF i8 D(4)])
  show ?thesis
  proof (cases "i = 0")
    case True
    have "line a ! j = t \<longleftrightarrow> j = 0" if "j < length (line a)" for j
      using that i True D(1) by (simp add: nth_eq_iff_index_eq)
    with True D i hd show ?thesis
      unfolding eq by (auto simp: q_represents_def fifo_impl_def fifo_enter_def go_def)
  next
    case False
    then have "q_turn t s = s" unfolding eq by (simp add: go_def at [symmetric])
    with False hd r show ?thesis by (simp add: fifo_impl_def fifo_enter_def)
  qed
qed

lemma q_represents_release:
  assumes r: "q_represents l s a" and t: "q_phase s t = In"
  shows "q_represents l (QTicketRelease t s) (lk_release fifo_impl t a)"
proof -
  note D = q_representsD [OF r]
  from t q_phase_line [OF r] have a: "t \<in> set (line a)" "inside a" "t = hd (line a)"
    by (auto simp: fifo_phase_def split: if_splits)
  then obtain ts where ts: "line a = t # ts" by (cases "line a") auto
  let ?h = "pair_head (q_word s l)"
  have at: "q_at s t = Inside l" using D(7) [of 0] a(2) ts by simp
  have nth: "q_at s (ts ! i) = Loop l (?h + (2 + 2 * of_nat i))" "ts ! i \<noteq> t" if "i < length ts" for i
    using D(7) [of "Suc i"] D(1) that unfolding ts by (auto simp: algebra_simps)
  have eq: "QTicketRelease t s = go t Outside (set_word l (set_head (q_word s l) (?h + 2)) s)"
    using D(4) by (simp add: QTicketRelease_def at atomic_exchange_and_add_def)
  have "\<not> queued (?h + 2)" using D(4) by (simp add: queued_odd)
  then show ?thesis
    using D nth ts unfolding eq
    by (auto simp: q_represents_def fifo_impl_def go_def set_word_def algebra_simps)
qed

interpretation qt: fair_lock "qticket_impl l" "{..<8}" "q_represents l" for l :: nat
proof (unfold_locales, goal_cases)
  case (5 s a)
  then show ?case using q_representsD(1-3) [OF 5] by simp
next
  case (6 s a)
  then show ?case using q_phase_line by (simp add: qticket_impl_def)
qed (auto simp: qticket_impl_def intro: q_represents_init q_represents_acquire q_represents_spin
    q_represents_release)

section \<open>Properties\<close>

text \<open>
  C4: with at most eight threads the queued lock never takes a queue and is the fair lock of
  \<open>Locks\<close>: its runs are runs of the line of threads, so the threads enter one at a time in the
  order of their tickets, across the wrap of the tickets; the bit of the head stays clear.
\<close>

theorem qticket_few_is_fair:
  assumes "lock_run (qticket_impl l) evs q_start = Some s"
    and "\<forall>ev\<in>set evs. event_thread ev < 8"
  shows "\<exists>a. lock_run fifo_impl evs (lk_init fifo_impl) = Some a \<and> q_phase s = fifo_phase a \<and>
      \<not> queued (pair_head (q_word s l)) \<and>
      pair_tail (q_word s l) = pair_head (q_word s l) + 2 * of_nat (length (line a)) \<and>
      (\<forall>t. q_inside s l t \<longrightarrow> line a \<noteq> [] \<and> t = hd (line a))"
proof -
  from qt.run_on_line [OF q_represents_init _ assms(1)] assms(2) obtain a where
    a: "lock_run fifo_impl evs (lk_init fifo_impl) = Some a" "q_represents l s a" by auto
  have "line a \<noteq> [] \<and> t = hd (line a)" if "q_inside s l t" for t
    using that qt.first_inside [OF a(2), of t] by (simp add: q_inside_def q_phase_def qticket_impl_def)
  then show ?thesis
    using a q_phase_line [OF a(2)] q_representsD(4,5) [OF a(2)] by (intro exI [of _ a]) simp
qed

text \<open>Threads 7, 3 and 5 come in this order; 3 enters after 7.\<close>

lemma qticket_few_is_fair_witness:
  "\<exists>s a. lock_run (qticket_impl 256) [Acquire 7, Acquire 3, Acquire 5, Spin 5, Release 7, Spin 5, Spin 3]
      q_start = Some s \<and> q_phase s = fifo_phase a \<and> line a = [3, 5] \<and> q_phase s 3 = In"
proof -
  let ?evs = "[Acquire 7, Acquire 3, Acquire 5, Spin 5, Release 7, Spin 5, Spin 3]"
  have "lock_run fifo_impl ?evs (lk_init fifo_impl) = Some \<lparr>line = [3, 5], inside = True\<rparr>"
    by (simp add: fifo_impl_def fifo_phase_def fifo_enter_def)
  moreover have "case lock_run (qticket_impl 256) ?evs q_start of None \<Rightarrow> False | Some s \<Rightarrow> True"
    by code_simp
  then obtain s where s: "lock_run (qticket_impl 256) ?evs q_start = Some s"
    by (auto split: option.splits)
  moreover have "\<forall>ev\<in>set ?evs. event_thread ev < 8" by simp
  ultimately have p: "q_phase s = fifo_phase \<lparr>line = [3, 5], inside = True\<rparr>"
    using qticket_few_is_fair [OF s] by auto
  then have "q_phase s 3 = In" by (simp add: fifo_phase_def)
  with s p show ?thesis by (intro exI conjI) (assumption | simp)+
qed

text \<open>
  \<open>testQTicketLock\<close> with at most eight threads loses no addition, in whatever order the
  threads are interleaved, and can always run to its end. Every element has its own lock, which
  keeps to itself as long as there are no queues.
\<close>

theorem qticket_test_passes:
  assumes perm: "\<forall>t<n. \<forall>k. perm t k < m" and n: "n \<le> 8"
    and s: "test_reaches (qticket_impl l) (test_start (qticket_impl l) m iters n perm) s"
  shows "(finished s \<longrightarrow> test_result m s = 0) \<and>
    (\<exists>s'. test_reaches (qticket_impl l) s s' \<and> finished s')"
proof -
  have T: "{..<n} \<subseteq> {..<8}" using n by auto
  show ?thesis
    using qt.test_passes [OF T perm s] qt.reaches_inv_total [OF s qt.start_inv [OF perm] T]
      qt.test_finishes [OF T _ test_refl] by blast
qed

lemma qticket_test_passes_witness:
  "\<exists>s. test_reaches (qticket_impl 256) (test_start (qticket_impl 256) 2 1 2 (\<lambda>t k. k mod 2)) s \<and> finished s \<and>
    test_result 2 s = 0"
proof -
  let ?s = "test_start (qticket_impl 256) 2 1 2 (\<lambda>t k. k mod 2)"
  obtain s where s: "test_reaches (qticket_impl 256) ?s s" "finished s"
    using qticket_test_passes [OF _ _ test_refl, of 2 "\<lambda>t k. k mod 2" 2] by auto
  with qticket_test_passes [OF _ _ s(1)] show ?thesis by auto
qed

end
