(* ===== verification/CStrings.thy ===== *)
theory CStrings
  imports Prelude
begin

text \<open>
  The functions of the C library on numbers in strings that the programs of the repository
  use, as the C standard has them: reading (\<open>strtol\<close>, \<open>strtoul\<close>, base 10) and writing
  (\<open>%u\<close>). A string is the list of its characters before the terminating null.
\<close>

section \<open>Reading\<close>

definition isspace :: "char \<Rightarrow> bool" where
  "isspace c \<longleftrightarrow> c \<in> {CHR '' '', CHR 0x09, CHR 0x0A, CHR 0x0B, CHR 0x0C, CHR 0x0D}"

definition isdigit :: "char \<Rightarrow> bool" where
  "isdigit c \<longleftrightarrow> 48 \<le> (of_char c :: nat) \<and> (of_char c :: nat) \<le> 57"

text \<open>
  \<open>strtol\<close>: white space, a sign, the longest run of digits, and saturation at the bounds of
  \<open>long\<close>.
\<close>

fun digits :: "string \<Rightarrow> int \<Rightarrow> int" where
  "digits [] acc = acc"
| "digits (c # cs) acc = (if isdigit c then digits cs (10 * acc + (of_char c - 48)) else acc)"

definition signed_digits :: "string \<Rightarrow> int" where
  "signed_digits s =
     (case s of
        [] \<Rightarrow> 0
      | c # cs \<Rightarrow> if c = CHR ''-'' then - digits cs 0 else if c = CHR ''+'' then digits cs 0
                  else digits s 0)"

definition strtol10 :: "string \<Rightarrow> int" where
  "strtol10 s = max (- (2 ^ 63)) (min (2 ^ 63 - 1) (signed_digits (dropWhile isspace s)))"

text \<open>\<open>atoi\<close>: the low half of it as an \<open>int\<close>.\<close>

definition atoi_int :: "string \<Rightarrow> int" where
  "atoi_int s = sint (of_int (strtol10 s) :: u32)"

text \<open>
  \<open>strtoul\<close> with the rest of the string behind the number. Without a digit the rest is the
  whole string; a number after a minus sign is negated as an \<open>unsigned long\<close>.
\<close>

definition sign_of :: "string \<Rightarrow> bool \<times> string" where
  "sign_of s =
     (case s of
        [] \<Rightarrow> (False, [])
      | c # cs \<Rightarrow> if c = CHR ''-'' then (True, cs) else if c = CHR ''+'' then (False, cs) else (False, s))"

definition digits_value :: "string \<Rightarrow> nat" where
  "digits_value ds = foldl (\<lambda>n c. 10 * n + (of_char c - 48)) 0 ds"

definition strtoul :: "string \<Rightarrow> nat \<times> string" where
  "strtoul s =
     (case sign_of (dropWhile isspace s) of (neg, t) \<Rightarrow>
        let ds = takeWhile isdigit t; v = digits_value ds
        in if ds = [] then (0, s)
           else (if 2 ^ 64 \<le> v then 2 ^ 64 - 1 else if neg then (2 ^ 64 - v) mod 2 ^ 64 else v,
                 dropWhile isdigit t))"

section \<open>Writing\<close>

definition digit_char :: "nat \<Rightarrow> char" where
  "digit_char d = char_of (48 + d)"

fun show_u :: "nat \<Rightarrow> string" where
  "show_u n = (if n < 10 then [digit_char n] else show_u (n div 10) @ [digit_char (n mod 10)])"

declare show_u.simps [simp del]

section \<open>Reading back what was written\<close>

lemma digit_char [simp]:
  assumes "d < 10"
  shows "isdigit (digit_char d)" "of_char (digit_char d) = 48 + d" "\<not> isspace (digit_char d)"
    "digit_char d \<noteq> CHR ''-''" "digit_char d \<noteq> CHR ''+''"
proof -
  have e: "of_char (digit_char d) = 48 + d" using assms by (simp add: digit_char_def)
  then show "of_char (digit_char d) = 48 + d" .
  have ne: "digit_char d \<noteq> c" if "of_char c < (48 :: nat)" for c
  proof
    assume "digit_char d = c"
    with e that show False by simp
  qed
  show "isdigit (digit_char d)" using assms by (simp add: isdigit_def e)
  show "\<not> isspace (digit_char d)" by (simp add: isspace_def ne)
  show "digit_char d \<noteq> CHR ''-''" "digit_char d \<noteq> CHR ''+''" by (rule ne; simp)+
qed

lemma show_u_digits: "c \<in> set (show_u n) \<Longrightarrow> isdigit c"
proof (induction n rule: show_u.induct)
  case (1 n)
  then show ?case by (subst (asm) (2) show_u.simps) (auto split: if_splits)
qed

lemma digits_value_snoc: "digits_value (ds @ [c]) = 10 * digits_value ds + (of_char c - 48)"
  by (simp add: digits_value_def)

lemma digits_value_show_u: "digits_value (show_u n) = n"
proof (induction n rule: show_u.induct)
  case (1 n)
  show ?case
  proof (cases "n < 10")
    case True
    then show ?thesis by (simp add: show_u.simps [of n]) (simp add: digits_value_def)
  next
    case False
    with 1 have "digits_value (show_u (n div 10)) = n div 10" by simp
    then show ?thesis using False by (simp add: show_u.simps [of n] digits_value_snoc)
  qed
qed

lemma show_u_hd: "\<exists>d cs. d < 10 \<and> show_u n = digit_char d # cs"
proof (induction n rule: show_u.induct)
  case (1 n)
  show ?case
  proof (cases "n < 10")
    case True
    then show ?thesis by (auto simp: show_u.simps [of n])
  next
    case False
    with 1 obtain d cs where "d < 10" "show_u (n div 10) = digit_char d # cs" by auto
    then show ?thesis using False by (auto simp: show_u.simps [of n])
  qed
qed

lemma show_u_length: "n < 10 ^ k \<Longrightarrow> 0 < k \<Longrightarrow> length (show_u n) \<le> k"
proof (induction n arbitrary: k rule: show_u.induct)
  case (1 n)
  show ?case
  proof (cases "n < 10")
    case True
    then show ?thesis using 1(3) by (simp add: show_u.simps [of n])
  next
    case False
    with 1(2,3) obtain j where j: "k = Suc j" "0 < j" by (cases k; cases "k = 1") auto
    then have "n div 10 < 10 ^ j" using 1(2) by (simp add: less_mult_imp_div_less mult.commute)
    from 1(1) [OF False this j(2)] show ?thesis using False by (simp add: show_u.simps [of n] j(1))
  qed
qed

theorem strtoul_show_u:
  assumes "n < 2 ^ 64" and rest: "rest = [] \<or> \<not> isdigit (hd rest)"
  shows "strtoul (show_u n @ rest) = (n, rest)"
proof -
  obtain d cs where d: "d < 10" "show_u n = digit_char d # cs" using show_u_hd by blast
  have sp: "dropWhile isspace (show_u n @ rest) = show_u n @ rest" using d by simp
  have sg: "sign_of (show_u n @ rest) = (False, show_u n @ rest)" using d by (simp add: sign_of_def)
  have tw: "takeWhile isdigit (show_u n @ rest) = show_u n" and dw: "dropWhile isdigit (show_u n @ rest) = rest"
    using show_u_digits [of _ n] rest
    by (auto simp: takeWhile_append dropWhile_append; cases rest; auto)+
  have "show_u n \<noteq> []" using d(2) by simp
  then show ?thesis using assms(1)
    unfolding strtoul_def sp sg prod.case Let_def tw dw digits_value_show_u by simp
qed

lemma strtoul_length: "strtoul s = (n, r) \<Longrightarrow> length r \<le> length s"
proof -
  assume s: "strtoul s = (n, r)"
  have "length (snd (sign_of t)) \<le> length t" for t by (cases t) (simp_all add: sign_of_def)
  from le_trans [OF this length_dropWhile_le] have "length (snd (sign_of (dropWhile isspace s))) \<le> length s" .
  from le_trans [OF length_dropWhile_le this] s show ?thesis
    by (auto simp: strtoul_def Let_def split: prod.splits if_splits)
qed

end
