(* ===== verification/AtomicTest.thy ===== *)
theory AtomicTest
  imports QTicket CStrings
begin

text \<open>
  The rest of \<open>lock_test/lock_test.c\<close>: the tests of the bare atomic operations (the same
  \<open>test.c\<close> as for the locks, with additions that need no lock), the options and the exit code
  of the program. One step of a thread is one access to an element.
\<close>

section \<open>The additions\<close>

text \<open>\<open>testAtomicIncr\<close>, \<open>testFetchAndAdd\<close> and \<open>testCompAndSwap\<close>.\<close>

datatype adder = Incr | Fetch_add | Comp_swap

text \<open>\<open>tmp0\<close> is the local of the loop of \<open>testCompAndSwap\<close>, once it has been read.\<close>

record atomic_test =
  at_val :: "nat \<Rightarrow> u32"
  at_todo :: "nat \<Rightarrow> (nat \<times> u32) list"
  tmp0 :: "nat \<Rightarrow> u32 option"

text \<open>A thread stores into an element and goes on to its next addition.\<close>

definition added :: "nat \<Rightarrow> nat \<Rightarrow> u32 \<Rightarrow> (nat \<times> u32) list \<Rightarrow> atomic_test \<Rightarrow> atomic_test" where
  "added t e w rest s =
     s\<lparr>at_val := (at_val s)(e := w), at_todo := (at_todo s)(t := rest), tmp0 := (tmp0 s)(t := None)\<rparr>"

definition cas_step :: "nat \<Rightarrow> nat \<Rightarrow> u32 \<Rightarrow> (nat \<times> u32) list \<Rightarrow> atomic_test \<Rightarrow> atomic_test" where
  "cas_step t e i rest s =
     (case tmp0 s t of
        None \<Rightarrow> s\<lparr>tmp0 := (tmp0 s)(t := Some (at_val s e))\<rparr>
      | Some x \<Rightarrow>
          (case atomic_compare_and_exchange (at_val s e) x (x + i) of (tmp1, w) \<Rightarrow>
             if tmp1 \<noteq> x then s\<lparr>at_val := (at_val s)(e := w), tmp0 := (tmp0 s)(t := Some tmp1)\<rparr>
             else added t e w rest s))"

definition atomic_step :: "adder \<Rightarrow> nat \<Rightarrow> atomic_test \<Rightarrow> atomic_test option" where
  "atomic_step k t s =
     (case at_todo s t of
        [] \<Rightarrow> None
      | (e, i) # rest \<Rightarrow> Some
          (case k of
             Incr \<Rightarrow> added t e (if i = 1 then atomic_increment (at_val s e) else atomic_decrement (at_val s e)) rest s
           | Fetch_add \<Rightarrow> added t e (snd (atomic_exchange_and_add (at_val s e) i)) rest s
           | Comp_swap \<Rightarrow> cas_step t e i rest s))"

inductive atomic_reaches :: "adder \<Rightarrow> atomic_test \<Rightarrow> atomic_test \<Rightarrow> bool" for k s where
  atomic_refl: "atomic_reaches k s s"
| atomic_more: "atomic_reaches k s u \<Longrightarrow> atomic_step k t u = Some v \<Longrightarrow> atomic_reaches k s v"

definition atomic_start :: "nat \<Rightarrow> nat \<Rightarrow> nat \<Rightarrow> (nat \<Rightarrow> nat \<Rightarrow> nat) \<Rightarrow> atomic_test" where
  "atomic_start nmbrElems nIter nThreads perm =
     \<lparr>at_val = (\<lambda>_. 0), at_todo = (\<lambda>t. if t < nThreads then thread_work nmbrElems nIter (perm t) else []),
      tmp0 = (\<lambda>_. None)\<rparr>"

definition atomic_finished :: "atomic_test \<Rightarrow> bool" where
  "atomic_finished s \<longleftrightarrow> (\<forall>t. at_todo s t = [])"

definition atomic_result :: "nat \<Rightarrow> atomic_test \<Rightarrow> int" where
  "atomic_result nmbrElems s = (if sum_list (map (at_val s) [0..<nmbrElems]) \<noteq> 0 then 1 else 0)"

section \<open>The program\<close>

text \<open>
  The options as \<open>getopt\<close> hands them out, with their arguments: the exit code of \<open>usage\<close>, or the
  numbers of elements and of iterations.
\<close>

fun lock_test_options :: "(char \<times> string) list \<Rightarrow> int \<times> int \<Rightarrow> int + int \<times> int" where
  "lock_test_options [] ns = Inr ns"
| "lock_test_options ((c, arg) # os) (nmbrElems, nIter) =
     (if c = CHR ''h'' then Inl 0
      else if c = CHR ''l'' then lock_test_options os (atoi_int arg, nIter)
      else if c = CHR ''i'' then lock_test_options os (nmbrElems, atoi_int arg)
      else Inl 1)"

definition lock_test_defaults :: "int \<times> int" where
  "lock_test_defaults = (1024, 1000 * 1000)"

text \<open>The exit code from the results of the five tests.\<close>

definition lock_test_status :: "int list \<Rightarrow> int" where
  "lock_test_status results = foldl (OR) 0 results"

section \<open>The sum\<close>

definition at_pending :: "atomic_test \<Rightarrow> nat \<Rightarrow> u32" where
  "at_pending s t = sum_list (map snd (at_todo s t))"

definition at_total :: "nat \<Rightarrow> nat \<Rightarrow> atomic_test \<Rightarrow> u32" where
  "at_total m n s = (\<Sum>e<m. at_val s e) + (\<Sum>t<n. at_pending s t)"

definition atomic_inv :: "nat \<Rightarrow> nat \<Rightarrow> atomic_test \<Rightarrow> bool" where
  "atomic_inv m n s \<longleftrightarrow> (\<forall>t. n \<le> t \<longrightarrow> at_todo s t = []) \<and>
     (\<forall>t. \<forall>w\<in>set (at_todo s t). fst w < m \<and> (snd w = 1 \<or> snd w = - 1))"

lemma added_total:
  assumes inv: "atomic_inv m n s" and td: "at_todo s t = (e, i) # rest" and w: "w = at_val s e + i"
  shows "atomic_inv m n (added t e w rest s) \<and> at_total m n (added t e w rest s) = at_total m n s"
proof
  have e: "e < m" using inv td unfolding atomic_inv_def by (metis fst_conv list.set_intros(1))
  have t: "t < n" using inv td unfolding atomic_inv_def by (metis list.distinct(1) not_le)
  show "atomic_inv m n (added t e w rest s)"
    using inv td t unfolding atomic_inv_def added_def by (simp add: not_le) (metis list.set_intros(2))
  have "(\<Sum>d<m. at_val (added t e w rest s) d) = (\<Sum>d<m. at_val s d) - at_val s e + w"
    by (subst sum_change [OF e, of _ "at_val s"]) (simp_all add: added_def)
  moreover have "(\<Sum>u<n. at_pending (added t e w rest s) u) =
      (\<Sum>u<n. at_pending s u) - at_pending s t + sum_list (map snd rest)"
    by (subst sum_change [OF t, of _ "at_pending s"]) (simp_all add: added_def at_pending_def)
  moreover have "at_pending s t = i + sum_list (map snd rest)" by (simp add: at_pending_def td)
  ultimately show "at_total m n (added t e w rest s) = at_total m n s"
    by (simp add: at_total_def w algebra_simps)
qed

lemma atomic_step_total:
  assumes inv: "atomic_inv m n s" and st: "atomic_step k t s = Some s'"
  shows "atomic_inv m n s' \<and> at_total m n s' = at_total m n s"
proof -
  from st obtain e i rest where td: "at_todo s t = (e, i) # rest"
    by (auto simp: atomic_step_def split: list.splits)
  have i: "i = 1 \<or> i = - 1" using inv td unfolding atomic_inv_def by (metis list.set_intros(1) snd_conv)
  have same: "atomic_inv m n u \<and> at_total m n u = at_total m n s"
    if "at_val u = at_val s" "at_todo u = at_todo s" for u
    using inv that by (simp add: atomic_inv_def at_total_def at_pending_def)
  have add: "atomic_inv m n (added t e (at_val s e + i) rest s) \<and>
      at_total m n (added t e (at_val s e + i) rest s) = at_total m n s"
    by (rule added_total [OF inv td refl])
  have cas: "atomic_inv m n (cas_step t e i rest s) \<and> at_total m n (cas_step t e i rest s) = at_total m n s"
  proof (cases "tmp0 s t")
    case None
    then show ?thesis by (auto simp: cas_step_def intro!: same)
  next
    case (Some x)
    with add show ?thesis
      by (cases "x = at_val s e") (auto simp: cas_step_def atomic_compare_and_exchange_def intro!: same)
  qed
  have s': "s' = (case k of
      Incr \<Rightarrow> added t e (if i = 1 then atomic_increment (at_val s e) else atomic_decrement (at_val s e)) rest s
    | Fetch_add \<Rightarrow> added t e (snd (atomic_exchange_and_add (at_val s e) i)) rest s
    | Comp_swap \<Rightarrow> cas_step t e i rest s)"
    using st by (simp add: atomic_step_def td)
  show ?thesis
  proof (cases k)
    case Incr
    then have "s' = added t e (at_val s e + i) rest s"
      using i unfolding s' by (auto simp: atomic_increment_def atomic_decrement_def)
    with add show ?thesis by simp
  next
    case Fetch_add
    then have "s' = added t e (at_val s e + i) rest s" unfolding s' by (simp add: atomic_exchange_and_add_def)
    with add show ?thesis by simp
  next
    case Comp_swap
    with cas show ?thesis unfolding s' by simp
  qed
qed

lemma atomic_reaches_total:
  "atomic_reaches k s u \<Longrightarrow> atomic_inv m n s \<Longrightarrow> atomic_inv m n u \<and> at_total m n u = at_total m n s"
  by (induction rule: atomic_reaches.induct) (auto dest: atomic_step_total)

text \<open>A thread alone makes its next addition in three steps at most.\<close>

lemma atomic_reaches_trans: "atomic_reaches k u v \<Longrightarrow> atomic_reaches k s u \<Longrightarrow> atomic_reaches k s v"
  by (induction rule: atomic_reaches.induct) (auto intro: atomic_more)

lemma one_addition:
  assumes td: "at_todo s t = (e, i) # rest"
  obtains s' where "atomic_reaches k s s'" "at_todo s' = (at_todo s)(t := rest)"
proof (cases k)
  case Comp_swap
  have fin: "\<exists>s'. atomic_reaches k u s' \<and> at_todo s' = (at_todo s)(t := rest)"
    if "at_todo u = at_todo s" "tmp0 u t = Some (at_val u e)" for u
    using that td Comp_swap
    by (intro exI [of _ "added t e (at_val u e + i) rest u"] conjI atomic_more [OF atomic_refl, of _ t])
      (simp_all add: atomic_step_def cas_step_def atomic_compare_and_exchange_def added_def)
  let ?u = "cas_step t e i rest s"
  have r: "atomic_reaches k s ?u"
    using td Comp_swap by (intro atomic_more [OF atomic_refl, of _ t]) (simp add: atomic_step_def)
  have "\<exists>s'. atomic_reaches k s s' \<and> at_todo s' = (at_todo s)(t := rest)"
  proof (cases "tmp0 s t = Some (at_val s e)")
    case True
    then show ?thesis using fin [of s] by simp
  next
    case False
    then have "at_todo ?u = at_todo s" "tmp0 ?u t = Some (at_val ?u e)"
      by (auto simp: cas_step_def atomic_compare_and_exchange_def split: option.split)
    from fin [OF this] atomic_reaches_trans [OF _ r] show ?thesis by blast
  qed
  with that show ?thesis by blast
next
  case Incr
  let ?v = "if i = 1 then atomic_increment (at_val s e) else atomic_decrement (at_val s e)"
  have "atomic_step k t s = Some (added t e ?v rest s)" using td Incr by (simp add: atomic_step_def)
  from that [OF atomic_more [OF atomic_refl this]] show ?thesis by (simp add: added_def)
next
  case Fetch_add
  let ?v = "snd (atomic_exchange_and_add (at_val s e) i)"
  have "atomic_step k t s = Some (added t e ?v rest s)" using td Fetch_add by (simp add: atomic_step_def)
  from that [OF atomic_more [OF atomic_refl this]] show ?thesis by (simp add: added_def)
qed

lemma atomic_finishes:
  "atomic_reaches k s0 s \<Longrightarrow> (\<And>t. n \<le> t \<Longrightarrow> at_todo s t = []) \<Longrightarrow> \<exists>s'. atomic_reaches k s0 s' \<and> atomic_finished s'"
proof (induction "\<Sum>t<n. length (at_todo s t)" arbitrary: s rule: less_induct)
  case less
  show ?case
  proof (cases "atomic_finished s")
    case False
    then obtain t e i rest where td: "at_todo s t = (e, i) # rest"
      by (auto simp: atomic_finished_def neq_Nil_conv)
    with less.prems(2) [of t] have t: "t < n" by (cases "n \<le> t") auto
    from one_addition [OF td, of k] obtain s' where s': "atomic_reaches k s s'" "at_todo s' = (at_todo s)(t := rest)" .
    have "(\<Sum>u<n. length (at_todo s' u)) < (\<Sum>u<n. length (at_todo s u))"
      by (rule sum_decreases [OF t]) (simp_all add: s'(2) td)
    moreover have "atomic_reaches k s0 s'" using atomic_reaches_trans [OF s'(1) less.prems(1)] .
    moreover have "at_todo s' u = []" if "n \<le> u" for u using less.prems(2) [OF that] that t by (simp add: s'(2))
    ultimately show ?thesis by (rule less.hyps)
  qed (use less.prems(1) in blast)
qed

section \<open>Properties\<close>

lemma thread_work_bounds:
  assumes "w \<in> set (thread_work m k perm)" "\<forall>j. perm j < m"
  shows "fst w < m \<and> (snd w = 1 \<or> snd w = - 1)"
  using assms by (auto simp: thread_work_def)

lemma atomic_start_inv:
  assumes "\<forall>t<n. \<forall>j. perm t j < m"
  shows "atomic_inv m n (atomic_start m iters n perm)"
proof -
  have "fst w < m \<and> (snd w = 1 \<or> snd w = - 1)" if "w \<in> set (at_todo (atomic_start m iters n perm) t)" for t w
  proof (cases "t < n")
    case True
    with that thread_work_bounds [of w m iters "perm t"] assms show ?thesis by (simp add: atomic_start_def)
  qed (use that in \<open>simp add: atomic_start_def\<close>)
  then show ?thesis by (simp add: atomic_inv_def atomic_start_def)
qed

lemma atomic_end:
  assumes perm: "\<forall>t<n. \<forall>j. perm t j < m" and s: "atomic_reaches k (atomic_start m iters n perm) s"
  shows "\<exists>s'. atomic_reaches k s s' \<and> atomic_finished s'"
  by (rule atomic_finishes [OF atomic_refl, where n = n])
    (use atomic_reaches_total [OF s atomic_start_inv [OF perm]] in \<open>simp add: atomic_inv_def\<close>)

lemma atomic_sum:
  assumes perm: "\<forall>t<n. \<forall>j. perm t j < m" and s: "atomic_reaches k (atomic_start m iters n perm) s"
    and f: "atomic_finished s"
  shows "atomic_result m s = 0"
proof -
  have "at_pending (atomic_start m iters n perm) t = 0" for t
    by (simp add: at_pending_def atomic_start_def thread_work_def map_concat o_def sum_list_concat_zero)
  then have "at_total m n (atomic_start m iters n perm) = 0"
    by (simp add: at_total_def atomic_start_def)
  moreover have "at_total m n s = sum_list (map (at_val s) [0..<m])"
    using f by (simp add: at_total_def at_pending_def atomic_finished_def
        interv_sum_list_conv_sum_set_nat atLeast0LessThan)
  ultimately show ?thesis
    using atomic_reaches_total [OF s atomic_start_inv [OF perm]] by (simp add: atomic_result_def)
qed

text \<open>
  C29: the tests of the bare atomic operations return 0 in every interleaving of any number of
  threads, although no lock is held, and from every state they reach all threads can run to
  their end (no thread depends on a step of another one).
\<close>

theorem atomic_tests_pass:
  assumes perm: "\<forall>t<n. \<forall>j. perm t j < m" and s: "atomic_reaches k (atomic_start m iters n perm) s"
  shows "(atomic_finished s \<longrightarrow> atomic_result m s = 0) \<and>
    (\<exists>s'. atomic_reaches k s s' \<and> atomic_finished s')"
  using atomic_sum [OF perm s] atomic_end [OF perm s] by blast

lemma atomic_tests_pass_witness:
  "\<exists>s. atomic_reaches Comp_swap (atomic_start 2 1 2 (\<lambda>t j. j mod 2)) s \<and> atomic_finished s \<and>
    atomic_result 2 s = 0"
proof -
  have perm: "\<forall>t<2. \<forall>j. j mod 2 < (2 :: nat)" by simp
  from atomic_tests_pass [OF perm atomic_refl, where k = Comp_swap and iters = 1] obtain s where
    s: "atomic_reaches Comp_swap (atomic_start 2 1 2 (\<lambda>t j. j mod 2)) s" "atomic_finished s" by blast
  with atomic_tests_pass [OF perm s(1)] show ?thesis by blast
qed

text \<open>
  The program \<open>lock_test\<close> returns 0 with up to eight threads: when the threads of the five
  tests have finished, in whatever order they ran, none has lost an addition.
\<close>

theorem lock_test_returns_0:
  assumes perm: "\<forall>t<n. \<forall>j. perm t j < m" and n: "n \<le> 8"
    and a: "test_reaches spin_impl (test_start spin_impl m iters n perm) a" "finished a"
    and b: "test_reaches ticket_impl (test_start ticket_impl m iters n perm) b" "finished b"
    and c: "test_reaches (qticket_impl l) (test_start (qticket_impl l) m iters n perm) c" "finished c"
    and d: "atomic_reaches Fetch_add (atomic_start m iters n perm) d" "atomic_finished d"
    and e: "atomic_reaches Comp_swap (atomic_start m iters n perm) e" "atomic_finished e"
  shows "lock_test_status [test_result m a, test_result m b, test_result m c, atomic_result m d, atomic_result m e] = 0"
proof -
  have T: "{..<n} \<subseteq> {..<65536}" "{..<n} \<subseteq> {..<8}" using n by auto
  have "test_result m a = 0" "test_result m b = 0" "test_result m c = 0"
    using spin.test_passes [OF _ perm a, of UNIV] ticket.test_passes [OF T(1) perm b]
      qt.test_passes [OF T(2) perm c] by simp_all
  moreover have "atomic_result m d = 0" "atomic_result m e = 0"
    using atomic_sum [OF perm d] atomic_sum [OF perm e] by simp_all
  ultimately show ?thesis by (simp add: lock_test_status_def)
qed

text \<open>Two threads and two elements.\<close>

lemma lock_test_returns_0_witness:
  "\<exists>a b c d e. finished a \<and> finished b \<and> finished c \<and> atomic_finished d \<and> atomic_finished e \<and>
    test_reaches spin_impl (test_start spin_impl 2 1 2 (\<lambda>t j. j mod 2)) a \<and>
    test_reaches ticket_impl (test_start ticket_impl 2 1 2 (\<lambda>t j. j mod 2)) b \<and>
    test_reaches (qticket_impl 256) (test_start (qticket_impl 256) 2 1 2 (\<lambda>t j. j mod 2)) c \<and>
    atomic_reaches Fetch_add (atomic_start 2 1 2 (\<lambda>t j. j mod 2)) d \<and> atomic_reaches Comp_swap (atomic_start 2 1 2 (\<lambda>t j. j mod 2)) e \<and>
    lock_test_status [test_result 2 a, test_result 2 b, test_result 2 c, atomic_result 2 d, atomic_result 2 e] = 0"
proof -
  let ?p = "\<lambda>(t :: nat) (j :: nat). j mod 2"
  have perm: "\<forall>t<2. \<forall>j. ?p t j < 2" by simp
  have T: "{..<2} \<subseteq> {..<65536 :: nat}" "{..<2} \<subseteq> {..<8 :: nat}" "{..<2 :: nat} \<subseteq> UNIV" by auto
  obtain a where a: "test_reaches spin_impl (test_start spin_impl 2 1 2 ?p) a" "finished a"
    using spin.test_finishes [OF T(3) spin.start_inv [OF perm] test_refl] by blast
  obtain b where b: "test_reaches ticket_impl (test_start ticket_impl 2 1 2 ?p) b" "finished b"
    using ticket.test_finishes [OF T(1) ticket.start_inv [OF perm] test_refl] by blast
  obtain c where c: "test_reaches (qticket_impl 256) (test_start (qticket_impl 256) 2 1 2 ?p) c" "finished c"
    using qt.test_finishes [OF T(2) qt.start_inv [OF perm] test_refl] by blast
  obtain d where d: "atomic_reaches Fetch_add (atomic_start 2 1 2 ?p) d" "atomic_finished d"
    using atomic_end [OF perm atomic_refl] by blast
  obtain e where e: "atomic_reaches Comp_swap (atomic_start 2 1 2 ?p) e" "atomic_finished e"
    using atomic_end [OF perm atomic_refl] by blast
  from lock_test_returns_0 [OF perm _ a b c d e] show ?thesis
    using a b c d e by (intro exI [of _ a] exI [of _ b] exI [of _ c] exI [of _ d] exI [of _ e]) simp
qed

end
