(* ===== verification/NcBins.thy ===== *)
theory NcBins
  imports Prelude
begin

text \<open>
  The size classes of the allocator \<open>numaplace/ncalloc.c\<close>: how \<open>nc_malloc_small\<close> chooses the
  bin and the chunk size of a request, and how many chunks \<open>initblk\<close> lays out in a block.
  Sizes and addresses are natural numbers: all sizes here are below 2 MB, and the addresses
  of the process are below 2 ^ 64.
\<close>

definition HUGE_PAGE_SIZE :: nat where "HUGE_PAGE_SIZE = 2 * 1024 * 1024"
definition BLKSIZE :: nat where "BLKSIZE = HUGE_PAGE_SIZE"
definition BINCNT :: nat where "BINCNT = 48"
definition SMALL_MAX :: nat where "SMALL_MAX = (BLKSIZE - 64) div 2 - 64"

text \<open>\<open>sizeof\<close> of the two headers and of a pointer.\<close>

definition sizeof_blk :: nat where "sizeof_blk = 64"
definition sizeof_hdr :: nat where "sizeof_hdr = 16"
definition sizeof_ptr :: nat where "sizeof_ptr = 8"

lemmas size_defs = HUGE_PAGE_SIZE_def BLKSIZE_def SMALL_MAX_def sizeof_blk_def sizeof_hdr_def
  sizeof_ptr_def BINCNT_def

text \<open>\<open>bsr\<close>: the number of the highest bit set.\<close>

fun ilog2 :: "nat \<Rightarrow> nat" where
  "ilog2 n = (if n < 2 then 0 else Suc (ilog2 (n div 2)))"

declare ilog2.simps [simp del]

text \<open>
  The bin and its size, in steps of half a power of two; and the adjustment of the sizes
  from 64 KB on, which uses up what is left over of a block.
\<close>

definition base_bin :: "nat \<Rightarrow> nat \<times> nat" where
  "base_bin size0 =
     (let k = ilog2 size0; binsize = 2 ^ k; binndx = 2 * k - 8
      in if size0 > binsize
         then let bz0 = binsize; binsize = binsize + bz0 div 2; binndx = binndx + 1
              in if size0 > binsize \<or> binsize = 24
                 then (binndx + 1, binsize + bz0 div 2)
                 else (binndx, binsize)
         else (binndx, binsize))"

definition adjust_bin :: "nat \<Rightarrow> nat \<Rightarrow> nat" where
  "adjust_bin size0 binsize =
     (if size0 \<ge> 64 * 1024
      then if size0 \<le> BLKSIZE div 4
           then let maxcnt = BLKSIZE div (binsize + sizeof_ptr);
                    binsize = BLKSIZE div maxcnt - sizeof_ptr
                in if binsize mod 16 \<noteq> 0 then (binsize + 15) div 16 * 16 else binsize
           else SMALL_MAX + sizeof_hdr
      else binsize)"

definition small_bin :: "nat \<Rightarrow> nat \<times> nat" where
  "small_bin sz =
     (case base_bin (sz + sizeof_hdr) of (binndx, binsize) \<Rightarrow>
        (binndx, adjust_bin (sz + sizeof_hdr) binsize))"

text \<open>The number of chunks of a block, each with room for its pointer in the free list.\<close>

definition chunk_count :: "nat \<Rightarrow> nat" where
  "chunk_count binsize = (BLKSIZE - sizeof_blk) div (binsize + sizeof_ptr)"

section \<open>The highest bit\<close>

lemma ilog2_bounds: "0 < n \<Longrightarrow> 2 ^ ilog2 n \<le> n \<and> n < 2 ^ Suc (ilog2 n)"
proof (induction n rule: ilog2.induct)
  case (1 n)
  show ?case
  proof (cases "n < 2")
    case True
    then show ?thesis using 1 by (simp add: ilog2.simps [of n])
  next
    case False
    then have "0 < n div 2" by simp
    with 1 False have "2 ^ ilog2 (n div 2) \<le> n div 2 \<and> n div 2 < 2 ^ Suc (ilog2 (n div 2))" by simp
    then show ?thesis using False by (simp add: ilog2.simps [of n]) linarith
  qed
qed

lemma ilog2_less: "n < 2 ^ k \<Longrightarrow> 0 < n \<Longrightarrow> ilog2 n < k"
  using ilog2_bounds [of n] by (meson le_less_trans nat_power_less_imp_less zero_less_numeral)

lemma ilog2_ge: "2 ^ k \<le> n \<Longrightarrow> k \<le> ilog2 n"
  using ilog2_bounds [of n] by (meson less_Suc_eq_le less_le_trans le_less_trans nat_power_less_imp_less
      not_less zero_less_numeral zero_less_power)

section \<open>One size for every bin\<close>

text \<open>
  The chunk size of a bin when no request is of exactly 64 KB with its header. (Such a
  request shares bin 24 with those of 48 KB to 64 KB, which are not adjusted.)
\<close>

definition bin_chunk :: "nat \<Rightarrow> nat" where
  "bin_chunk i =
     (let base = (if even i then 2 ^ (i div 2 + 4) else 3 * 2 ^ (i div 2 + 3))
      in if base \<le> 65536 then base else adjust_bin (if base \<le> 524288 then base else 524289) base)"

lemma small_bin_cases:
  assumes "sz \<le> SMALL_MAX"
  obtains k where "4 \<le> k" "k < 20" "2 ^ k \<le> sz + 16" "sz + 16 < 2 ^ Suc k"
    "ilog2 (sz + 16) = k"
proof -
  let ?k = "ilog2 (sz + 16)"
  have "?k < 20" using assms by (intro ilog2_less) (simp_all add: size_defs)
  moreover have "4 \<le> ?k" by (rule ilog2_ge) simp
  ultimately show ?thesis using that [of ?k] ilog2_bounds [of "sz + 16"] by simp
qed

lemma less_20_cases:
  assumes "4 \<le> k" "k < (20 :: nat)"
  shows "k \<in> {4, 5, 6, 7, 8, 9, 10, 11, 12, 13, 14, 15, 16, 17, 18, 19}"
  using assms by simp presburger

lemma small_bin_spec:
  assumes "sz \<le> SMALL_MAX"
  shows "case small_bin sz of (i, z) \<Rightarrow> i < 33 \<and> sz + 16 \<le> z \<and> z mod 16 = 0 \<and>
     z \<le> SMALL_MAX + 16 \<and> (sz \<noteq> 65520 \<longrightarrow> z = bin_chunk i)"
proof -
  from small_bin_cases [OF assms] obtain k where
    k: "4 \<le> k" "k < 20" "2 ^ k \<le> sz + 16" "sz + 16 < 2 ^ Suc k" "ilog2 (sz + 16) = k" .
  from less_20_cases [OF k(1,2)] k(3,4,5) assms show ?thesis
    by (elim insertE emptyE; simp add: small_bin_def base_bin_def adjust_bin_def bin_chunk_def
        size_defs Let_def split: if_split)
qed

lemmas small_bin_props = small_bin_spec [unfolded prod.case_eq_if]

text \<open>A block holds at least two chunks, and they and their pointers fit behind the header.\<close>

lemma chunk_count_two: "z \<le> SMALL_MAX + 16 \<Longrightarrow> 2 \<le> chunk_count z"
proof -
  assume "z \<le> SMALL_MAX + 16"
  then have "2 * (z + 8) \<le> BLKSIZE - 64" by (simp add: size_defs)
  then have "2 \<le> (BLKSIZE - 64) div (z + 8)" by (simp add: less_eq_div_iff_mult_less_eq)
  then show ?thesis by (simp add: chunk_count_def sizeof_blk_def sizeof_ptr_def)
qed

lemma chunks_fit: "64 + chunk_count z * (z + 8) \<le> BLKSIZE"
proof -
  have "chunk_count z * (z + 8) \<le> BLKSIZE - 64"
    by (simp add: chunk_count_def sizeof_blk_def sizeof_ptr_def)
  moreover have "64 \<le> BLKSIZE" by (simp add: size_defs)
  ultimately show ?thesis by linarith
qed

text \<open>
  C39: The bin of every small request is one of the table, its chunks hold the request with its
  header and keep the alignment of 16 bytes, and a block has room for at least two of them with
  their pointers. But for requests of 65520 bytes the chunk size is a function of the bin.
\<close>

theorem bin_choice_fits:
  assumes "sz \<le> SMALL_MAX"
  shows "case small_bin sz of (i, z) \<Rightarrow>
     i < BINCNT \<and> sz + sizeof_hdr \<le> z \<and> z mod 16 = 0 \<and> 2 \<le> chunk_count z \<and>
     sizeof_blk + chunk_count z * (z + sizeof_ptr) \<le> BLKSIZE \<and> (sz \<noteq> 65520 \<longrightarrow> z = bin_chunk i)"
  using small_bin_spec [OF assms] chunk_count_two chunks_fit
  by (auto simp: BINCNT_def sizeof_hdr_def sizeof_blk_def sizeof_ptr_def split: prod.splits)

theorem bin_choice_fits_witness:
  "(100 :: nat) \<le> SMALL_MAX \<and> (case small_bin 100 of (i, z) \<Rightarrow> z = bin_chunk i \<and> 116 \<le> z)"
proof -
  have "(100 :: nat) \<le> SMALL_MAX" by (simp add: size_defs)
  from bin_choice_fits [OF this] this show ?thesis by (auto simp: sizeof_hdr_def)
qed

end
