(* ===== verification/BlkLists.thy ===== *)
theory BlkLists
  imports NcBins
begin

text \<open>
  The block descriptors of \<open>numaplace/ncalloc.c\<close> and the lists they are linked in: the bins
  and the recently used big blocks are doubly linked through \<open>prev\<close> and \<open>next\<close>, with a head
  and a tail pointer in the heap. The operations are the pointer manipulations of the code
  (which repeats them in several functions), and each is proved to be the operation on the
  list of blocks that it stands for. The null pointer is 0.
\<close>

section \<open>Blocks\<close>

record blk =
  b_small :: bool
  b_tid :: nat
  b_binndx :: nat
  b_restcnt :: int
  b_freecnt :: int
  b_cnt :: int
  b_rest :: nat
  b_free :: nat
  b_size :: nat
  b_prev :: nat
  b_next :: nat

type_synonym blks = "nat \<Rightarrow> blk"

definition set_prev :: "nat \<Rightarrow> nat \<Rightarrow> blks \<Rightarrow> blks" where
  "set_prev a p m = m(a := (m a)\<lparr>b_prev := p\<rparr>)"

definition set_next :: "nat \<Rightarrow> nat \<Rightarrow> blks \<Rightarrow> blks" where
  "set_next a n m = m(a := (m a)\<lparr>b_next := n\<rparr>)"

text \<open>The head and tail pointers of one list.\<close>

record ends =
  e_head :: nat
  e_tail :: nat

section \<open>The operations\<close>

text \<open>Taking a block out of its list.\<close>

definition unlink :: "nat \<Rightarrow> ends \<Rightarrow> blks \<Rightarrow> ends \<times> blks" where
  "unlink a e m =
     (let prv = b_prev (m a); nxt = b_next (m a);
          (e, m) = (if prv \<noteq> 0 then (e, set_next prv nxt m) else (e\<lparr>e_head := nxt\<rparr>, m))
      in if nxt \<noteq> 0 then (e, set_prev nxt prv m) else (e\<lparr>e_tail := prv\<rparr>, m))"

text \<open>Placing a new block at the head.\<close>

definition push_new :: "nat \<Rightarrow> ends \<Rightarrow> blks \<Rightarrow> ends \<times> blks" where
  "push_new a e m =
     (let hd0 = e_head e;
          m = set_next a hd0 (set_prev a 0 m);
          m = (if hd0 \<noteq> 0 then set_prev hd0 a m else m);
          e = e\<lparr>e_head := a\<rparr>
      in (if e_tail e = 0 then e\<lparr>e_tail := a\<rparr> else e, m))"

text \<open>Moving a block of the list to its head (\<open>nc_free_small\<close>).\<close>

definition move_to_head :: "nat \<Rightarrow> ends \<Rightarrow> blks \<Rightarrow> ends \<times> blks" where
  "move_to_head a e m =
     (let prv = b_prev (m a)
      in if prv \<noteq> 0
         then let nxt = b_next (m a);
                  m = set_next prv nxt m;
                  (e, m) = (if nxt \<noteq> 0 then (e, set_prev nxt prv m) else (e\<lparr>e_tail := prv\<rparr>, m));
                  hd0 = e_head e;
                  e = e\<lparr>e_head := a\<rparr>;
                  m = set_prev hd0 a m
              in (e, set_next a hd0 (set_prev a 0 m))
         else (e, m))"

text \<open>Moving the head to the tail (\<open>nc_malloc_small\<close>, for a block that became full).\<close>

definition move_to_tail :: "nat \<Rightarrow> ends \<Rightarrow> blks \<Rightarrow> ends \<times> blks" where
  "move_to_tail a e m =
     (let nxt = b_next (m a)
      in if nxt \<noteq> 0
         then let tl0 = e_tail e;
                  e = e\<lparr>e_tail := a, e_head := nxt\<rparr>;
                  m = set_prev nxt 0 (set_next tl0 a m)
              in (e, set_next a 0 (set_prev a tl0 m))
         else (e, m))"

text \<open>Dropping the last block of at least two.\<close>

definition drop_tail :: "ends \<Rightarrow> blks \<Rightarrow> ends \<times> blks" where
  "drop_tail e m =
     (let prv = b_prev (m (e_tail e)) in (e\<lparr>e_tail := prv\<rparr>, set_next prv 0 m))"

section \<open>The lists they stand for\<close>

text \<open>
  The part of a list between \<open>p\<close> before its first and \<open>n\<close> after its last element.
\<close>

fun segment :: "blks \<Rightarrow> nat \<Rightarrow> nat list \<Rightarrow> nat \<Rightarrow> bool" where
  "segment m p [] n = True"
| "segment m p (x # xs) n =
     (b_prev (m x) = p \<and> b_next (m x) = (if xs = [] then n else hd xs) \<and> segment m x xs n)"

definition linked :: "blks \<Rightarrow> ends \<Rightarrow> nat list \<Rightarrow> bool" where
  "linked m e xs \<longleftrightarrow> segment m 0 xs 0 \<and> distinct xs \<and> 0 \<notin> set xs \<and>
     e_head e = (if xs = [] then 0 else hd xs) \<and> e_tail e = (if xs = [] then 0 else last xs)"

definition same_but_links :: "blk \<Rightarrow> blk \<Rightarrow> bool" where
  "same_but_links b c \<longleftrightarrow> c = b\<lparr>b_prev := b_prev c, b_next := b_next c\<rparr>"

lemma segment_append:
  "segment m p (xs @ ys) n \<longleftrightarrow>
    segment m p xs (if ys = [] then n else hd ys) \<and> segment m (if xs = [] then p else last xs) ys n"
  by (induction xs arbitrary: p) auto

lemma segment_frame:
  "(\<And>x. x \<in> set xs \<Longrightarrow> b_prev (m' x) = b_prev (m x) \<and> b_next (m' x) = b_next (m x)) \<Longrightarrow>
    segment m' p xs n = segment m p xs n"
  by (induction xs arbitrary: p) auto

lemma segment_set_other [simp]:
  "a \<notin> set xs \<Longrightarrow> segment (set_prev a q m) p xs n = segment m p xs n"
  "a \<notin> set xs \<Longrightarrow> segment (set_next a q m) p xs n = segment m p xs n"
  by (auto intro!: segment_frame simp: set_prev_def set_next_def)

lemma set_links [simp]:
  "b_prev (set_prev a q m x) = (if x = a then q else b_prev (m x))"
  "b_next (set_prev a q m x) = b_next (m x)"
  "b_next (set_next a q m x) = (if x = a then q else b_next (m x))"
  "b_prev (set_next a q m x) = b_prev (m x)"
  by (simp_all add: set_prev_def set_next_def)

lemmas list_simps = linked_def segment_append Let_def

text \<open>The lists do not mention the other fields: an update of them leaves lists alone.\<close>

lemma linked_frame:
  "(\<And>x. x \<in> set xs \<Longrightarrow> b_prev (m' x) = b_prev (m x) \<and> b_next (m' x) = b_next (m x)) \<Longrightarrow>
    linked m' e xs = linked m e xs"
  using segment_frame [of xs m' m] by (simp add: linked_def)

lemma unlink_linked:
  assumes l: "linked m e (xs @ a # ys)" and u: "unlink a e m = (e', m')"
  shows "linked m' e' (xs @ ys)"
  using assms
  by (cases xs rule: rev_cases; cases ys)
    (auto simp: list_simps unlink_def split: if_splits)

lemma push_new_linked:
  assumes l: "linked m e xs" "a \<notin> set xs" "a \<noteq> 0" and u: "push_new a e m = (e', m')"
  shows "linked m' e' (a # xs)"
proof -
  have "xs \<noteq> [] \<Longrightarrow> last xs \<noteq> 0" using l(1) last_in_set [of xs] unfolding linked_def by metis
  then show ?thesis using assms
    by (cases xs) (auto simp: list_simps push_new_def split: if_splits)
qed

lemma linked_last: "linked m e xs \<Longrightarrow> xs \<noteq> [] \<Longrightarrow> e_tail e \<noteq> 0 \<and> e_head e \<noteq> 0"
  using last_in_set [of xs] hd_in_set [of xs] unfolding linked_def by metis

lemma set_links_commute:
  "a \<noteq> h \<Longrightarrow> set_next a n (set_prev a p (set_prev h q m)) = set_prev h q (set_next a n (set_prev a p m))"
  by (auto simp: set_prev_def set_next_def)

lemma move_to_head_eq:
  assumes "b_prev (m a) \<noteq> 0" "unlink a e m = (e1, m1)" "e_head e1 \<noteq> 0" "e_tail e1 \<noteq> 0" "a \<noteq> e_head e1"
  shows "move_to_head a e m = push_new a e1 m1"
  using assms by (auto simp: move_to_head_def unlink_def push_new_def Let_def set_links_commute
      split: if_splits)

lemma move_to_head_linked:
  assumes l: "linked m e (xs @ a # ys)" and u: "move_to_head a e m = (e', m')"
  shows "linked m' e' (a # xs @ ys)"
proof (cases "xs = []")
  case True
  then show ?thesis using assms by (simp add: list_simps move_to_head_def)
next
  case False
  obtain e1 m1 where un: "unlink a e m = (e1, m1)" by (meson surj_pair)
  note l1 = unlink_linked [OF l un]
  have "b_prev (m a) = last xs" "0 \<notin> set xs" using l False by (auto simp: list_simps)
  with last_in_set [OF False] have p: "b_prev (m a) \<noteq> 0" by metis
  have a: "a \<notin> set (xs @ ys)" "a \<noteq> 0" using l by (auto simp: linked_def)
  have "e_head e1 = hd (xs @ ys)" "xs @ ys \<noteq> []" using l1 False by (simp_all add: linked_def)
  then have "a \<noteq> e_head e1" using a(1) hd_in_set by metis
  then have "move_to_head a e m = push_new a e1 m1"
    using linked_last [OF l1] False by (intro move_to_head_eq [OF p un]) simp_all
  with u have "push_new a e1 m1 = (e', m')" by simp
  from push_new_linked [OF l1 a this] show ?thesis by simp
qed

lemma move_to_tail_linked:
  assumes l: "linked m e (a # ys)" and u: "move_to_tail a e m = (e', m')"
  shows "linked m' e' (ys @ [a])"
  using assms
  by (cases ys rule: rev_cases; cases "butlast ys")
    (auto simp: list_simps move_to_tail_def split: if_splits)

lemma drop_tail_linked:
  assumes l: "linked m e (xs @ [a])" "xs \<noteq> []" and u: "drop_tail e m = (e', m')"
  shows "linked m' e' xs"
  using assms
  by (cases xs rule: rev_cases)
    (auto simp: list_simps drop_tail_def split: if_splits)

text \<open>The operations change nothing but links, and none outside the list and the block.\<close>

lemma links_only:
  "b_small (set_prev a q m x) = b_small (m x)" "b_small (set_next a q m x) = b_small (m x)"
  "b_tid (set_prev a q m x) = b_tid (m x)" "b_tid (set_next a q m x) = b_tid (m x)"
  "b_binndx (set_prev a q m x) = b_binndx (m x)" "b_binndx (set_next a q m x) = b_binndx (m x)"
  "b_restcnt (set_prev a q m x) = b_restcnt (m x)" "b_restcnt (set_next a q m x) = b_restcnt (m x)"
  "b_freecnt (set_prev a q m x) = b_freecnt (m x)" "b_freecnt (set_next a q m x) = b_freecnt (m x)"
  "b_cnt (set_prev a q m x) = b_cnt (m x)" "b_cnt (set_next a q m x) = b_cnt (m x)"
  "b_rest (set_prev a q m x) = b_rest (m x)" "b_rest (set_next a q m x) = b_rest (m x)"
  "b_free (set_prev a q m x) = b_free (m x)" "b_free (set_next a q m x) = b_free (m x)"
  "b_size (set_prev a q m x) = b_size (m x)" "b_size (set_next a q m x) = b_size (m x)"
  by (simp_all add: set_prev_def set_next_def)

text \<open>The descriptor without its links: what a block is, wherever it is linked.\<close>

definition body :: "blk \<Rightarrow> blk" where
  "body b = b\<lparr>b_prev := 0, b_next := 0\<rparr>"

lemma body_set [simp]: "body (set_prev a q m x) = body (m x)" "body (set_next a q m x) = body (m x)"
  by (simp_all add: body_def set_prev_def set_next_def)

lemma list_ops_body:
  "unlink a e m = (e', m') \<Longrightarrow> body (m' x) = body (m x)"
  "push_new a e m = (e', m') \<Longrightarrow> body (m' x) = body (m x)"
  "move_to_head a e m = (e', m') \<Longrightarrow> body (m' x) = body (m x)"
  "move_to_tail a e m = (e', m') \<Longrightarrow> body (m' x) = body (m x)"
  "drop_tail e m = (e', m') \<Longrightarrow> body (m' x) = body (m x)"
  by (auto simp: unlink_def push_new_def move_to_head_def move_to_tail_def drop_tail_def Let_def
      split: if_splits)

lemma set_other [simp]: "x \<noteq> a \<Longrightarrow> set_prev a q m x = m x" "x \<noteq> a \<Longrightarrow> set_next a q m x = m x"
  by (simp_all add: set_prev_def set_next_def)

lemma linked_neighbours:
  assumes "linked m e xs" "a \<in> set xs"
  shows "b_prev (m a) = 0 \<or> b_prev (m a) \<in> set xs" "b_next (m a) = 0 \<or> b_next (m a) \<in> set xs"
proof -
  from assms(2) obtain ys zs where "xs = ys @ a # zs" by (meson split_list)
  with assms(1) show "b_prev (m a) = 0 \<or> b_prev (m a) \<in> set xs" "b_next (m a) = 0 \<or> b_next (m a) \<in> set xs"
    by (auto simp: list_simps)
qed

lemma linked_ends:
  assumes "linked m e xs"
  shows "e_head e = 0 \<or> e_head e \<in> set xs" "e_tail e = 0 \<or> e_tail e \<in> set xs"
  using assms by (auto simp: linked_def)

lemma outside_list:
  assumes "linked m e xs" "x \<notin> set xs"
  shows "a \<in> set xs \<Longrightarrow> b_prev (m a) \<noteq> 0 \<Longrightarrow> x \<noteq> b_prev (m a)"
    and "a \<in> set xs \<Longrightarrow> b_next (m a) \<noteq> 0 \<Longrightarrow> x \<noteq> b_next (m a)"
    and "e_head e \<noteq> 0 \<Longrightarrow> x \<noteq> e_head e" "e_tail e \<noteq> 0 \<Longrightarrow> x \<noteq> e_tail e"
  using linked_neighbours [OF assms(1), of a] linked_ends [OF assms(1)] assms(2) by auto

lemma list_ops_frame:
  assumes l: "linked m e xs" and x: "x \<notin> set xs"
  shows "unlink a e m = (e', m') \<Longrightarrow> a \<in> set xs \<Longrightarrow> m' x = m x"
    and "push_new a e m = (e', m') \<Longrightarrow> x \<noteq> a \<Longrightarrow> m' x = m x"
    and "move_to_head a e m = (e', m') \<Longrightarrow> a \<in> set xs \<Longrightarrow> m' x = m x"
    and "move_to_tail a e m = (e', m') \<Longrightarrow> a \<in> set xs \<Longrightarrow> m' x = m x"
    and "drop_tail e m = (e', m') \<Longrightarrow> xs = ys @ [b] \<Longrightarrow> ys \<noteq> [] \<Longrightarrow> m' x = m x"
proof -
  note out = outside_list [OF l x]
  have ne: "a \<in> set xs \<Longrightarrow> x \<noteq> a" for a using x by auto
  have nonempty: "a \<in> set xs \<Longrightarrow> e_head e \<noteq> 0 \<and> e_tail e \<noteq> 0" for a
  proof -
    assume "a \<in> set xs"
    then have ne: "xs \<noteq> []" by auto
    note hd_in_set [OF ne] last_in_set [OF ne]
    with l ne show ?thesis unfolding linked_def by metis
  qed
  show "unlink a e m = (e', m') \<Longrightarrow> a \<in> set xs \<Longrightarrow> m' x = m x"
    using out by (auto simp: unlink_def Let_def split: if_splits)
  show "push_new a e m = (e', m') \<Longrightarrow> x \<noteq> a \<Longrightarrow> m' x = m x"
    using out by (auto simp: push_new_def Let_def split: if_splits)
  show "move_to_head a e m = (e', m') \<Longrightarrow> a \<in> set xs \<Longrightarrow> m' x = m x"
    using out nonempty ne by (auto simp: move_to_head_def Let_def split: if_splits)
  show "move_to_tail a e m = (e', m') \<Longrightarrow> a \<in> set xs \<Longrightarrow> m' x = m x"
    using out nonempty ne by (auto simp: move_to_tail_def Let_def split: if_splits)
  have "xs = ys @ [b] \<Longrightarrow> ys \<noteq> [] \<Longrightarrow> x \<noteq> last ys" using x last_in_set [of ys] by auto
  then show "drop_tail e m = (e', m') \<Longrightarrow> xs = ys @ [b] \<Longrightarrow> ys \<noteq> [] \<Longrightarrow> m' x = m x"
    using l by (auto simp: drop_tail_def Let_def list_simps)
qed

section \<open>Operations that reorder a list\<close>

text \<open>
  What the bins rely on when a block is moved within its list: the list still holds the same
  blocks, the blocks keep their contents, and blocks elsewhere do not change. \<open>before\<close> says
  which blocks may stand before the one that is moved.
\<close>

locale reorder =
  fixes f :: "nat \<Rightarrow> ends \<Rightarrow> blks \<Rightarrow> ends \<times> blks" and before :: "nat list \<Rightarrow> bool"
  assumes relinks: "linked m e (xs @ a # ys) \<Longrightarrow> before xs \<Longrightarrow> f a e m = (e', m') \<Longrightarrow>
      \<exists>zs. linked m' e' zs \<and> set zs = set (xs @ a # ys)"
    and keeps_body: "f a e m = (e', m') \<Longrightarrow> body (m' x) = body (m x)"
    and keeps_others: "linked m e xs \<Longrightarrow> a \<in> set xs \<Longrightarrow> x \<notin> set xs \<Longrightarrow> f a e m = (e', m') \<Longrightarrow> m' x = m x"

interpretation to_head: reorder move_to_head "\<lambda>xs. True"
proof unfold_locales
  fix m e xs a ys e' m'
  assume l: "linked m e (xs @ a # ys)" and u: "move_to_head a e m = (e', m')"
  show "\<exists>zs. linked m' e' zs \<and> set zs = set (xs @ a # ys)"
    by (rule exI [of _ "a # xs @ ys"]) (use move_to_head_linked [OF l u] in auto)
qed (auto intro: list_ops_body(3) list_ops_frame(3))

interpretation to_tail: reorder move_to_tail "\<lambda>xs. xs = []"
proof unfold_locales
  fix m e xs a ys e' m'
  assume l: "linked m e (xs @ a # ys)" "xs = []" and u: "move_to_tail a e m = (e', m')"
  from l have "linked m e (a # ys)" by simp
  from move_to_tail_linked [OF this u] l(2) show "\<exists>zs. linked m' e' zs \<and> set zs = set (xs @ a # ys)"
    by (intro exI [of _ "ys @ [a]"]) auto
qed (auto intro: list_ops_body(4) list_ops_frame(4))

section \<open>The refinement\<close>

text \<open>
  C20: The pointer manipulations of the allocator refine the operations on lists of blocks:
  taking a block out, moving it to the head, pushing a new one, moving the head to the tail and
  dropping the tail leave a well-formed doubly linked list of exactly the expected blocks.
\<close>

theorem block_lists_refined:
  assumes l: "linked m e (xs @ a # ys)" and b: "b \<notin> set (xs @ a # ys)" "b \<noteq> 0"
  shows "(case unlink a e m of (e', m') \<Rightarrow> linked m' e' (xs @ ys)) \<and>
    (case move_to_head a e m of (e', m') \<Rightarrow> linked m' e' (a # xs @ ys)) \<and>
    (case push_new b e m of (e', m') \<Rightarrow> linked m' e' (b # xs @ a # ys)) \<and>
    (xs = [] \<longrightarrow> (case move_to_tail a e m of (e', m') \<Rightarrow> linked m' e' (ys @ [a]))) \<and>
    (ys = [] \<and> xs \<noteq> [] \<longrightarrow> (case drop_tail e m of (e', m') \<Rightarrow> linked m' e' xs))"
  using unlink_linked [OF l] move_to_head_linked [OF l] push_new_linked [OF l b]
    move_to_tail_linked [of m e a ys] drop_tail_linked [of m e xs a] l
  by (auto split: prod.splits)

text \<open>A list of two blocks, for an example.\<close>

definition two_blks :: blks where
  "two_blks a = \<lparr>b_small = True, b_tid = 0, b_binndx = 0, b_restcnt = 0, b_freecnt = 0, b_cnt = 0, b_rest = 0,
     b_free = 0, b_size = 0, b_prev = (if a = 32 then 16 else 0), b_next = (if a = 16 then 32 else 0)\<rparr>"

theorem block_lists_refined_witness:
  "linked two_blks \<lparr>e_head = 16, e_tail = 32\<rparr> ([16] @ 32 # []) \<and>
   (case move_to_head 32 \<lparr>e_head = 16, e_tail = 32\<rparr> two_blks of (e, m) \<Rightarrow> linked m e [32, 16]) \<and>
   (case push_new 48 \<lparr>e_head = 16, e_tail = 32\<rparr> two_blks of (e, m) \<Rightarrow> linked m e [48, 16, 32])"
proof -
  have l: "linked two_blks \<lparr>e_head = 16, e_tail = 32\<rparr> ([16] @ 32 # [])" by (simp add: linked_def two_blks_def)
  from block_lists_refined [OF l, of 48] show ?thesis using l by simp
qed

end
