(* ===== verification/Ncalloc.thy ===== *)
theory Ncalloc
  imports BlkLists
begin

text \<open>
  The allocator of \<open>numaplace/ncalloc.c\<close>, the replacement of \<open>malloc\<close>. Every thread has a
  heap: for each size class a list of 2 MB blocks cut into chunks, a list of spare blocks
  and a list of recently used big blocks. A free of another thread's buffer works on the
  heap of the block's owner, under the heap's lock, so an operation is one step.

  The statistics (\<open>__stat\<close>, off unless asked for) are left out. The contents of memory the
  allocator uses itself is kept by kind: block descriptors, buffer headers (\<open>hdr_t\<close>), and the
  pointers in the free lists at the ends of the blocks.

  Sizes and addresses are natural numbers below \<open>2 ^ 64\<close>; where the code adds to a size or an
  address of the caller, in \<open>size_t\<close> or \<open>uint64_t\<close>, the wrap-around is written out.
  An access to memory that is not mapped is a fault the model only has in \<open>bklalloc\<close>, where the
  operation itself has unmapped it; elsewhere the theorems say that what is used is mapped.
\<close>

section \<open>State\<close>

record hdr =
  h_blk :: nat
  h_alignment :: nat

record heap =
  h_blkfree :: nat
  h_lru :: ends
  h_bins :: "nat \<Rightarrow> ends"
  h_blkfreecnt :: int
  h_lrucnt :: int

record world =
  w_blks :: blks
  w_hdrs :: "nat \<Rightarrow> hdr"
  w_cells :: "nat \<Rightarrow> nat"
  w_heaps :: "nat \<Rightarrow> heap"
  w_mapped :: "nat set"

text \<open>
  What the system answers to \<open>mmap\<close> of a length, given the bytes mapped so far; on a failure
  (\<open>None\<close>) the process ends with a message.
\<close>

type_synonym mmap = "nat set \<Rightarrow> nat \<Rightarrow> nat option"

definition map_pages :: "mmap \<Rightarrow> nat \<Rightarrow> world \<Rightarrow> (nat \<times> world) option" where
  "map_pages os len w =
     (case os (w_mapped w) len of
        None \<Rightarrow> None
      | Some a \<Rightarrow> Some (a, w\<lparr>w_mapped := w_mapped w \<union> {a..<a + len}\<rparr>))"

definition munmap :: "nat \<Rightarrow> nat \<Rightarrow> world \<Rightarrow> world" where
  "munmap a len w = w\<lparr>w_mapped := w_mapped w - {a..<a + len}\<rparr>"

definition upd_blk :: "nat \<Rightarrow> (blk \<Rightarrow> blk) \<Rightarrow> world \<Rightarrow> world" where
  "upd_blk b f w = w\<lparr>w_blks := (w_blks w)(b := f (w_blks w b))\<rparr>"

definition upd_heap :: "nat \<Rightarrow> (heap \<Rightarrow> heap) \<Rightarrow> world \<Rightarrow> world" where
  "upd_heap t f w = w\<lparr>w_heaps := (w_heaps w)(t := f (w_heaps w t))\<rparr>"

definition set_hdr :: "nat \<Rightarrow> hdr \<Rightarrow> world \<Rightarrow> world" where
  "set_hdr h x w = w\<lparr>w_hdrs := (w_hdrs w)(h := x)\<rparr>"

section \<open>Blocks\<close>

text \<open>
  \<open>bklalloc\<close>: one huge page more than needed is mapped and the surplus unmapped before and
  behind the block. For a length of 0 all of it is unmapped again, and the write to the
  descriptor is a fault.
\<close>

definition bklalloc :: "mmap \<Rightarrow> nat \<Rightarrow> nat \<Rightarrow> world \<Rightarrow> (nat \<times> world) option" where
  "bklalloc os t len w =
     (case map_pages os ((len + HUGE_PAGE_SIZE) mod 2 ^ 64) w of
        None \<Rightarrow> None
      | Some (a, w) \<Rightarrow>
          let head = a mod HUGE_PAGE_SIZE;
              w = (if head \<noteq> 0 then munmap a head w else w);
              b = a + head;
              w = munmap (b + len) (HUGE_PAGE_SIZE - head) w
          in if len = 0 then None else Some (b, upd_blk b (\<lambda>x. x\<lparr>b_tid := t\<rparr>) w))"

definition initblk :: "nat \<Rightarrow> nat \<Rightarrow> nat \<Rightarrow> world \<Rightarrow> world" where
  "initblk t b binsize w =
     (let cnt = int (chunk_count binsize)
      in upd_blk b (\<lambda>x. x\<lparr>b_small := True, b_size := binsize, b_tid := t, b_free := b + BLKSIZE,
           b_restcnt := cnt, b_freecnt := 0, b_cnt := cnt, b_rest := b + sizeof_blk\<rparr>) w)"

text \<open>Operations on one bin's list.\<close>

definition on_bin ::
    "nat \<Rightarrow> nat \<Rightarrow> (ends \<Rightarrow> blks \<Rightarrow> ends \<times> blks) \<Rightarrow> world \<Rightarrow> world" where
  "on_bin t i f w =
     (case f (h_bins (w_heaps w t) i) (w_blks w) of (e, m) \<Rightarrow>
        upd_heap t (\<lambda>hp. hp\<lparr>h_bins := (h_bins hp)(i := e)\<rparr>) (w\<lparr>w_blks := m\<rparr>))"

definition on_lru :: "nat \<Rightarrow> (ends \<Rightarrow> blks \<Rightarrow> ends \<times> blks) \<Rightarrow> world \<Rightarrow> world" where
  "on_lru t f w =
     (case f (h_lru (w_heaps w t)) (w_blks w) of (e, m) \<Rightarrow>
        upd_heap t (\<lambda>hp. hp\<lparr>h_lru := e\<rparr>) (w\<lparr>w_blks := m\<rparr>))"

section \<open>Small buffers\<close>

text \<open>A never used chunk of a block, with its header.\<close>

definition cut_chunk :: "nat \<Rightarrow> nat \<Rightarrow> world \<Rightarrow> nat \<times> world" where
  "cut_chunk b binsize w =
     (let h = b_rest (w_blks w b)
      in (h, set_hdr h \<lparr>h_blk = b, h_alignment = 0\<rparr>
               (upd_blk b (\<lambda>x. x\<lparr>b_restcnt := b_restcnt x - 1, b_rest := b_rest x + binsize\<rparr>) w)))"

text \<open>A chunk of the block at the head of the bin; 0 if it has none.\<close>

definition take_chunk :: "nat \<Rightarrow> nat \<Rightarrow> world \<Rightarrow> nat \<times> world" where
  "take_chunk b binsize w =
     (if b_restcnt (w_blks w b) \<noteq> 0 then cut_chunk b binsize w
      else if b_freecnt (w_blks w b) \<noteq> 0
        then (w_cells w (b_free (w_blks w b)),
              upd_blk b (\<lambda>x. x\<lparr>b_freecnt := b_freecnt x - 1, b_free := b_free x + sizeof_ptr\<rparr>) w)
      else (0, w))"

definition from_head :: "nat \<Rightarrow> nat \<Rightarrow> nat \<Rightarrow> world \<Rightarrow> (nat \<times> world) option" where
  "from_head t binndx binsize w =
     (let b = e_head (h_bins (w_heaps w t) binndx); x = w_blks w b
      in if b = 0 then Some (0, w)
         else if \<not> (0 \<le> b_freecnt x \<and> b_freecnt x < b_cnt x \<and> 0 \<le> b_restcnt x \<and> b_restcnt x < b_cnt x)
           then None
         else case take_chunk b binsize w of (h, w) \<Rightarrow>
           Some (h, if b_restcnt (w_blks w b) + b_freecnt (w_blks w b) = 0
                    then on_bin t binndx (move_to_tail b) w else w))"

text \<open>A block for the bin: a spare one or a new one.\<close>

definition get_block :: "mmap \<Rightarrow> nat \<Rightarrow> world \<Rightarrow> (nat \<times> world) option" where
  "get_block os t w =
     (let b = h_blkfree (w_heaps w t)
      in if b \<noteq> 0
         then Some (b, upd_heap t (\<lambda>hp. hp\<lparr>h_blkfree := b_next (w_blks w b),
                h_blkfreecnt := h_blkfreecnt hp - 1\<rparr>) w)
         else bklalloc os t BLKSIZE w)"

definition from_new :: "mmap \<Rightarrow> nat \<Rightarrow> nat \<Rightarrow> nat \<Rightarrow> world \<Rightarrow> (nat \<times> world) option" where
  "from_new os t binndx binsize w =
     (case get_block os t w of
        None \<Rightarrow> None
      | Some (b, w) \<Rightarrow>
          let w = upd_blk b (\<lambda>x. x\<lparr>b_binndx := binndx\<rparr>) (initblk t b binsize w)
          in case cut_chunk b binsize w of (h, w) \<Rightarrow> Some (h, on_bin t binndx (push_new b) w))"

definition nc_malloc_small :: "mmap \<Rightarrow> nat \<Rightarrow> nat \<Rightarrow> world \<Rightarrow> (nat \<times> world) option" where
  "nc_malloc_small os t sz w =
     (case small_bin sz of (binndx, binsize) \<Rightarrow>
        case from_head t binndx binsize w of
          None \<Rightarrow> None
        | Some (h, w) \<Rightarrow>
            if h \<noteq> 0 then Some (h + sizeof_hdr, w)
            else map_option (\<lambda>(h, w). (h + sizeof_hdr, w)) (from_new os t binndx binsize w))"

definition PAGE_BLK_MAP_TRESH :: int where "PAGE_BLK_MAP_TRESH = 64"
definition BIG_BLK_MAP_TRESH :: int where "BIG_BLK_MAP_TRESH = 16"

definition nc_free_small :: "nat \<Rightarrow> nat \<Rightarrow> world \<Rightarrow> world" where
  "nc_free_small t h w =
     (let b = h_blk (w_hdrs w h);
          w = upd_blk b (\<lambda>x. x\<lparr>b_freecnt := b_freecnt x + 1\<rparr>) w;
          i = b_binndx (w_blks w b)
      in if b_freecnt (w_blks w b) < b_cnt (w_blks w b)
         then let w = upd_blk b (\<lambda>x. x\<lparr>b_free := b_free x - sizeof_ptr\<rparr>) w;
                  w = w\<lparr>w_cells := (w_cells w)(b_free (w_blks w b) := h)\<rparr>
              in on_bin t i (move_to_head b) w
         else let w = on_bin t i (unlink b) w
              in if h_blkfreecnt (w_heaps w t) < PAGE_BLK_MAP_TRESH
                 then let fr = h_blkfree (w_heaps w t)
                      in upd_heap t (\<lambda>hp. hp\<lparr>h_blkfreecnt := h_blkfreecnt hp + 1, h_blkfree := b\<rparr>)
                           (w\<lparr>w_blks := set_next b fr (w_blks w)\<rparr>)
                 else munmap b BLKSIZE w)"

section \<open>Big buffers\<close>

text \<open>The first of the recently used blocks that is large enough (0 if there is none).\<close>

fun find_big :: "nat \<Rightarrow> blks \<Rightarrow> nat \<Rightarrow> nat \<Rightarrow> nat option" where
  "find_big 0 m b size0 = None"
| "find_big (Suc fuel) m b size0 =
     (if b = 0 then Some 0
      else if b_size (m b) \<ge> size0 then Some b
      else find_big fuel m (b_next (m b)) size0)"

definition nc_malloc_big :: "nat \<Rightarrow> mmap \<Rightarrow> nat \<Rightarrow> nat \<Rightarrow> world \<Rightarrow> (nat \<times> world) option" where
  "nc_malloc_big fuel os t sz w =
     (let size0 = (sz + sizeof_blk + sizeof_hdr) mod 2 ^ 64
      in case find_big fuel (w_blks w) (e_head (h_lru (w_heaps w t))) size0 of
           None \<Rightarrow> None
         | Some b \<Rightarrow>
             (case (if b \<noteq> 0
                    then Some (b, on_lru t (unlink b)
                           (upd_heap t (\<lambda>hp. hp\<lparr>h_lrucnt := h_lrucnt hp - 1\<rparr>) w))
                    else let size0 = (size0 + (BLKSIZE - 1)) mod 2 ^ 64 div BLKSIZE * BLKSIZE
                         in map_option (\<lambda>(b, w). (b, upd_blk b (\<lambda>x. x\<lparr>b_small := False, b_size := size0\<rparr>) w))
                              (bklalloc os t size0 w)) of
                None \<Rightarrow> None
              | Some (b, w) \<Rightarrow>
                  Some (b + sizeof_blk + sizeof_hdr,
                        set_hdr (b + sizeof_blk) \<lparr>h_blk = b, h_alignment = 0\<rparr> w)))"

definition nc_free_big :: "nat \<Rightarrow> nat \<Rightarrow> world \<Rightarrow> world" where
  "nc_free_big t h w =
     (let b = h_blk (w_hdrs w h);
          hd0 = e_head (h_lru (w_heaps w t));
          m = (if hd0 \<noteq> 0 then set_prev hd0 b (w_blks w) else w_blks w);
          w = w\<lparr>w_blks := set_next b hd0 (set_prev b 0 m)\<rparr>;
          w = upd_heap t (\<lambda>hp. hp\<lparr>h_lru := (h_lru hp)\<lparr>e_head := b\<rparr>\<rparr>) w
      in if h_lrucnt (w_heaps w t) < BIG_BLK_MAP_TRESH
         then let w = upd_heap t (\<lambda>hp. hp\<lparr>h_lrucnt := h_lrucnt hp + 1\<rparr>) w
              in if h_lrucnt (w_heaps w t) = 1
                 then upd_heap t (\<lambda>hp. hp\<lparr>h_lru := (h_lru hp)\<lparr>e_tail := b\<rparr>\<rparr>) w
                 else w
         else let tl0 = e_tail (h_lru (w_heaps w t))
              in munmap tl0 (b_size (w_blks w tl0)) (on_lru t drop_tail w))"

section \<open>The entry points\<close>

definition nc_malloc :: "nat \<Rightarrow> mmap \<Rightarrow> nat \<Rightarrow> nat \<Rightarrow> world \<Rightarrow> (nat \<times> world) option" where
  "nc_malloc fuel os t sz w =
     (case (if sz \<le> SMALL_MAX then nc_malloc_small os t sz w else nc_malloc_big fuel os t sz w) of
        None \<Rightarrow> None
      | Some (p, w) \<Rightarrow> if p mod 16 = 0 then Some (p, w) else None)"

definition nc_free :: "nat \<Rightarrow> world \<Rightarrow> world" where
  "nc_free p w =
     (if p = 0 then w
      else let h = p - sizeof_hdr;
               b = h_blk (w_hdrs w h);
               a = h_alignment (w_hdrs w h);
               (h, w) = (if a \<noteq> 0
                         then (h - a, set_hdr (h - a) ((w_hdrs w (h - a))\<lparr>h_alignment := 0\<rparr>) w)
                         else (h, w));
               t = b_tid (w_blks w b)
           in if b_small (w_blks w b) then nc_free_small t h w else nc_free_big t h w)"

text \<open>
  \<open>nc_realloc\<close>; the bytes that \<open>memcpy\<close> moves are given as source, destination and number.
\<close>

definition nc_realloc :: "nat \<Rightarrow> mmap \<Rightarrow> nat \<Rightarrow> nat \<Rightarrow> nat \<Rightarrow> world \<Rightarrow>
    (nat \<times> (nat \<times> nat \<times> nat) option \<times> world) option" where
  "nc_realloc fuel os t p newsize w =
     (if p \<noteq> 0
      then let b = h_blk (w_hdrs w (p - sizeof_hdr));
               oldsize = b_size (w_blks w b) - sizeof_hdr;
               oldsize = (if \<not> b_small (w_blks w b) then oldsize - sizeof_blk else oldsize)
           in if newsize > oldsize
              then map_option (\<lambda>(q, w). (q, Some (p, q, oldsize), nc_free p w)) (nc_malloc fuel os t newsize w)
              else Some (p, None, w)
      else map_option (\<lambda>(q, w). (q, None, w)) (nc_malloc fuel os t newsize w))"

definition nc_memalign :: "nat \<Rightarrow> mmap \<Rightarrow> nat \<Rightarrow> nat \<Rightarrow> nat \<Rightarrow> world \<Rightarrow> (nat \<times> world) option" where
  "nc_memalign fuel os t alignment sz w =
     (if alignment = 0 \<or> alignment AND (alignment - 1) \<noteq> 0 then Some (0, w)
      else if alignment \<le> 16 then nc_malloc fuel os t sz w
      else let offs = (if alignment \<ge> sizeof_hdr then alignment else sizeof_hdr)
           in case nc_malloc fuel os t ((offs + sz) mod 2 ^ 64) w of
                None \<Rightarrow> None
              | Some (p0, w) \<Rightarrow>
                  let p1 = (p0 + (offs - 1)) mod 2 ^ 64 div offs * offs;
                      shift = (p1 + 2 ^ 64 - p0) mod 2 ^ 64
                  in if shift > 0
                     then let w = set_hdr (p0 - sizeof_hdr) ((w_hdrs w (p0 - sizeof_hdr))\<lparr>h_alignment := shift\<rparr>) w
                          in Some (p1, set_hdr (p1 - sizeof_hdr) (w_hdrs w (p0 - sizeof_hdr)) w)
                     else Some (p1, w))"

end
