(* ===== verification/NcallocInv.thy ===== *)
theory NcallocInv
  imports Ncalloc
begin

text \<open>
  The invariant of the allocator of \<open>numaplace/ncalloc.c\<close> and its preservation by the
  operations on lists, blocks and chunks. Where each block is (its place) and the lists and
  live buffers are named by a ghost state; the links of the blocks are one half of the
  invariant, what the blocks contain is the other.
\<close>

section \<open>Ghost state\<close>

datatype place = InBin nat nat | Spare nat | Recent nat | Lent nat

fun owner :: "place \<Rightarrow> nat" where
  "owner (InBin t i) = t"
| "owner (Spare t) = t"
| "owner (Recent t) = t"
| "owner (Lent t) = t"

fun listed :: "place \<Rightarrow> bool" where
  "listed (Lent t) = False"
| "listed _ = True"

record ghost =
  g_place :: "nat \<Rightarrow> place option"
  g_list :: "place \<Rightarrow> nat list"
  g_live :: "nat \<Rightarrow> nat option"

section \<open>The lists\<close>

fun spare_list :: "blks \<Rightarrow> nat \<Rightarrow> nat list \<Rightarrow> bool" where
  "spare_list m p [] \<longleftrightarrow> p = 0"
| "spare_list m p (x # xs) \<longleftrightarrow> p = x \<and> x \<noteq> 0 \<and> x \<notin> set xs \<and> spare_list m (b_next (m x)) xs"

fun list_ok :: "blks \<Rightarrow> (nat \<Rightarrow> heap) \<Rightarrow> place \<Rightarrow> nat list \<Rightarrow> bool" where
  "list_ok m hp (InBin t i) xs = linked m (h_bins (hp t) i) xs"
| "list_ok m hp (Spare t) xs = spare_list m (h_blkfree (hp t)) xs"
| "list_ok m hp (Recent t) xs =
     (linked m (h_lru (hp t)) xs \<and> h_lrucnt (hp t) = int (length xs) \<and> length xs \<le> 16)"
| "list_ok m hp (Lent t) xs = True"

definition lists_ok :: "blks \<Rightarrow> (nat \<Rightarrow> heap) \<Rightarrow> ghost \<Rightarrow> bool" where
  "lists_ok m hp g \<longleftrightarrow>
     (\<forall>pl. listed pl \<longrightarrow> list_ok m hp pl (g_list g pl) \<and> (\<forall>b. b \<in> set (g_list g pl) \<longleftrightarrow> g_place g b = Some pl))"

lemma spare_list_frame:
  "(\<And>x. x \<in> set xs \<Longrightarrow> b_next (m' x) = b_next (m x)) \<Longrightarrow> spare_list m' p xs = spare_list m p xs"
  by (induction xs arbitrary: p) auto

lemma list_ok_frame:
  assumes "\<And>x. x \<in> set xs \<Longrightarrow> b_prev (m' x) = b_prev (m x) \<and> b_next (m' x) = b_next (m x)"
  shows "list_ok m' hp pl xs = list_ok m hp pl xs"
  using linked_frame [OF assms] spare_list_frame [of xs m' m] assms by (cases pl) auto

text \<open>Changes to one list: the other lists do not notice.\<close>

definition heap_agree :: "place \<Rightarrow> (nat \<Rightarrow> heap) \<Rightarrow> (nat \<Rightarrow> heap) \<Rightarrow> bool" where
  "heap_agree pl hp hp' \<longleftrightarrow> (\<forall>q m xs. q \<noteq> pl \<longrightarrow> list_ok m hp' q xs = list_ok m hp q xs)"

lemma lists_ok_change_listed:
  assumes l: "lists_ok m hp g" and pl: "listed pl"
    and links: "\<And>b q. g_place g b = Some q \<Longrightarrow> listed q \<Longrightarrow> q \<noteq> pl \<Longrightarrow>
      b_prev (m' b) = b_prev (m b) \<and> b_next (m' b) = b_next (m b)"
    and hp: "heap_agree pl hp hp'"
    and ok: "list_ok m' hp' pl xs"
    and place: "\<And>b. (if b \<in> set xs then g_place g' b = Some pl \<and> (g_place g b = None \<or> g_place g b = Some pl \<or> g_place g b = Some (Lent (owner pl)))
        else if g_place g b = Some pl then g_place g' b = None \<or> g_place g' b = Some (Lent (owner pl))
        else g_place g' b = g_place g b)"
    and gl: "g_list g' = (g_list g)(pl := xs)"
  shows "lists_ok m' hp' g'"
  unfolding lists_ok_def
proof (intro allI impI)
  fix q assume q: "listed q"
  show "list_ok m' hp' q (g_list g' q) \<and> (\<forall>b. b \<in> set (g_list g' q) \<longleftrightarrow> g_place g' b = Some q)"
  proof (cases "q = pl")
    case True
    then show ?thesis using ok place pl by (auto simp: gl split: if_splits) (metis listed.simps(1) option.distinct(1) option.inject)+
  next
    case False
    from l q have lq: "list_ok m hp q (g_list g q)" "\<And>b. b \<in> set (g_list g q) \<longleftrightarrow> g_place g b = Some q"
      by (auto simp: lists_ok_def)
    have "list_ok m' hp' q (g_list g q) = list_ok m hp q (g_list g q)"
      using list_ok_frame [of "g_list g q" m' m hp q] links [OF _ q False] lq(2) False hp
      unfolding heap_agree_def by auto
    moreover have "g_place g' b = Some q \<longleftrightarrow> g_place g b = Some q" for b
      using place [of b] False q by (auto split: if_splits)
    ultimately show ?thesis using lq False by (simp add: gl)
  qed
qed

lemma lists_ok_change:
  assumes l: "lists_ok m hp g" and pl: "listed pl"
    and links: "\<And>b. g_place g b \<noteq> None \<Longrightarrow> g_place g b \<noteq> Some pl \<Longrightarrow>
      b_prev (m' b) = b_prev (m b) \<and> b_next (m' b) = b_next (m b)"
    and hp: "heap_agree pl hp hp'"
    and ok: "list_ok m' hp' pl xs"
    and place: "\<And>b. (if b \<in> set xs then g_place g' b = Some pl \<and> (g_place g b = None \<or> g_place g b = Some pl \<or> g_place g b = Some (Lent (owner pl)))
        else if g_place g b = Some pl then g_place g' b = None \<or> g_place g' b = Some (Lent (owner pl))
        else g_place g' b = g_place g b)"
    and gl: "g_list g' = (g_list g)(pl := xs)"
  shows "lists_ok m' hp' g'"
  by (rule lists_ok_change_listed [OF l pl _ hp ok place gl]) (use links in auto)

section \<open>The contents of blocks\<close>

definition chunk :: "nat \<Rightarrow> nat \<Rightarrow> nat \<Rightarrow> nat" where
  "chunk b z k = b + 64 + z * k"

text \<open>How many chunks were cut, and the free list at the end of the block.\<close>

definition cuts :: "blk \<Rightarrow> nat" where
  "cuts x = nat (b_cnt x - b_restcnt x)"

definition free_list :: "world \<Rightarrow> nat \<Rightarrow> nat list" where
  "free_list w b =
     map (\<lambda>j. w_cells w (b_free (w_blks w b) + 8 * j)) [0..<nat (b_freecnt (w_blks w b))]"

definition good_bin :: "nat \<Rightarrow> bool" where
  "good_bin i \<longleftrightarrow> i < BINCNT \<and> 16 \<le> bin_chunk i \<and> bin_chunk i mod 16 = 0 \<and> bin_chunk i \<le> SMALL_MAX + 16"

definition bin_ok :: "world \<Rightarrow> nat \<Rightarrow> nat \<Rightarrow> bool" where
  "bin_ok w i b \<longleftrightarrow>
     (let x = w_blks w b; z = bin_chunk i in
        good_bin i \<and> b_small x \<and> b_binndx x = i \<and> b_size x = z \<and> b_cnt x = int (chunk_count z) \<and>
        0 \<le> b_restcnt x \<and> b_restcnt x < b_cnt x \<and> 0 \<le> b_freecnt x \<and> b_freecnt x < b_cnt x \<and>
        b_restcnt x + b_freecnt x \<le> b_cnt x \<and>
        b_rest x = chunk b z (cuts x) \<and> b_free x + 8 * nat (b_freecnt x) = b + BLKSIZE \<and>
        distinct (free_list w b) \<and>
        (\<forall>h\<in>set (free_list w b). (\<exists>k<cuts x. h = chunk b z k) \<and> w_hdrs w h = \<lparr>h_blk = b, h_alignment = 0\<rparr>))"

definition blk_len :: "world \<Rightarrow> ghost \<Rightarrow> nat \<Rightarrow> nat" where
  "blk_len w g b =
     (case g_place g b of
        Some (InBin t i) \<Rightarrow> BLKSIZE
      | Some (Spare t) \<Rightarrow> BLKSIZE
      | _ \<Rightarrow> b_size (w_blks w b))"

definition blk_range :: "world \<Rightarrow> ghost \<Rightarrow> nat \<Rightarrow> nat set" where
  "blk_range w g b = {b..<b + blk_len w g b}"

text \<open>The chunk (or the start of the space of a big block) that a buffer lies in.\<close>

definition chunk_of :: "world \<Rightarrow> nat \<Rightarrow> nat" where
  "chunk_of w p = p - 16 - h_alignment (w_hdrs w (p - 16))"

definition live_ok :: "world \<Rightarrow> ghost \<Rightarrow> nat \<Rightarrow> nat \<Rightarrow> bool" where
  "live_ok w g p n \<longleftrightarrow>
     (let a = h_alignment (w_hdrs w (p - 16)); b = h_blk (w_hdrs w (p - 16)); h = chunk_of w p in
        16 + a \<le> p \<and> p mod 16 = 0 \<and> (a = 0 \<or> 16 \<le> a) \<and> w_hdrs w h = \<lparr>h_blk = b, h_alignment = a\<rparr> \<and>
        (case g_place g b of
           Some (InBin t i) \<Rightarrow>
             (\<exists>k<cuts (w_blks w b). h = chunk b (bin_chunk i) k) \<and> h \<notin> set (free_list w b) \<and>
             p + n \<le> h + bin_chunk i
         | Some (Lent t) \<Rightarrow> h = b + 64 \<and> p + n \<le> b + b_size (w_blks w b)
         | _ \<Rightarrow> False))"

definition store_ok :: "world \<Rightarrow> ghost \<Rightarrow> bool" where
  "store_ok w g \<longleftrightarrow>
     (\<forall>b pl. g_place g b = Some pl \<longrightarrow>
        0 < b \<and> b mod 16 = 0 \<and> blk_range w g b \<subseteq> w_mapped w \<and> b_tid (w_blks w b) = owner pl \<and>
        80 \<le> blk_len w g b \<and>
        (case pl of InBin t i \<Rightarrow> bin_ok w i b | Spare t \<Rightarrow> True | _ \<Rightarrow> \<not> b_small (w_blks w b))) \<and>
     (\<forall>b c. g_place g b \<noteq> None \<and> g_place g c \<noteq> None \<and> b \<noteq> c \<longrightarrow> blk_range w g b \<inter> blk_range w g c = {}) \<and>
     (\<forall>p n. g_live g p = Some n \<longrightarrow> live_ok w g p n) \<and>
     (\<forall>p q. g_live g p \<noteq> None \<and> g_live g q \<noteq> None \<and> chunk_of w p = chunk_of w q \<longrightarrow> p = q)"

definition heap_inv :: "world \<Rightarrow> ghost \<Rightarrow> bool" where
  "heap_inv w g \<longleftrightarrow> lists_ok (w_blks w) (w_heaps w) g \<and> store_ok w g"

text \<open>Only the bodies of the blocks matter to their contents.\<close>

definition same_store :: "world \<Rightarrow> world \<Rightarrow> bool" where
  "same_store w w' \<longleftrightarrow> (\<forall>b. body (w_blks w' b) = body (w_blks w b)) \<and>
     w_hdrs w' = w_hdrs w \<and> w_cells w' = w_cells w \<and> w_mapped w' = w_mapped w"

lemma body_fields:
  assumes "body x = body y"
  shows "b_small x = b_small y" "b_tid x = b_tid y" "b_binndx x = b_binndx y" "b_restcnt x = b_restcnt y"
    "b_freecnt x = b_freecnt y" "b_cnt x = b_cnt y" "b_rest x = b_rest y" "b_free x = b_free y"
    "b_size x = b_size y"
  using assms by (cases x; cases y; simp add: body_def)+

lemma same_store_simps:
  assumes "same_store w w'"
  shows "b_small (w_blks w' b) = b_small (w_blks w b)" "b_tid (w_blks w' b) = b_tid (w_blks w b)"
    "b_binndx (w_blks w' b) = b_binndx (w_blks w b)" "b_restcnt (w_blks w' b) = b_restcnt (w_blks w b)"
    "b_freecnt (w_blks w' b) = b_freecnt (w_blks w b)" "b_cnt (w_blks w' b) = b_cnt (w_blks w b)"
    "b_rest (w_blks w' b) = b_rest (w_blks w b)" "b_free (w_blks w' b) = b_free (w_blks w b)"
    "b_size (w_blks w' b) = b_size (w_blks w b)" "w_hdrs w' = w_hdrs w" "w_cells w' = w_cells w"
    "w_mapped w' = w_mapped w"
  using assms body_fields unfolding same_store_def by blast+

lemma same_store_derived:
  assumes "same_store w w'"
  shows "cuts (w_blks w' b) = cuts (w_blks w b)" "free_list w' b = free_list w b" "bin_ok w' i b = bin_ok w i b"
    "blk_len w' g b = blk_len w g b" "chunk_of w' p = chunk_of w p" "live_ok w' g p n = live_ok w g p n"
proof -
  note ss = same_store_simps [OF assms]
  show c: "cuts (w_blks w' b) = cuts (w_blks w b)" for b by (simp add: cuts_def ss)
  show f: "free_list w' b = free_list w b" for b by (simp add: free_list_def ss)
  show "bin_ok w' i b = bin_ok w i b" by (simp add: bin_ok_def Let_def ss c f)
  show "blk_len w' g b = blk_len w g b" by (simp add: blk_len_def ss split: option.splits place.splits)
  show k: "chunk_of w' p = chunk_of w p" for p by (simp add: chunk_of_def ss)
  show "live_ok w' g p n = live_ok w g p n"
    by (simp add: live_ok_def Let_def ss c f k split: option.splits place.splits)
qed

lemma store_ok_same: "same_store w w' \<Longrightarrow> store_ok w' g = store_ok w g"
  by (simp add: store_ok_def blk_range_def same_store_derived same_store_simps cong: place.case_cong)

lemma store_ok_list [simp]: "store_ok w (g\<lparr>g_list := ls\<rparr>) = store_ok w g"
  by (simp add: store_ok_def blk_range_def blk_len_def live_ok_def Let_def cong: place.case_cong option.case_cong)

section \<open>Bounds\<close>

lemma bin_okD:
  assumes "bin_ok w i b"
  defines "x \<equiv> w_blks w b" and "z \<equiv> bin_chunk i"
  shows "good_bin i" "b_small x" "b_binndx x = i" "b_size x = z" "b_cnt x = int (chunk_count z)"
    "0 \<le> b_restcnt x" "b_restcnt x < b_cnt x" "0 \<le> b_freecnt x" "b_freecnt x < b_cnt x"
    "b_restcnt x + b_freecnt x \<le> b_cnt x" "b_rest x = chunk b z (cuts x)"
    "b_free x + 8 * nat (b_freecnt x) = b + BLKSIZE" "distinct (free_list w b)"
    "h \<in> set (free_list w b) \<Longrightarrow> \<exists>k<cuts x. h = chunk b z k"
    "h \<in> set (free_list w b) \<Longrightarrow> w_hdrs w h = \<lparr>h_blk = b, h_alignment = 0\<rparr>"
  using assms by (simp_all add: bin_ok_def Let_def)

lemma cuts_le: "bin_ok w i b \<Longrightarrow> cuts (w_blks w b) \<le> chunk_count (bin_chunk i)"
  using bin_okD(5,6) [of w i b] by (simp add: cuts_def)

text \<open>
  The chunks lie one behind the other between the descriptor and the pointers of the free
  list, even when all chunks of the block are in it.
\<close>

lemma chunk_bounds:
  assumes "bin_ok w i b" "k < chunk_count (bin_chunk i)"
  shows "b + 64 \<le> chunk b (bin_chunk i) k"
    "chunk b (bin_chunk i) k + bin_chunk i + 8 * chunk_count (bin_chunk i) \<le> b + BLKSIZE"
    "chunk b (bin_chunk i) k + bin_chunk i \<le> b_free (w_blks w b)"
    "b_free (w_blks w b) \<le> b + BLKSIZE"
proof -
  let ?z = "bin_chunk i" and ?n = "chunk_count (bin_chunk i)"
  show "b + 64 \<le> chunk b ?z k" by (simp add: chunk_def)
  have "?z * Suc k \<le> ?z * ?n" using assms(2) by (intro mult_le_mono2) simp
  moreover have "64 + ?n * (?z + 8) = 64 + ?z * ?n + 8 * ?n" by (simp add: algebra_simps)
  ultimately show c: "chunk b ?z k + ?z + 8 * ?n \<le> b + BLKSIZE"
    using chunks_fit [of ?z] by (simp add: chunk_def)
  have "nat (b_freecnt (w_blks w b)) \<le> ?n" using bin_okD(5,9) [OF assms(1)] by simp
  with c bin_okD(12) [OF assms(1)] show "chunk b ?z k + ?z \<le> b_free (w_blks w b)"
    "b_free (w_blks w b) \<le> b + BLKSIZE" by linarith+
qed

lemma chunk_inj: "good_bin i \<Longrightarrow> chunk b (bin_chunk i) k = chunk b (bin_chunk i) j \<longleftrightarrow> k = j"
  by (auto simp: chunk_def good_bin_def)

lemma chunks_apart:
  assumes "k \<noteq> j"
  shows "{chunk b z k..<chunk b z k + z} \<inter> {chunk b z j..<chunk b z j + z} = {}"
proof -
  have "chunk b z k + z \<le> chunk b z j \<or> chunk b z j + z \<le> chunk b z k"
  proof (cases "k < j")
    case True
    then have "z * Suc k \<le> z * j" by (intro mult_le_mono2) simp
    then show ?thesis by (simp add: chunk_def)
  next
    case False
    with assms have "z * Suc j \<le> z * k" by (intro mult_le_mono2) simp
    then show ?thesis by (simp add: chunk_def)
  qed
  then show ?thesis by auto
qed

lemma store_okD:
  assumes "store_ok w g"
  shows "g_place g b = Some pl \<Longrightarrow> 0 < b" "g_place g b = Some pl \<Longrightarrow> b mod 16 = 0"
    "g_place g b = Some pl \<Longrightarrow> blk_range w g b \<subseteq> w_mapped w"
    "g_place g b = Some pl \<Longrightarrow> b_tid (w_blks w b) = owner pl"
    "g_place g b = Some pl \<Longrightarrow> 80 \<le> blk_len w g b"
    "g_place g b = Some (InBin t i) \<Longrightarrow> bin_ok w i b"
    "g_place g b = Some (Recent t) \<Longrightarrow> \<not> b_small (w_blks w b)"
    "g_place g b = Some (Lent t) \<Longrightarrow> \<not> b_small (w_blks w b)"
    "g_place g b \<noteq> None \<Longrightarrow> g_place g c \<noteq> None \<Longrightarrow> b \<noteq> c \<Longrightarrow> blk_range w g b \<inter> blk_range w g c = {}"
    "g_live g p = Some n \<Longrightarrow> live_ok w g p n"
    "g_live g p \<noteq> None \<Longrightarrow> g_live g q \<noteq> None \<Longrightarrow> chunk_of w p = chunk_of w q \<Longrightarrow> p = q"
  using assms unfolding store_ok_def by (blast | fastforce)+

lemma live_bounds:
  assumes s: "store_ok w g" and l: "g_live g p = Some n"
  defines "b \<equiv> h_blk (w_hdrs w (p - 16))" and "h \<equiv> chunk_of w p"
  shows "g_place g b \<noteq> None" "b + 64 \<le> h" "h + 16 \<le> p" "p + n \<le> b + blk_len w g b"
    "w_hdrs w h = w_hdrs w (p - 16)" "h_blk (w_hdrs w h) = b"
proof -
  note lo = store_okD(10) [OF s l, unfolded live_ok_def Let_def, folded b_def h_def]
  have h: "h + h_alignment (w_hdrs w (p - 16)) + 16 = p"
    using lo by (simp add: h_def chunk_of_def)
  show "h + 16 \<le> p" using h by simp
  show hb: "w_hdrs w h = w_hdrs w (p - 16)" using lo by (simp add: b_def)
  then show "h_blk (w_hdrs w h) = b" by (simp add: b_def)
  from lo obtain pl where pl: "g_place g b = Some pl" by (cases "g_place g b") auto
  then show "g_place g b \<noteq> None" by simp
  show "b + 64 \<le> h" "p + n \<le> b + blk_len w g b"
  proof -
    have "b + 64 \<le> h \<and> p + n \<le> b + blk_len w g b"
    proof (cases pl)
      case (InBin t i)
      with lo pl obtain k where k: "k < cuts (w_blks w b)" "h = chunk b (bin_chunk i) k"
        "p + n \<le> h + bin_chunk i" by auto
      note ok = store_okD(6) [OF s pl [unfolded InBin]]
      from k(1) cuts_le [OF ok] have kn: "k < chunk_count (bin_chunk i)" by simp
      show ?thesis using chunk_bounds [OF ok kn] k pl InBin by (simp add: blk_len_def)
    qed (use lo pl in \<open>auto simp: blk_len_def\<close>)
    then show "b + 64 \<le> h" "p + n \<le> b + blk_len w g b" by auto
  qed
qed

lemma live_in_range:
  assumes s: "store_ok w g" and l: "g_live g p = Some n"
  defines "b \<equiv> h_blk (w_hdrs w (p - 16))"
  shows "p - 16 \<in> blk_range w g b" "chunk_of w p \<in> blk_range w g b" "{p..<p + n} \<subseteq> blk_range w g b"
  using live_bounds [OF s l, folded b_def] by (auto simp: blk_range_def)

section \<open>What does not concern the placed blocks\<close>

text \<open>A change that leaves the contents of block \<open>b\<close> alone, and at most changes its links.\<close>

definition same_at :: "ghost \<Rightarrow> nat \<Rightarrow> world \<Rightarrow> world \<Rightarrow> bool" where
  "same_at g b w w' \<longleftrightarrow>
     body (w_blks w' b) = body (w_blks w b) \<and> blk_range w g b \<subseteq> w_mapped w' \<and>
     (\<forall>a\<in>blk_range w g b. w_hdrs w' a = w_hdrs w a \<and> w_cells w' a = w_cells w a)"

lemma free_list_range:
  assumes "bin_ok w i b" "g_place g b = Some (InBin t i)" "j < nat (b_freecnt (w_blks w b))"
  shows "b_free (w_blks w b) + 8 * j \<in> blk_range w g b"
proof -
  have "0 < chunk_count (bin_chunk i)" using bin_okD(5,8,9) [OF assms(1)] by simp
  from chunk_bounds(1,3) [OF assms(1) this] bin_okD(12) [OF assms(1)] assms(2,3) show ?thesis
    by (simp add: blk_range_def blk_len_def)
qed

lemma same_at_bin:
  assumes ps: "same_at g b w w'" and ok: "bin_ok w i b" and pl: "g_place g b = Some (InBin t i)"
  shows "free_list w' b = free_list w b" "cuts (w_blks w' b) = cuts (w_blks w b)" "bin_ok w' i b"
proof -
  have bd: "body (w_blks w' b) = body (w_blks w b)" and
    same: "\<And>a. a \<in> blk_range w g b \<Longrightarrow> w_hdrs w' a = w_hdrs w a \<and> w_cells w' a = w_cells w a"
    using ps by (auto simp: same_at_def)
  note bf = body_fields [OF bd]
  show f: "free_list w' b = free_list w b"
    using same free_list_range [OF ok pl] by (simp add: free_list_def bf)
  show c: "cuts (w_blks w' b) = cuts (w_blks w b)" by (simp add: cuts_def bf)
  have "w_hdrs w' h = w_hdrs w h" if "h \<in> set (free_list w b)" for h
  proof -
    from bin_okD(14) [OF ok that] obtain j where j: "j < cuts (w_blks w b)" "h = chunk b (bin_chunk i) j"
      by blast
    with cuts_le [OF ok] obtain k where k: "k < chunk_count (bin_chunk i)" "h = chunk b (bin_chunk i) k"
      by (auto intro: that [of j])
    have "16 \<le> bin_chunk i" using bin_okD(1) [OF ok] by (simp add: good_bin_def)
    with chunk_bounds [OF ok k(1)] k(2) pl have "h \<in> blk_range w g b"
      by (simp add: blk_range_def blk_len_def)
    with same show ?thesis by blast
  qed
  with ok show "bin_ok w' i b" by (simp add: bin_ok_def Let_def bf f c)
qed

lemma same_at_len: "same_at g b w w' \<Longrightarrow> blk_len w' g b = blk_len w g b"
  using body_fields(9) [of "w_blks w' b" "w_blks w b"]
  by (auto simp: same_at_def blk_len_def split: option.splits place.splits)

lemma same_at_live:
  assumes ps: "same_at g (h_blk (w_hdrs w (p - 16))) w w'" and s: "store_ok w g" and l: "g_live g p = Some n"
  shows "chunk_of w' p = chunk_of w p" "live_ok w' g p n"
proof -
  let ?b = "h_blk (w_hdrs w (p - 16))"
  note pl = live_bounds(1) [OF s l] and r = live_in_range [OF s l]
  have same: "\<And>a. a \<in> blk_range w g ?b \<Longrightarrow> w_hdrs w' a = w_hdrs w a"
    and bd: "body (w_blks w' ?b) = body (w_blks w ?b)"
    using ps by (auto simp: same_at_def)
  note hp = same [OF r(1)]
  show c: "chunk_of w' p = chunk_of w p" by (simp add: chunk_of_def hp)
  note hc = same [OF r(2)]
  note bf = body_fields [OF bd]
  note lo = store_okD(10) [OF s l]
  show "live_ok w' g p n"
  proof (cases "g_place g ?b")
    case (Some q)
    show ?thesis
    proof (cases q)
      case (InBin t i)
      with Some have qi: "g_place g ?b = Some (InBin t i)" by simp
      note pb = same_at_bin [OF ps store_okD(6) [OF s qi] qi]
      show ?thesis using lo by (simp add: live_ok_def Let_def hp hc c qi pb)
    qed (use lo Some hc in \<open>auto simp: live_ok_def Let_def hp c bf\<close>)
  qed (use pl in simp)
qed

text \<open>
  Whatever happens to one block, the others keep their part of the invariant: only the block
  itself and the buffers in it are to be looked at.
\<close>

lemma store_change:
  assumes s: "store_ok w g"
    and others: "\<And>c. g_place g c \<noteq> None \<Longrightarrow> c \<noteq> b \<Longrightarrow> same_at g c w w'"
    and own: "\<And>pl. g_place g b = Some pl \<Longrightarrow> blk_len w' g b = blk_len w g b \<and>
      blk_range w g b \<subseteq> w_mapped w' \<and> b_tid (w_blks w' b) = b_tid (w_blks w b) \<and>
      (case pl of InBin t i \<Rightarrow> bin_ok w' i b | Spare t \<Rightarrow> True | _ \<Rightarrow> \<not> b_small (w_blks w' b))"
    and live: "\<And>p n. g_live g p = Some n \<Longrightarrow> h_blk (w_hdrs w (p - 16)) = b \<Longrightarrow>
      chunk_of w' p = chunk_of w p \<and> live_ok w' g p n"
  shows "store_ok w' g"
proof -
  have len: "blk_len w' g c = blk_len w g c" if "g_place g c \<noteq> None" for c
    using that own same_at_len [OF others] by (cases "c = b") auto
  then have range: "blk_range w' g c = blk_range w g c" if "g_place g c \<noteq> None" for c
    using that by (simp add: blk_range_def)
  have blocks: "0 < c \<and> c mod 16 = 0 \<and> blk_range w' g c \<subseteq> w_mapped w' \<and> b_tid (w_blks w' c) = owner pl \<and>
      80 \<le> blk_len w' g c \<and>
      (case pl of InBin t i \<Rightarrow> bin_ok w' i c | Spare t \<Rightarrow> True | _ \<Rightarrow> \<not> b_small (w_blks w' c))"
    if pl: "g_place g c = Some pl" for c pl
  proof (cases "c = b")
    case True
    with pl own [of pl] store_okD(1,2,4,5) [OF s pl] len [of c] range [of c] show ?thesis
      by (cases pl) auto
  next
    case False
    with pl have sa: "same_at g c w w'" by (intro others) auto
    then have bd: "body (w_blks w' c) = body (w_blks w c)" "blk_range w g c \<subseteq> w_mapped w'"
      by (auto simp: same_at_def)
    have "case pl of InBin t i \<Rightarrow> bin_ok w' i c | Spare t \<Rightarrow> True | _ \<Rightarrow> \<not> b_small (w_blks w' c)"
      using store_okD(6,7,8) [OF s] pl body_fields(1) [OF bd(1)] same_at_bin(3) [OF sa]
      by (cases pl) auto
    then show ?thesis
      using store_okD(1,2,4,5) [OF s pl] bd body_fields(2) [OF bd(1)] len [of c] range [of c] pl by simp
  qed
  have lv: "chunk_of w' p = chunk_of w p \<and> live_ok w' g p n" if "g_live g p = Some n" for p n
  proof (cases "h_blk (w_hdrs w (p - 16)) = b")
    case False
    with same_at_live [OF others s that] live_bounds(1) [OF s that] show ?thesis by blast
  qed (use live that in blast)
  have "chunk_of w' p = chunk_of w p" if "g_live g p \<noteq> None" for p using lv that by auto
  with blocks range store_okD(9) [OF s] lv store_okD(11) [OF s] show ?thesis
    unfolding store_ok_def by auto
qed

lemma store_frame:
  assumes "store_ok w g" "\<And>c. g_place g c \<noteq> None \<Longrightarrow> same_at g c w w'"
  shows "store_ok w' g"
proof (rule store_change [OF assms(1), where b = 0])
  show "g_live g p = Some n \<Longrightarrow> h_blk (w_hdrs w (p - 16)) = 0 \<Longrightarrow>
      chunk_of w' p = chunk_of w p \<and> live_ok w' g p n" for p n
    using live_bounds(1) [OF assms(1), of p n] store_okD(1) [OF assms(1), of 0] by auto
qed (use assms store_okD(1) [OF assms(1), of 0] in auto)

text \<open>Placing a block, and dropping one that holds no live buffer.\<close>

lemma live_ok_place:
  assumes "g_place g (h_blk (w_hdrs w (p - 16))) = g_place g' (h_blk (w_hdrs w (p - 16)))"
  shows "live_ok w g p n = live_ok w g' p n"
  using assms by (simp add: live_ok_def Let_def)

lemma store_place:
  assumes s: "store_ok w g" and b: "g_place g b = None" "0 < b" "b mod 16 = 0" "80 \<le> len"
    and len: "blk_len w (g\<lparr>g_place := (g_place g)(b := Some pl)\<rparr>) b = len"
    and apart: "\<And>c. g_place g c \<noteq> None \<Longrightarrow> {b..<b + len} \<inter> blk_range w g c = {}"
    and m: "{b..<b + len} \<subseteq> w_mapped w" and tid: "b_tid (w_blks w b) = owner pl"
    and kind: "case pl of InBin t i \<Rightarrow> bin_ok w i b | Spare t \<Rightarrow> True | _ \<Rightarrow> \<not> b_small (w_blks w b)"
  shows "store_ok w (g\<lparr>g_place := (g_place g)(b := Some pl)\<rparr>)"
proof -
  let ?g = "g\<lparr>g_place := (g_place g)(b := Some pl)\<rparr>"
  have l: "blk_len w ?g c = (if c = b then len else blk_len w g c)" for c
    using len by (cases "c = b") (simp_all add: blk_len_def)
  have live: "live_ok w ?g p n" if "g_live g p = Some n" for p n
  proof -
    have "h_blk (w_hdrs w (p - 16)) \<noteq> b" using live_bounds(1) [OF s that] b(1) by auto
    then show ?thesis using live_ok_place [of g w p ?g n] store_okD(10) [OF s that] by simp
  qed
  have r: "blk_range w ?g c = (if c = b then {b..<b + len} else blk_range w g c)" for c
    by (simp add: blk_range_def l)
  have blocks: "0 < c \<and> c mod 16 = 0 \<and> blk_range w ?g c \<subseteq> w_mapped w \<and> b_tid (w_blks w c) = owner pl' \<and>
      80 \<le> blk_len w ?g c \<and>
      (case pl' of InBin t i \<Rightarrow> bin_ok w i c | Spare t \<Rightarrow> True | _ \<Rightarrow> \<not> b_small (w_blks w c))"
    if "g_place ?g c = Some pl'" for c pl'
  proof (cases "c = b")
    case True
    with that have "pl' = pl" by simp
    with True show ?thesis using b m tid kind unfolding r l by (cases pl) simp_all
  next
    case False
    with that store_okD(1-8) [OF s, of c] show ?thesis unfolding r l by (auto split: place.splits)
  qed
  have "blk_range w ?g c \<inter> blk_range w ?g d = {}"
    if "g_place ?g c \<noteq> None" "g_place ?g d \<noteq> None" "c \<noteq> d" for c d
    using that store_okD(9) [OF s, of c d] apart [of c] apart [of d] by (auto simp: r split: if_splits)
  with blocks live store_okD(11) [OF s] show ?thesis unfolding store_ok_def by simp
qed

lemma store_unplace:
  assumes s: "store_ok w g" and none: "\<And>p n. g_live g p = Some n \<Longrightarrow> h_blk (w_hdrs w (p - 16)) \<noteq> b"
  shows "store_ok w (g\<lparr>g_place := (g_place g)(b := None)\<rparr>)"
proof -
  let ?g = "g\<lparr>g_place := (g_place g)(b := None)\<rparr>"
  have r: "blk_range w ?g c = blk_range w g c" "blk_len w ?g c = blk_len w g c" if "c \<noteq> b" for c
    using that by (simp_all add: blk_range_def blk_len_def)
  have live: "live_ok w ?g p n" if "g_live g p = Some n" for p n
    using live_ok_place [of g w p ?g n] none [OF that] store_okD(10) [OF s that] by simp
  have blocks: "0 < c \<and> c mod 16 = 0 \<and> blk_range w ?g c \<subseteq> w_mapped w \<and> b_tid (w_blks w c) = owner pl' \<and>
      80 \<le> blk_len w ?g c \<and>
      (case pl' of InBin t i \<Rightarrow> bin_ok w i c | Spare t \<Rightarrow> True | _ \<Rightarrow> \<not> b_small (w_blks w c))"
    if "g_place ?g c = Some pl'" for c pl'
    using that store_okD(1-8) [OF s, of c] r [of c] by (auto split: place.splits if_splits)
  have "blk_range w ?g c \<inter> blk_range w ?g d = {}"
    if "g_place ?g c \<noteq> None" "g_place ?g d \<noteq> None" "c \<noteq> d" for c d
    using that store_okD(9) [OF s, of c d] r by (auto split: if_splits)
  with blocks live store_okD(11) [OF s] show ?thesis unfolding store_ok_def by simp
qed

end
