(* ===== verification/NcallocSmall.thy ===== *)
theory NcallocSmall
  imports NcallocInv
begin

text \<open>
  Small buffers: taking a chunk from a block and giving it back keep the invariant of
  \<open>NcallocInv\<close>, with a new or without the old live buffer.
\<close>

section \<open>Updates that touch one part of the world\<close>

lemma upd_simps [simp]:
  "w_blks (upd_blk b f w) = (w_blks w)(b := f (w_blks w b))" "w_hdrs (upd_blk b f w) = w_hdrs w"
  "w_cells (upd_blk b f w) = w_cells w" "w_heaps (upd_blk b f w) = w_heaps w"
  "w_mapped (upd_blk b f w) = w_mapped w"
  "w_blks (upd_heap t hf w) = w_blks w" "w_hdrs (upd_heap t hf w) = w_hdrs w"
  "w_cells (upd_heap t hf w) = w_cells w" "w_heaps (upd_heap t hf w) = (w_heaps w)(t := hf (w_heaps w t))"
  "w_mapped (upd_heap t hf w) = w_mapped w"
  "w_blks (set_hdr h x w) = w_blks w" "w_hdrs (set_hdr h x w) = (w_hdrs w)(h := x)"
  "w_cells (set_hdr h x w) = w_cells w" "w_heaps (set_hdr h x w) = w_heaps w"
  "w_mapped (set_hdr h x w) = w_mapped w"
  "w_blks (munmap a n w) = w_blks w" "w_hdrs (munmap a n w) = w_hdrs w"
  "w_cells (munmap a n w) = w_cells w" "w_heaps (munmap a n w) = w_heaps w"
  "w_mapped (munmap a n w) = w_mapped w - {a..<a + n}"
  by (simp_all add: upd_blk_def upd_heap_def set_hdr_def munmap_def)

definition same_links :: "world \<Rightarrow> world \<Rightarrow> bool" where
  "same_links w w' \<longleftrightarrow> w_heaps w' = w_heaps w \<and>
     (\<forall>b. b_prev (w_blks w' b) = b_prev (w_blks w b) \<and> b_next (w_blks w' b) = b_next (w_blks w b))"

lemma lists_ok_same_links:
  "same_links w w' \<Longrightarrow> lists_ok (w_blks w') (w_heaps w') g = lists_ok (w_blks w) (w_heaps w) g"
  using list_ok_frame [of _ "w_blks w'" "w_blks w"] by (simp add: same_links_def lists_ok_def)

lemma lists_ok_live [simp]: "lists_ok m hp (g\<lparr>g_live := l\<rparr>) = lists_ok m hp g"
  by (simp add: lists_ok_def)

lemma heap_agree_bin:
  "heap_agree (InBin t i) hp (hp(t := (hp t)\<lparr>h_bins := (h_bins (hp t))(i := e)\<rparr>))"
  unfolding heap_agree_def
proof (intro allI impI)
  fix q m xs assume "q \<noteq> InBin t i"
  then show "list_ok m (hp(t := (hp t)\<lparr>h_bins := (h_bins (hp t))(i := e)\<rparr>)) q xs = list_ok m hp q xs"
    by (cases q) auto
qed

text \<open>Rearranging a bin.\<close>

lemma on_bin_permute:
  assumes inv: "heap_inv w g"
    and f: "f (h_bins (w_heaps w t) i) (w_blks w) = (e', m')"
    and lk: "linked m' e' xs" "set xs = set (g_list g (InBin t i))"
    and bd: "\<And>b. body (m' b) = body (w_blks w b)"
    and fr: "\<And>b. b \<notin> set xs \<Longrightarrow> m' b = w_blks w b"
  shows "heap_inv (on_bin t i f w) (g\<lparr>g_list := (g_list g)(InBin t i := xs)\<rparr>)"
    and "same_store w (on_bin t i f w)"
proof -
  let ?w = "on_bin t i f w"
  have w: "w_blks ?w = m'" "w_heaps ?w = (w_heaps w)(t := (w_heaps w t)\<lparr>h_bins := (h_bins (w_heaps w t))(i := e')\<rparr>)"
    by (simp_all add: on_bin_def f)
  show ss: "same_store w ?w" using bd by (simp add: same_store_def w) (simp add: on_bin_def f)
  have l: "lists_ok (w_blks w) (w_heaps w) g" using inv by (simp add: heap_inv_def)
  then have pl: "b \<in> set xs \<longleftrightarrow> g_place g b = Some (InBin t i)" for b
    unfolding lists_ok_def lk(2) by simp
  have "lists_ok (w_blks ?w) (w_heaps ?w) (g\<lparr>g_list := (g_list g)(InBin t i := xs)\<rparr>)"
    unfolding w by (rule lists_ok_change [OF l _ _ heap_agree_bin, where xs = xs])
      (use pl fr lk(1) in auto)
  with ss inv show "heap_inv ?w (g\<lparr>g_list := (g_list g)(InBin t i := xs)\<rparr>)"
    by (simp add: heap_inv_def store_ok_same)
qed

lemma bin_list:
  assumes "heap_inv w g"
  shows "linked (w_blks w) (h_bins (w_heaps w t) i) (g_list g (InBin t i))"
    "b \<in> set (g_list g (InBin t i)) \<longleftrightarrow> g_place g b = Some (InBin t i)"
  using assms unfolding heap_inv_def lists_ok_def by (metis list_ok.simps(1) listed.simps(2))+

context reorder
begin

lemma on_bin_reorder:
  assumes inv: "heap_inv w g" and l: "g_list g (InBin t i) = xs @ b # ys" and xs: "before xs"
  obtains zs where "heap_inv (on_bin t i (f b) w) (g\<lparr>g_list := (g_list g)(InBin t i := zs)\<rparr>)"
    "same_store w (on_bin t i (f b) w)"
proof -
  obtain e' m' where u: "f b (h_bins (w_heaps w t) i) (w_blks w) = (e', m')" by (meson surj_pair)
  have lk: "linked (w_blks w) (h_bins (w_heaps w t) i) (xs @ b # ys)"
    using bin_list(1) [OF inv, of t i] by (simp add: l)
  from relinks [OF lk xs u] obtain zs where zs: "linked m' e' zs" "set zs = set (g_list g (InBin t i))"
    unfolding l by blast
  have "b \<in> set (xs @ b # ys)" by simp
  then have "m' x = w_blks w x" if "x \<notin> set zs" for x
    using that unfolding zs(2) l by (rule keeps_others [OF lk _ _ u])
  from on_bin_permute [where f = "f b", OF inv u zs keeps_body [OF u] this] that show ?thesis by blast
qed

end

lemma bin_head:
  assumes "heap_inv w g" "e_head (h_bins (w_heaps w t) i) = b" "b \<noteq> 0"
  obtains ys where "g_list g (InBin t i) = b # ys" "g_place g b = Some (InBin t i)"
proof -
  have "e_head (h_bins (w_heaps w t) i) = (if g_list g (InBin t i) = [] then 0 else hd (g_list g (InBin t i)))"
    using bin_list(1) [OF assms(1)] by (simp add: linked_def)
  with assms(2,3) have "g_list g (InBin t i) \<noteq> []" "hd (g_list g (InBin t i)) = b"
    by (simp_all split: if_splits)
  then have "g_list g (InBin t i) = b # tl (g_list g (InBin t i))" by (metis list.collapse)
  moreover from this have "b \<in> set (g_list g (InBin t i))" by (metis list.set_intros(1))
  ultimately show ?thesis using that bin_list(2) [OF assms(1)] by blast
qed

section \<open>Taking a chunk\<close>

text \<open>A chunk that is neither free nor part of a live buffer.\<close>

definition taken :: "world \<Rightarrow> ghost \<Rightarrow> nat \<Rightarrow> nat \<Rightarrow> nat \<Rightarrow> bool" where
  "taken w g i b h \<longleftrightarrow> (\<exists>t. g_place g b = Some (InBin t i)) \<and> (\<exists>k<cuts (w_blks w b). h = chunk b (bin_chunk i) k) \<and>
     h \<notin> set (free_list w b) \<and> w_hdrs w h = \<lparr>h_blk = b, h_alignment = 0\<rparr> \<and>
     (\<forall>p n. g_live g p = Some n \<longrightarrow> chunk_of w p \<noteq> h)"

lemma taken_same: "same_store w w' \<Longrightarrow> taken w' g i b h = taken w g i b h"
  by (simp add: taken_def same_store_derived same_store_simps)

lemma taken_list [simp]: "taken w (g\<lparr>g_list := ls\<rparr>) i b h = taken w g i b h"
  by (simp add: taken_def)

lemma live_ok_live [simp]: "live_ok w (g\<lparr>g_live := l\<rparr>) p n = live_ok w g p n"
  by (simp add: live_ok_def)

lemma blk_len_live [simp]: "blk_len w (g\<lparr>g_live := l\<rparr>) b = blk_len w g b"
  "blk_range w (g\<lparr>g_live := l\<rparr>) b = blk_range w g b"
  by (simp_all add: blk_len_def blk_range_def)

lemma store_ok_live_upd:
  assumes "store_ok w g" "\<And>p n. l p = Some n \<Longrightarrow> live_ok w g p n"
    and "\<And>p q. l p \<noteq> None \<Longrightarrow> l q \<noteq> None \<Longrightarrow> chunk_of w p = chunk_of w q \<Longrightarrow> p = q"
  shows "store_ok w (g\<lparr>g_live := l\<rparr>)"
proof -
  have pl: "g_place (g\<lparr>g_live := l\<rparr>) = g_place g" "g_live (g\<lparr>g_live := l\<rparr>) = l" by simp_all
  show ?thesis
    unfolding store_ok_def blk_len_live live_ok_live pl
    using assms(1) [unfolded store_ok_def] assms(2,3) by blast
qed

lemma add_live_at:
  assumes s: "store_ok w g" and live: "live_ok w g p n"
    and other: "\<And>q m. g_live g q = Some m \<Longrightarrow> chunk_of w q \<noteq> chunk_of w p"
  shows "store_ok w (g\<lparr>g_live := (g_live g)(p := Some n)\<rparr>)" "g_live g p = None"
proof -
  show "g_live g p = None" using other by (cases "g_live g p") auto
  show "store_ok w (g\<lparr>g_live := (g_live g)(p := Some n)\<rparr>)"
  proof (rule store_ok_live_upd [OF s])
    show "live_ok w g q m" if "((g_live g)(p := Some n)) q = Some m" for q m
      using that live store_okD(10) [OF s] by (cases "q = p") simp_all
    show "q = r" if qr: "((g_live g)(p := Some n)) q \<noteq> None" "((g_live g)(p := Some n)) r \<noteq> None"
        "chunk_of w q = chunk_of w r" for q r
    proof (cases "q = p"; cases "r = p")
      assume "q = p" "r \<noteq> p"
      with qr other [of r] show ?thesis by auto
    next
      assume "q \<noteq> p" "r = p"
      with qr other [of q] show ?thesis by auto
    next
      assume "q \<noteq> p" "r \<noteq> p"
      with qr store_okD(11) [OF s, of q r] show ?thesis by simp
    qed simp
  qed
qed

lemma add_live:
  assumes s: "store_ok w g" and tk: "taken w g i b h" and n: "n + 16 \<le> bin_chunk i"
  shows "store_ok w (g\<lparr>g_live := (g_live g)(h + 16 := Some n)\<rparr>)" "g_live g (h + 16) = None"
    "(h + 16) mod 16 = 0"
proof -
  from tk obtain t k where tk': "g_place g b = Some (InBin t i)" "k < cuts (w_blks w b)"
    "h = chunk b (bin_chunk i) k" "h \<notin> set (free_list w b)" "w_hdrs w h = \<lparr>h_blk = b, h_alignment = 0\<rparr>"
    "\<And>p n. g_live g p = Some n \<Longrightarrow> chunk_of w p \<noteq> h" by (auto simp: taken_def)
  have c: "chunk_of w (h + 16) = h" by (simp add: chunk_of_def tk'(5))
  have "16 dvd b" using store_okD(2) [OF s tk'(1)] by (simp add: mod_eq_0_iff_dvd)
  moreover have "16 dvd bin_chunk i"
    using bin_okD(1) [OF store_okD(6) [OF s tk'(1)]] by (simp add: good_bin_def mod_eq_0_iff_dvd)
  ultimately have "16 dvd h" unfolding tk'(3) chunk_def by simp
  then show al: "(h + 16) mod 16 = 0" by (simp add: mod_eq_0_iff_dvd)
  have "live_ok w g (h + 16) n"
    using tk'(1,2,4,5) n al by (simp add: live_ok_def Let_def c) (use tk'(3) in blast)
  from add_live_at [OF s this] c tk'(6)
  show "store_ok w (g\<lparr>g_live := (g_live g)(h + 16 := Some n)\<rparr>)" "g_live g (h + 16) = None" by auto
qed

lemma remove_live:
  assumes "store_ok w g"
  shows "store_ok w (g\<lparr>g_live := (g_live g)(p := None)\<rparr>)"
  using store_okD(10,11) [OF assms] by (intro store_ok_live_upd [OF assms]) (auto split: if_splits)

section \<open>Changes to one block of a bin\<close>

text \<open>A live buffer lies, with its header, in its chunk.\<close>

lemma live_in_chunk:
  assumes s: "store_ok w g" and l: "g_live g p = Some n" and pl: "g_place g b = Some (InBin t i)"
    and b: "h_blk (w_hdrs w (p - 16)) = b"
  obtains k where "k < cuts (w_blks w b)" "chunk_of w p = chunk b (bin_chunk i) k"
    "chunk_of w p \<notin> set (free_list w b)" "chunk_of w p \<le> p - 16" "16 \<le> p"
    "p + n \<le> chunk_of w p + bin_chunk i"
proof -
  have "(\<exists>k<cuts (w_blks w b). chunk_of w p = chunk b (bin_chunk i) k) \<and>
      chunk_of w p \<notin> set (free_list w b) \<and> p + n \<le> chunk_of w p + bin_chunk i \<and>
      16 + h_alignment (w_hdrs w (p - 16)) \<le> p"
    using store_okD(10) [OF s l] pl b by (simp add: live_ok_def Let_def)
  moreover have "chunk_of w p \<le> p - 16" by (simp add: chunk_of_def)
  ultimately show ?thesis using that by auto
qed

lemma chunk_in_blk:
  assumes "bin_ok w i b" "g_place g b = Some (InBin t i)" "k < chunk_count (bin_chunk i)"
    and "chunk b (bin_chunk i) k \<le> a" "a < chunk b (bin_chunk i) k + bin_chunk i"
  shows "a \<in> blk_range w g b"
  using chunk_bounds(1,2) [OF assms(1,3)] assms(2,4,5) by (simp add: blk_range_def blk_len_def)

lemma bin_change:
  assumes s: "store_ok w g" and pl: "g_place g b = Some (InBin t i)"
    and w': "w_mapped w' = w_mapped w" "\<And>c. c \<noteq> b \<Longrightarrow> w_blks w' c = w_blks w c"
      "\<And>a. a \<notin> blk_range w g b \<Longrightarrow> w_hdrs w' a = w_hdrs w a \<and> w_cells w' a = w_cells w a"
    and own: "bin_ok w' i b" "b_tid (w_blks w' b) = b_tid (w_blks w b)"
    and lv: "\<And>p n k. g_live g p = Some n \<Longrightarrow> h_blk (w_hdrs w (p - 16)) = b \<Longrightarrow> k < cuts (w_blks w b) \<Longrightarrow>
      chunk_of w p = chunk b (bin_chunk i) k \<Longrightarrow> k < cuts (w_blks w' b) \<and> chunk_of w p \<notin> set (free_list w' b) \<and>
      (\<forall>a. chunk_of w p \<le> a \<and> a < chunk_of w p + bin_chunk i \<longrightarrow> w_hdrs w' a = w_hdrs w a)"
  shows "store_ok w' g"
proof (rule store_change [OF s, where b = b])
  show "same_at g c w w'" if "g_place g c \<noteq> None" "c \<noteq> b" for c
  proof -
    have "blk_range w g c \<inter> blk_range w g b = {}" using store_okD(9) [OF s, of c b] that pl by simp
    moreover have "blk_range w g c \<subseteq> w_mapped w'" using store_okD(3) [OF s] that(1) w'(1) by auto
    ultimately show ?thesis using w'(2) [OF that(2)] w'(3) unfolding same_at_def by auto
  qed
  show "blk_len w' g b = blk_len w g b \<and> blk_range w g b \<subseteq> w_mapped w' \<and>
      b_tid (w_blks w' b) = b_tid (w_blks w b) \<and>
      (case q of InBin t i \<Rightarrow> bin_ok w' i b | Spare t \<Rightarrow> True | _ \<Rightarrow> \<not> b_small (w_blks w' b))"
    if "g_place g b = Some q" for q
  proof -
    from that pl have q: "q = InBin t i" by simp
    show ?thesis unfolding q using pl own store_okD(3) [OF s pl] w'(1) by (simp add: blk_len_def)
  qed
next
  fix p n assume l: "g_live g p = Some n" and b: "h_blk (w_hdrs w (p - 16)) = b"
  from live_in_chunk [OF s l pl b] obtain k where k: "k < cuts (w_blks w b)"
    "chunk_of w p = chunk b (bin_chunk i) k" "chunk_of w p \<notin> set (free_list w b)"
    "chunk_of w p \<le> p - 16" "16 \<le> p" "p + n \<le> chunk_of w p + bin_chunk i" .
  note lw = lv [OF l b k(1,2)]
  have z: "16 \<le> bin_chunk i" using bin_okD(1) [OF own(1)] by (simp add: good_bin_def)
  from k(4-6) lw z have hd: "w_hdrs w' (p - 16) = w_hdrs w (p - 16)" by simp
  from lw z have hc: "w_hdrs w' (chunk_of w p) = w_hdrs w (chunk_of w p)" by simp
  have c: "chunk_of w' p = chunk_of w p" by (simp add: chunk_of_def hd)
  moreover have "\<exists>j<cuts (w_blks w' b). chunk_of w p = chunk b (bin_chunk i) j" using lw k(2) by blast
  then have "live_ok w' g p n"
    using store_okD(10) [OF s l, unfolded live_ok_def Let_def b] lw k(6) pl
    by (simp add: live_ok_def Let_def hd hc c b)
  ultimately show "chunk_of w' p = chunk_of w p \<and> live_ok w' g p n" ..
qed

text \<open>A chunk of a block belongs to no live buffer of another.\<close>

lemma foreign_chunk:
  assumes s: "store_ok w g" and pl: "g_place g b = Some pl" and h: "h \<in> blk_range w g b"
    and l: "g_live g p = Some n" and c: "chunk_of w p = h"
  shows "h_blk (w_hdrs w (p - 16)) = b"
proof (rule ccontr)
  let ?b = "h_blk (w_hdrs w (p - 16))"
  assume "?b \<noteq> b"
  with store_okD(9) [OF s, of ?b b] live_bounds(1) [OF s l] pl
  have "blk_range w g ?b \<inter> blk_range w g b = {}" by simp
  with live_in_range(2) [OF s l] c h show False by auto
qed

text \<open>No header of a live buffer lies in a chunk that is not its own.\<close>

lemma outside_chunk:
  assumes s: "store_ok w g" and pl: "g_place g b = Some (InBin t i)"
    and k: "k < chunk_count (bin_chunk i)" and h: "h = chunk b (bin_chunk i) k"
    and l: "g_live g p = Some n" and c: "chunk_of w p \<noteq> h"
  shows "p - 16 \<notin> {h..<h + bin_chunk i}"
    "h_blk (w_hdrs w (p - 16)) = b \<Longrightarrow> {chunk_of w p..<chunk_of w p + bin_chunk i} \<inter> {h..<h + bin_chunk i} = {}"
proof -
  let ?z = "bin_chunk i"
  note ok = store_okD(6) [OF s pl]
  have own: "p - 16 \<in> {chunk_of w p..<chunk_of w p + ?z} \<and> {chunk_of w p..<chunk_of w p + ?z} \<inter> {h..<h + ?z} = {}"
    if b: "h_blk (w_hdrs w (p - 16)) = b"
  proof -
    from live_in_chunk [OF s l pl b] obtain j where j: "chunk_of w p = chunk b ?z j"
      "chunk_of w p \<le> p - 16" "16 \<le> p" "p + n \<le> chunk_of w p + ?z" .
    with c h have "j \<noteq> k" by auto
    from chunks_apart [OF this, of b ?z] j show ?thesis by (simp add: h)
  qed
  then show "h_blk (w_hdrs w (p - 16)) = b \<Longrightarrow> {chunk_of w p..<chunk_of w p + ?z} \<inter> {h..<h + ?z} = {}" by blast
  show "p - 16 \<notin> {h..<h + ?z}"
  proof (cases "h_blk (w_hdrs w (p - 16)) = b")
    case False
    with store_okD(9) [OF s, of _ b] live_bounds(1) [OF s l] pl
    have "blk_range w g (h_blk (w_hdrs w (p - 16))) \<inter> blk_range w g b = {}" by simp
    moreover have "{h..<h + ?z} \<subseteq> blk_range w g b" using chunk_in_blk [OF ok pl k] by (auto simp: h)
    ultimately show ?thesis using live_in_range(1) [OF s l] by blast
  qed (use own in blast)
qed

lemma cut_chunk_store:
  assumes s: "store_ok w g" and pl: "g_place g b = Some (InBin t i)"
    and r: "b_restcnt (w_blks w b) \<noteq> 0" and c: "cut_chunk b (bin_chunk i) w = (h, w')"
  shows "store_ok w' g" "taken w' g i b h" "same_links w w'"
proof -
  let ?x = "w_blks w b" and ?z = "bin_chunk i"
  note ok = store_okD(6) [OF s pl]
  note okD = bin_okD [OF ok]
  have h: "h = chunk b ?z (cuts ?x)" using c okD(11) by (simp add: cut_chunk_def Let_def)
  have w': "w' = set_hdr h \<lparr>h_blk = b, h_alignment = 0\<rparr>
      (upd_blk b (\<lambda>x. x\<lparr>b_restcnt := b_restcnt x - 1, b_rest := b_rest x + ?z\<rparr>) w)"
    using c by (auto simp: cut_chunk_def Let_def)
  have cu: "cuts (w_blks w' b) = Suc (cuts ?x)" using okD(6,7) r by (simp add: w' cuts_def)
  have lt: "cuts ?x < chunk_count ?z" using okD(5,6,7) r unfolding cuts_def by linarith
  have z: "16 \<le> ?z" using okD(1) by (simp add: good_bin_def)
  have f: "free_list w' b = free_list w b" by (simp add: w' free_list_def)
  have hf: "h \<notin> set (free_list w b)"
    using okD(14) [of h] by (auto simp: h chunk_inj [OF okD(1)])
  have hr: "h \<in> blk_range w g b" using chunk_in_blk [OF ok pl lt, of h] z by (simp add: h)
  have hd: "w_hdrs w' = (w_hdrs w)(h := \<lparr>h_blk = b, h_alignment = 0\<rparr>)" by (simp add: w')
  have ok': "bin_ok w' i b"
    using okD(1-13) r hf okD(14,15)
    by (simp add: bin_ok_def Let_def f cu hd) (auto simp: w' chunk_def less_Suc_eq)
  show sl: "same_links w w'" by (simp add: same_links_def w')
  show "store_ok w' g"
  proof (rule bin_change [OF s pl _ _ _ ok'])
    fix p n k assume k: "k < cuts ?x" and ck: "chunk_of w p = chunk b ?z k"
      and l: "g_live g p = Some n" and b: "h_blk (w_hdrs w (p - 16)) = b"
    from live_in_chunk [OF s l pl b] have nf: "chunk_of w p \<notin> set (free_list w b)" by blast
    have "chunk_of w p \<noteq> h" using k chunk_inj [OF okD(1), of b k "cuts ?x"] by (simp add: ck h)
    from outside_chunk(2) [OF s pl lt h l this b] z have "h \<notin> {chunk_of w p..<chunk_of w p + ?z}" by auto
    with k nf show "k < cuts (w_blks w' b) \<and> chunk_of w p \<notin> set (free_list w' b) \<and>
      (\<forall>a. chunk_of w p \<le> a \<and> a < chunk_of w p + ?z \<longrightarrow> w_hdrs w' a = w_hdrs w a)"
      by (auto simp: cu f hd)
  qed (use hr in \<open>auto simp: w'\<close>)
  have "chunk_of w' p \<noteq> h" if l: "g_live g p = Some n" for p n
  proof -
    have c: "chunk_of w p \<noteq> h"
    proof
      assume eq: "chunk_of w p = h"
      from live_in_chunk [OF s l pl foreign_chunk [OF s pl hr l eq]] obtain k where
        "k < cuts ?x" "chunk_of w p = chunk b ?z k" .
      with eq chunk_inj [OF okD(1)] show False by (simp add: h)
    qed
    from outside_chunk(1) [OF s pl lt h l c] z have "p - 16 \<noteq> h" by auto
    then have "chunk_of w' p = chunk_of w p" by (simp add: chunk_of_def hd)
    with c show ?thesis by simp
  qed
  then show "taken w' g i b h"
    using pl lt hf cu by (auto simp: taken_def f hd h)
qed

text \<open>The other way to a chunk: the first of the free list.\<close>

lemma pop_free_store:
  assumes s: "store_ok w g" and pl: "g_place g b = Some (InBin t i)"
    and r: "b_freecnt (w_blks w b) \<noteq> 0"
    and h: "h = w_cells w (b_free (w_blks w b))"
    and w': "w' = upd_blk b (\<lambda>x. x\<lparr>b_freecnt := b_freecnt x - 1, b_free := b_free x + sizeof_ptr\<rparr>) w"
  shows "store_ok w' g" "taken w' g i b h" "same_links w w'"
proof -
  let ?x = "w_blks w b" and ?z = "bin_chunk i"
  note ok = store_okD(6) [OF s pl]
  note okD = bin_okD [OF ok]
  obtain m where m: "nat (b_freecnt ?x) = Suc m" using r okD(8) by (cases "nat (b_freecnt ?x)") auto
  then have m1: "nat (b_freecnt ?x - 1) = m" by linarith
  have f: "free_list w b = h # free_list w' b"
    by (simp add: free_list_def m m1 w' h sizeof_ptr_def add.assoc upt_conv_Cons o_def
        map_Suc_upt [symmetric] del: upt_Suc)
  show sl: "same_links w w'" by (simp add: same_links_def w')
  have cu: "cuts (w_blks w' b) = cuts ?x" by (simp add: w' cuts_def)
  have ok': "bin_ok w' i b"
    using okD(1-13) m r okD(14,15)
    by (simp add: bin_ok_def Let_def f cu) (auto simp: w' sizeof_ptr_def)
  show s': "store_ok w' g"
  proof (rule bin_change [OF s pl _ _ _ ok'])
    fix p n k assume k: "k < cuts ?x" and l: "g_live g p = Some n" and b: "h_blk (w_hdrs w (p - 16)) = b"
    from live_in_chunk [OF s l pl b] have "chunk_of w p \<notin> set (free_list w b)" by blast
    moreover have "w_hdrs w' = w_hdrs w" by (simp add: w')
    ultimately show "k < cuts (w_blks w' b) \<and> chunk_of w p \<notin> set (free_list w' b) \<and>
      (\<forall>a. chunk_of w p \<le> a \<and> a < chunk_of w p + ?z \<longrightarrow> w_hdrs w' a = w_hdrs w a)"
      using k by (simp add: cu f)
  qed (auto simp: w')
  have hh: "w_hdrs w h = \<lparr>h_blk = b, h_alignment = 0\<rparr>" using okD(15) [of h] by (simp add: f)
  have "chunk_of w' p \<noteq> h" if l: "g_live g p = Some n" for p n
  proof
    assume "chunk_of w' p = h"
    then have c: "chunk_of w p = h" by (simp add: chunk_of_def w')
    with store_okD(10) [OF s l] hh have "h_blk (w_hdrs w (p - 16)) = b" by (simp add: live_ok_def Let_def)
    from live_in_chunk [OF s l pl this] c show False by (simp add: f)
  qed
  moreover have "\<exists>k<cuts ?x. h = chunk b ?z k" using okD(14) [of h] by (simp add: f)
  ultimately show "taken w' g i b h"
    using pl okD(13) hh by (simp add: taken_def cu f) (simp add: w')
qed

lemma take_chunk_store:
  assumes s: "store_ok w g" and pl: "g_place g b = Some (InBin t i)"
    and tk: "take_chunk b (bin_chunk i) w = (h, w')"
  shows "store_ok w' g" "same_links w w'"
    "b_restcnt (w_blks w b) + b_freecnt (w_blks w b) \<noteq> 0 \<Longrightarrow> taken w' g i b h"
    "b_restcnt (w_blks w b) + b_freecnt (w_blks w b) = 0 \<Longrightarrow> h = 0 \<and> w' = w"
proof -
  note ok = bin_okD [OF store_okD(6) [OF s pl]]
  have all: "store_ok w' g \<and> same_links w w' \<and>
     (b_restcnt (w_blks w b) + b_freecnt (w_blks w b) \<noteq> 0 \<longrightarrow> taken w' g i b h) \<and>
     (b_restcnt (w_blks w b) + b_freecnt (w_blks w b) = 0 \<longrightarrow> h = 0 \<and> w' = w)"
  proof (cases "b_restcnt (w_blks w b) = 0")
    case False
    with tk have "cut_chunk b (bin_chunk i) w = (h, w')" by (simp add: take_chunk_def)
    from cut_chunk_store [OF s pl False this] ok(6,8) False show ?thesis by simp
  next
    case True
    show ?thesis
    proof (cases "b_freecnt (w_blks w b) = 0")
      case True
      with \<open>b_restcnt (w_blks w b) = 0\<close> tk s show ?thesis by (simp add: take_chunk_def same_links_def)
    next
      case False
      with True tk have "h = w_cells w (b_free (w_blks w b))"
        "w' = upd_blk b (\<lambda>x. x\<lparr>b_freecnt := b_freecnt x - 1, b_free := b_free x + sizeof_ptr\<rparr>) w"
        by (simp_all add: take_chunk_def)
      from pop_free_store [OF s pl False this] True False show ?thesis by simp
    qed
  qed
  then show "store_ok w' g" "same_links w w'"
    "b_restcnt (w_blks w b) + b_freecnt (w_blks w b) \<noteq> 0 \<Longrightarrow> taken w' g i b h"
    "b_restcnt (w_blks w b) + b_freecnt (w_blks w b) = 0 \<Longrightarrow> h = 0 \<and> w' = w" by blast+
qed

lemma taken_pos: "store_ok w g \<Longrightarrow> taken w g i b h \<Longrightarrow> 0 < h"
  by (auto simp: taken_def chunk_def)

lemma same_linksD:
  assumes "same_links w w'"
  shows "w_heaps w' = w_heaps w" "lists_ok (w_blks w') (w_heaps w') g = lists_ok (w_blks w) (w_heaps w) g"
proof -
  show "w_heaps w' = w_heaps w" using assms by (simp add: same_links_def)
qed (rule lists_ok_same_links [OF assms])

text \<open>
  A chunk from the block at the head of the bin. The assertions of the code on the counters
  hold, and without a chunk there the block goes to the tail.
\<close>

lemma from_head_inv:
  assumes inv: "heap_inv w g"
  obtains h w' xs b where "from_head t i (bin_chunk i) w = Some (h, w')"
    "heap_inv w' (g\<lparr>g_list := (g_list g)(InBin t i := xs)\<rparr>)"
    "h = 0 \<or> taken w' (g\<lparr>g_list := (g_list g)(InBin t i := xs)\<rparr>) i b h \<and> g_place g b = Some (InBin t i)"
proof (cases "e_head (h_bins (w_heaps w t) i) = 0")
  case True
  moreover have "g\<lparr>g_list := (g_list g)(InBin t i := g_list g (InBin t i))\<rparr> = g" by simp
  ultimately show ?thesis using inv that [of 0 w "g_list g (InBin t i)" 0] by (simp add: from_head_def)
next
  case False
  let ?b = "e_head (h_bins (w_heaps w t) i)"
  from bin_head [OF inv refl False] obtain ys where
    ys: "g_list g (InBin t i) = ?b # ys" and pl: "g_place g ?b = Some (InBin t i)" .
  have s: "store_ok w g" using inv by (simp add: heap_inv_def)
  note ok = bin_okD(6-9) [OF store_okD(6) [OF s pl]]
  obtain h w1 where tk: "take_chunk ?b (bin_chunk i) w = (h, w1)" by (meson surj_pair)
  note st = take_chunk_store [OF s pl tk]
  have inv1: "heap_inv w1 g" using st(1) same_linksD(2) [OF st(2)] inv by (simp add: heap_inv_def)
  have tk1: "h = 0 \<or> taken w1 g i ?b h" using st(3,4) by blast
  show ?thesis
  proof (cases "b_restcnt (w_blks w1 ?b) + b_freecnt (w_blks w1 ?b) = 0")
    case full: True
    from to_tail.on_bin_reorder [OF inv1, where xs = "[]", unfolded append_Nil, OF ys refl] obtain zs where
      perm: "heap_inv (on_bin t i (move_to_tail ?b) w1) (g\<lparr>g_list := (g_list g)(InBin t i := zs)\<rparr>)"
      "same_store w1 (on_bin t i (move_to_tail ?b) w1)" .
    have "from_head t i (bin_chunk i) w = Some (h, on_bin t i (move_to_tail ?b) w1)"
      using False ok tk full by (simp add: from_head_def)
    moreover have "h = 0 \<or> taken (on_bin t i (move_to_tail ?b) w1) g i ?b h"
      using tk1 taken_same [OF perm(2), of g i ?b h] by blast
    ultimately show ?thesis
      by (intro that [OF _ perm(1), of h ?b]) (simp_all add: pl)
  next
    case some: False
    have g: "g\<lparr>g_list := (g_list g)(InBin t i := g_list g (InBin t i))\<rparr> = g" by simp
    have "from_head t i (bin_chunk i) w = Some (h, w1)"
      using False ok tk some by (simp add: from_head_def)
    then show ?thesis
      by (rule that [of h w1 "g_list g (InBin t i)" ?b, unfolded g]) (use inv1 tk1 pl in blast)+
  qed
qed

end
