(* ===== verification/NcallocNew.thy ===== *)
theory NcallocNew
  imports NcallocSmall
begin

text \<open>
  Blocks that belong to no list: newly mapped or taken from the spare ones. A new block with
  its first chunk joins the bin, which completes \<open>nc_malloc_small\<close>.
\<close>

section \<open>Fresh blocks\<close>

definition fresh :: "world \<Rightarrow> ghost \<Rightarrow> nat \<Rightarrow> nat \<Rightarrow> bool" where
  "fresh w g b len \<longleftrightarrow> g_place g b = None \<and> 0 < b \<and> b mod 16 = 0 \<and> {b..<b + len} \<subseteq> w_mapped w \<and>
     (\<forall>c. g_place g c \<noteq> None \<longrightarrow> {b..<b + len} \<inter> blk_range w g c = {})"

text \<open>The documented behaviour of \<open>mmap\<close>: a page-aligned range that was not mapped before.\<close>

definition good_mmap :: "mmap \<Rightarrow> bool" where
  "good_mmap os \<longleftrightarrow>
     (\<forall>m len a. os m len = Some a \<longrightarrow> 0 < a \<and> a mod 4096 = 0 \<and> {a..<a + len} \<inter> m = {})"

text \<open>The placed blocks, their lists and the live buffers do not notice what is done elsewhere.\<close>

lemma heap_frame:
  assumes inv: "heap_inv w g" and hp: "w_heaps w' = w_heaps w"
    and blks: "\<And>c. g_place g c \<noteq> None \<Longrightarrow> w_blks w' c = w_blks w c"
    and mapped: "\<And>c. g_place g c \<noteq> None \<Longrightarrow> blk_range w g c \<subseteq> w_mapped w'"
    and mem: "\<And>c a. g_place g c \<noteq> None \<Longrightarrow> a \<in> blk_range w g c \<Longrightarrow> w_hdrs w' a = w_hdrs w a \<and> w_cells w' a = w_cells w a"
  shows "heap_inv w' g"
proof -
  have "store_ok w' g"
    by (rule store_frame [of w]) (use inv blks mapped mem in \<open>auto simp: same_at_def heap_inv_def\<close>)
  moreover have "lists_ok (w_blks w') (w_heaps w') g"
    unfolding lists_ok_def
  proof (intro allI impI)
    fix pl assume "listed pl"
    with inv have pl: "list_ok (w_blks w) (w_heaps w) pl (g_list g pl)"
      "\<And>b. b \<in> set (g_list g pl) \<longleftrightarrow> g_place g b = Some pl" by (auto simp: heap_inv_def lists_ok_def)
    then have "list_ok (w_blks w') (w_heaps w) pl (g_list g pl)"
      using list_ok_frame [of "g_list g pl" "w_blks w'" "w_blks w"] blks by simp
    with pl(2) hp show "list_ok (w_blks w') (w_heaps w') pl (g_list g pl) \<and>
        (\<forall>b. b \<in> set (g_list g pl) \<longleftrightarrow> g_place g b = Some pl)" by simp
  qed
  ultimately show ?thesis by (simp add: heap_inv_def)
qed

lemma blk_range_same:
  "w_blks w' c = w_blks w c \<Longrightarrow> blk_range w' g c = blk_range w g c"
  unfolding blk_range_def blk_len_def by (simp only:)

lemma bklalloc_inv:
  assumes inv: "heap_inv w g" and os: "good_mmap os" and len: "0 < len" "len + HUGE_PAGE_SIZE < 2 ^ 64"
    and al: "bklalloc os t len w = Some (b, w')"
  shows "heap_inv w' g" "fresh w' g b len" "b_tid (w_blks w' b) = t"
    "\<And>c. c \<noteq> b \<Longrightarrow> w_blks w' c = w_blks w c" "w_heaps w' = w_heaps w"
proof -
  let ?H = HUGE_PAGE_SIZE
  have lm: "(len + ?H) mod 2 ^ 64 = len + ?H" using len(2) by (rule mod_less)
  from al obtain a where a: "os (w_mapped w) (len + ?H) = Some a"
    unfolding bklalloc_def lm by (auto simp: map_pages_def split: option.splits)
  let ?hd = "a mod ?H"
  have H: "?hd < ?H" by (simp add: HUGE_PAGE_SIZE_def)
  from al a have b: "b = a + ?hd"
    and w': "w_heaps w' = w_heaps w" "w_hdrs w' = w_hdrs w" "w_cells w' = w_cells w"
      "w_blks w' = (w_blks w)(b := (w_blks w b)\<lparr>b_tid := t\<rparr>)"
      "w_mapped w' = w_mapped w \<union> {a..<a + (len + ?H)} - {a..<a + ?hd} - {b + len..<b + len + (?H - ?hd)}"
    unfolding bklalloc_def lm using len(1) by (auto simp: map_pages_def Let_def split: if_splits)
  from os a have ap: "0 < a" "a mod 4096 = 0" "{a..<a + (len + ?H)} \<inter> w_mapped w = {}"
    unfolding good_mmap_def by blast+
  have sub: "{b..<b + len} \<subseteq> {a..<a + (len + ?H)}" using b H by auto
  have s: "store_ok w g" using inv by (simp add: heap_inv_def)
  have pr: "blk_range w g c \<subseteq> w_mapped w" "b \<notin> blk_range w g c" "c \<in> blk_range w g c" if "g_place g c \<noteq> None" for c
  proof -
    from that obtain pl where pl: "g_place g c = Some pl" by auto
    show m: "blk_range w g c \<subseteq> w_mapped w" using store_okD(3) [OF s pl] .
    have "b \<in> {b..<b + len}" using len(1) by simp
    with sub ap(3) m show "b \<notin> blk_range w g c" by blast
    show "c \<in> blk_range w g c" using store_okD(5) [OF s pl] by (simp add: blk_range_def)
  qed
  then have np: "g_place g b = None" using pr(2,3) [of b] by blast
  have gone: "{a..<a + ?hd} \<union> {b + len..<b + len + (?H - ?hd)} \<subseteq> {a..<a + (len + ?H)}" using b H by auto
  show "heap_inv w' g"
  proof (rule heap_frame [OF inv])
    show "w_blks w' c = w_blks w c" if "g_place g c \<noteq> None" for c using that np by (auto simp: w')
    show "blk_range w g c \<subseteq> w_mapped w'" if "g_place g c \<noteq> None" for c
    proof
      fix x assume x: "x \<in> blk_range w g c"
      with pr(1) [OF that] have m: "x \<in> w_mapped w" by blast
      with ap(3) have "x \<notin> {a..<a + (len + ?H)}" by blast
      with gone have "x \<notin> {a..<a + ?hd}" "x \<notin> {b + len..<b + len + (?H - ?hd)}" by blast+
      with m show "x \<in> w_mapped w'" unfolding w'(5) by blast
    qed
  qed (simp_all add: w')
  have H16: "?H = 16 * 131072" by (simp add: HUGE_PAGE_SIZE_def)
  have "(4096 :: nat) dvd a" using ap(2) by (simp add: mod_eq_0_iff_dvd)
  then have "16 dvd a" by (rule dvd_trans [rotated]) simp
  moreover have "16 dvd ?hd" using \<open>16 dvd a\<close> H16 by (metis dvd_mod dvd_triv_left)
  ultimately have "16 dvd b" unfolding b by (rule dvd_add)
  then have "b mod 16 = 0" by (simp add: mod_eq_0_iff_dvd)
  moreover have "{b..<b + len} \<inter> blk_range w' g c = {}" if "g_place g c \<noteq> None" for c
  proof -
    from that np have "c \<noteq> b" by blast
    then have "w_blks w' c = w_blks w c" by (simp add: w'(4))
    then have "blk_range w' g c = blk_range w g c" by (rule blk_range_same)
    with pr(1) [OF that] sub ap(3) show ?thesis by blast
  qed
  moreover have "{b..<b + len} \<subseteq> w_mapped w'" 
  proof
    fix x assume x: "x \<in> {b..<b + len}"
    with sub have "x \<in> {a..<a + (len + ?H)}" by blast
    with x show "x \<in> w_mapped w'" unfolding w'(5) by (simp add: b)
  qed
  ultimately show "fresh w' g b len" using np ap(1) b by (simp add: fresh_def)
  show "b_tid (w_blks w' b) = t" by (simp add: w')
  show "\<And>c. c \<noteq> b \<Longrightarrow> w_blks w' c = w_blks w c" "w_heaps w' = w_heaps w" by (simp_all add: w')
qed

text \<open>A spare block leaves its list.\<close>

lemma heap_agree_spare:
  "heap_agree (Spare t) hp (hp(t := (hp t)\<lparr>h_blkfree := x, h_blkfreecnt := n\<rparr>))"
  unfolding heap_agree_def
proof (intro allI impI)
  fix q m xs assume "q \<noteq> Spare t"
  then show "list_ok m (hp(t := (hp t)\<lparr>h_blkfree := x, h_blkfreecnt := n\<rparr>)) q xs = list_ok m hp q xs"
    by (cases q) auto
qed

lemma spare_list_cons: "spare_list m p xs \<Longrightarrow> p \<noteq> 0 \<Longrightarrow> \<exists>ys. xs = p # ys"
  by (cases xs) auto

lemma listed_place: "heap_inv w g \<Longrightarrow> listed pl \<Longrightarrow> b \<in> set (g_list g pl) \<longleftrightarrow> g_place g b = Some pl"
  by (auto simp: heap_inv_def lists_ok_def)

lemma listed_ok: "heap_inv w g \<Longrightarrow> listed pl \<Longrightarrow> list_ok (w_blks w) (w_heaps w) pl (g_list g pl)"
  by (auto simp: heap_inv_def lists_ok_def)

lemma live_place:
  assumes "store_ok w g" "g_live g p = Some n"
  obtains t i where "g_place g (h_blk (w_hdrs w (p - 16))) = Some (InBin t i)"
    | t where "g_place g (h_blk (w_hdrs w (p - 16))) = Some (Lent t)"
  using store_okD(10) [OF assms] by (auto simp: live_ok_def Let_def split: option.splits place.splits)

lemma spare_inv:
  assumes inv: "heap_inv w g" and b: "h_blkfree (w_heaps w t) = b" "b \<noteq> 0"
  defines "w' \<equiv> upd_heap t (\<lambda>hp. hp\<lparr>h_blkfree := b_next (w_blks w b), h_blkfreecnt := h_blkfreecnt hp - 1\<rparr>) w"
  obtains ys where "heap_inv w' (g\<lparr>g_place := (g_place g)(b := None), g_list := (g_list g)(Spare t := ys)\<rparr>)"
    "fresh w' (g\<lparr>g_place := (g_place g)(b := None), g_list := (g_list g)(Spare t := ys)\<rparr>) b BLKSIZE"
    "b_tid (w_blks w' b) = t" "g_place g b = Some (Spare t)"
proof -
  have s: "store_ok w g" using inv by (simp add: heap_inv_def)
  have sl: "spare_list (w_blks w) b (g_list g (Spare t))" using listed_ok [OF inv, of "Spare t"] b(1) by simp
  with b(2) obtain ys where ys: "g_list g (Spare t) = b # ys" by (meson spare_list_cons)
  with sl have ok: "spare_list (w_blks w) (b_next (w_blks w b)) ys" "b \<notin> set ys" by simp_all
  note pl = listed_place [OF inv, of "Spare t", simplified, unfolded ys]
  then have bp: "g_place g b = Some (Spare t)" by auto
  let ?g = "g\<lparr>g_place := (g_place g)(b := None), g_list := (g_list g)(Spare t := ys)\<rparr>"
  have st: "store_ok w (g\<lparr>g_place := (g_place g)(b := None)\<rparr>)"
  proof (rule store_unplace [OF s])
    show "h_blk (w_hdrs w (p - 16)) \<noteq> b" if "g_live g p = Some n" for p n
      by (rule live_place [OF s that]) (use bp in auto)
  qed
  then have st': "store_ok w ?g" by simp
  have ss: "same_store w w'" by (simp add: same_store_def w'_def)
  have "lists_ok (w_blks w') (w_heaps w') ?g"
  proof (rule lists_ok_change [where pl = "Spare t" and xs = ys and hp = "w_heaps w" and m = "w_blks w" and g = g])
    show "heap_agree (Spare t) (w_heaps w) (w_heaps w')"
      using heap_agree_spare by (simp add: w'_def)
    show "list_ok (w_blks w') (w_heaps w') (Spare t) ys" using ok by (simp add: w'_def)
    show "if c \<in> set ys
        then g_place ?g c = Some (Spare t) \<and> (g_place g c = None \<or> g_place g c = Some (Spare t) \<or>
          g_place g c = Some (Lent (owner (Spare t))))
        else if g_place g c = Some (Spare t)
          then g_place ?g c = None \<or> g_place ?g c = Some (Lent (owner (Spare t)))
          else g_place ?g c = g_place g c" for c
      using pl [of c] ok(2) bp by auto
  qed (use inv in \<open>simp_all add: heap_inv_def w'_def\<close>)
  with st' ss have h: "heap_inv w' ?g" by (simp add: heap_inv_def store_ok_same)
  have r: "blk_range w' ?g c = blk_range w g c" if "c \<noteq> b" for c
    using that same_store_derived(4) [OF ss] by (simp add: blk_range_def) (simp add: blk_len_def)
  have rb: "blk_range w g b = {b..<b + BLKSIZE}" by (simp add: blk_range_def blk_len_def bp)
  have "fresh w' ?g b BLKSIZE"
    unfolding fresh_def
  proof (intro conjI allI impI)
    show "{b..<b + BLKSIZE} \<subseteq> w_mapped w'" using store_okD(3) [OF s bp] rb by (simp add: w'_def)
    show "{b..<b + BLKSIZE} \<inter> blk_range w' ?g c = {}" if c: "g_place ?g c \<noteq> None" for c
    proof -
      have "c \<noteq> b" using c by auto
      moreover from this have "blk_range w g b \<inter> blk_range w g c = {}"
        using store_okD(9) [OF s, of b c] c bp by simp
      ultimately show ?thesis using rb r by simp
    qed
  qed (use store_okD(1,2) [OF s bp] in simp_all)
  with h show ?thesis using that [of ys] store_okD(4) [OF s bp] bp by (simp add: w'_def)
qed

section \<open>A block for a bin\<close>

definition cut_block :: "nat \<Rightarrow> nat \<Rightarrow> nat \<Rightarrow> world \<Rightarrow> nat \<times> world" where
  "cut_block t i b w =
     cut_chunk b (bin_chunk i) (upd_blk b (\<lambda>x. x\<lparr>b_binndx := i\<rparr>) (initblk t b (bin_chunk i) w))"

lemma cut_block_store:
  assumes inv: "heap_inv w g" and fr: "fresh w g b BLKSIZE" and gb: "good_bin i"
    and c: "cut_block t i b w = (h, w')"
  defines "g' \<equiv> g\<lparr>g_place := (g_place g)(b := Some (InBin t i))\<rparr>"
  shows "heap_inv w' g" "store_ok w' g'" "taken w' g' i b h" "w_heaps w' = w_heaps w"
proof -
  let ?z = "bin_chunk i"
  from fr have f: "g_place g b = None" "0 < b" "b mod 16 = 0" "{b..<b + BLKSIZE} \<subseteq> w_mapped w"
    "\<And>c. g_place g c \<noteq> None \<Longrightarrow> {b..<b + BLKSIZE} \<inter> blk_range w g c = {}"
    by (auto simp: fresh_def)
  have s: "store_ok w g" using inv by (simp add: heap_inv_def)
  from gb have z: "16 \<le> ?z" "?z \<le> SMALL_MAX + 16" by (simp_all add: good_bin_def)
  note two = chunk_count_two [OF z(2)]
  from c have h: "h = b + 64" and w': "w_heaps w' = w_heaps w" "w_cells w' = w_cells w"
      "w_mapped w' = w_mapped w" "w_hdrs w' = (w_hdrs w)(h := \<lparr>h_blk = b, h_alignment = 0\<rparr>)"
      "\<And>c. c \<noteq> b \<Longrightarrow> w_blks w' c = w_blks w c"
    and x: "b_small (w_blks w' b)" "b_tid (w_blks w' b) = t" "b_binndx (w_blks w' b) = i"
      "b_restcnt (w_blks w' b) = int (chunk_count ?z) - 1" "b_freecnt (w_blks w' b) = 0"
      "b_cnt (w_blks w' b) = int (chunk_count ?z)" "b_rest (w_blks w' b) = b + 64 + ?z"
      "b_free (w_blks w' b) = b + BLKSIZE" "b_size (w_blks w' b) = ?z"
    by (auto simp: cut_block_def cut_chunk_def initblk_def Let_def sizeof_blk_def)
  show "w_heaps w' = w_heaps w" by (fact w'(1))
  have B: "80 \<le> BLKSIZE" by (simp add: BLKSIZE_def HUGE_PAGE_SIZE_def)
  then have hr: "h \<in> {b..<b + BLKSIZE}" by (simp add: h)
  show inv': "heap_inv w' g"
  proof (rule heap_frame [OF inv w'(1)])
    show "w_blks w' c = w_blks w c" if "g_place g c \<noteq> None" for c
      by (rule w'(5)) (use that f(1) in auto)
    show "blk_range w g c \<subseteq> w_mapped w'" if "g_place g c \<noteq> None" for c
      using that store_okD(3) [OF s] by (auto simp: w'(3))
    show "w_hdrs w' a = w_hdrs w a \<and> w_cells w' a = w_cells w a"
      if "g_place g c \<noteq> None" "a \<in> blk_range w g c" for c a
      using f(5) [OF that(1)] that(2) hr by (auto simp: w')
  qed
  have cu: "cuts (w_blks w' b) = 1" by (simp add: cuts_def x)
  have fl: "free_list w' b = []" by (simp add: free_list_def x)
  have ok: "bin_ok w' i b"
    using gb two by (simp add: bin_ok_def Let_def cu fl x chunk_def)
  have rs: "blk_range w' g c = blk_range w g c" if "g_place g c \<noteq> None" for c
    by (rule blk_range_same, rule w'(5)) (use that f(1) in auto)
  show "store_ok w' g'"
    unfolding g'_def
  proof (rule store_place [where len = BLKSIZE])
    show "store_ok w' g" using inv' by (simp add: heap_inv_def)
    show "{b..<b + BLKSIZE} \<inter> blk_range w' g c = {}" if "g_place g c \<noteq> None" for c
      using f(5) [OF that] rs [OF that] by simp
  qed (use f B ok x(2) w'(3) in \<open>simp_all add: blk_len_def\<close>)
  have "chunk_of w' p \<noteq> h" if l: "g_live g p = Some n" for p n
  proof -
    have s': "store_ok w' g" using inv' by (simp add: heap_inv_def)
    note pl = live_bounds(1) [OF s' l]
    from live_in_range(2) [OF s' l] f(5) [OF pl] rs [OF pl] hr show ?thesis by auto
  qed
  then show "taken w' g' i b h"
    by (simp add: taken_def g'_def cu fl w'(4) h chunk_def)
qed

lemma push_block_inv:
  fixes g t i b
  defines "g0 \<equiv> g\<lparr>g_place := (g_place g)(b := Some (InBin t i))\<rparr>"
  defines "g' \<equiv> g0\<lparr>g_list := (g_list g)(InBin t i := b # g_list g (InBin t i))\<rparr>"
  assumes inv: "heap_inv w g" and b: "g_place g b = None" "b \<noteq> 0"
    and s: "store_ok w g0" and tk: "taken w g0 i b h"
  shows "heap_inv (on_bin t i (push_new b) w) g'" "taken (on_bin t i (push_new b) w) g' i b h"
proof -
  let ?w = "on_bin t i (push_new b) w" and ?xs = "g_list g (InBin t i)"
  obtain e' m' where pn: "push_new b (h_bins (w_heaps w t) i) (w_blks w) = (e', m')" by (meson surj_pair)
  have w: "w_blks ?w = m'" "w_heaps ?w = (w_heaps w)(t := (w_heaps w t)\<lparr>h_bins := (h_bins (w_heaps w t))(i := e')\<rparr>)"
    by (simp_all add: on_bin_def pn)
  have ss: "same_store w ?w" using list_ops_body(2) [OF pn] by (simp add: same_store_def w) (simp add: on_bin_def pn)
  note bl = bin_list [OF inv, where t = t and i = i]
  have nb: "b \<notin> set ?xs" using b bl(2) by auto
  note lk = push_new_linked [OF bl(1) nb b(2) pn]
  have "lists_ok (w_blks w) (w_heaps w) g" using inv by (simp add: heap_inv_def)
  then have "lists_ok (w_blks ?w) (w_heaps ?w) g'"
    unfolding w
  proof (rule lists_ok_change [OF _ _ _ heap_agree_bin, where xs = "b # ?xs"])
    show "b_prev (m' c) = b_prev (w_blks w c) \<and> b_next (m' c) = b_next (w_blks w c)"
      if "g_place g c \<noteq> None" "g_place g c \<noteq> Some (InBin t i)" for c
    proof -
      from that(2) have c: "c \<notin> set ?xs" by (simp add: bl(2))
      from that(1) b(1) have "c \<noteq> b" by blast
      with list_ops_frame(2) [OF bl(1) c pn] have "m' c = w_blks w c" .
      then show ?thesis by simp
    qed
    show "if c \<in> set (b # ?xs)
        then g_place g' c = Some (InBin t i) \<and> (g_place g c = None \<or> g_place g c = Some (InBin t i) \<or>
          g_place g c = Some (Lent (owner (InBin t i))))
        else if g_place g c = Some (InBin t i)
          then g_place g' c = None \<or> g_place g' c = Some (Lent (owner (InBin t i)))
          else g_place g' c = g_place g c" for c
      using bl(2) b(1) by (auto simp: g'_def g0_def)
  qed (use lk in \<open>simp_all add: g'_def g0_def\<close>)
  with s ss show "heap_inv ?w g'" by (simp add: heap_inv_def store_ok_same g'_def)
  from tk ss show "taken ?w g' i b h" by (simp add: taken_same g'_def)
qed

lemma from_new_inv:
  assumes inv: "heap_inv w g" and os: "good_mmap os" and gb: "good_bin i"
    and fn: "from_new os t i (bin_chunk i) w = Some (h, w')"
  obtains g' b where "heap_inv w' g'" "taken w' g' i b h" "g_live g' = g_live g"
proof -
  from fn obtain b w1 where gt: "get_block os t w = Some (b, w1)"
    by (auto simp: from_new_def split: option.splits)
  obtain h2 w2 where cb: "cut_block t i b w1 = (h2, w2)" by (meson surj_pair)
  from fn gt cb have w': "h2 = h" "w' = on_bin t i (push_new b) w2"
    by (auto simp: from_new_def cut_block_def Let_def)
  have "\<exists>g1. heap_inv w1 g1 \<and> fresh w1 g1 b BLKSIZE \<and> g_live g1 = g_live g"
  proof (cases "h_blkfree (w_heaps w t) = 0")
    case True
    with gt have "bklalloc os t BLKSIZE w = Some (b, w1)" by (simp add: get_block_def)
    from bklalloc_inv(1,2) [OF inv os _ _ this] show ?thesis by (auto simp: BLKSIZE_def HUGE_PAGE_SIZE_def)
  next
    case False
    from gt False have b: "h_blkfree (w_heaps w t) = b" and
      w1: "w1 = upd_heap t (\<lambda>hp. hp\<lparr>h_blkfree := b_next (w_blks w b), h_blkfreecnt := h_blkfreecnt hp - 1\<rparr>) w"
      by (auto simp: get_block_def Let_def)
    from False b have "b \<noteq> 0" by simp
    from spare_inv [OF inv b this, folded w1] obtain ys where
      "heap_inv w1 (g\<lparr>g_place := (g_place g)(b := None), g_list := (g_list g)(Spare t := ys)\<rparr>)"
      "fresh w1 (g\<lparr>g_place := (g_place g)(b := None), g_list := (g_list g)(Spare t := ys)\<rparr>) b BLKSIZE" .
    then show ?thesis by (intro exI conjI) (assumption | simp)+
  qed
  then obtain g1 where g1: "heap_inv w1 g1" "fresh w1 g1 b BLKSIZE" "g_live g1 = g_live g" by blast
  note cs = cut_block_store [OF g1(1,2) gb cb]
  have "g_place g1 b = None" "b \<noteq> 0" using g1(2) by (simp_all add: fresh_def)
  from push_block_inv [OF cs(1) this cs(2,3)] show ?thesis
    unfolding w'(2) [symmetric] w'(1) by (rule that) (simp add: g1(3))
qed

section \<open>Small requests\<close>

lemma heap_inv_add:
  assumes "heap_inv w g" "taken w g i b h" "n + 16 \<le> bin_chunk i"
  shows "heap_inv w (g\<lparr>g_live := (g_live g)(h + 16 := Some n)\<rparr>)"
    "g_live g (h + 16) = None" "(h + 16) mod 16 = 0"
  using add_live [of w g i b h n] assms by (simp_all add: heap_inv_def)

lemma nc_malloc_small_inv:
  assumes inv: "heap_inv w g" and os: "good_mmap os" and sz: "sz \<le> SMALL_MAX" "sz \<noteq> 65520"
    and al: "nc_malloc_small os t sz w = Some (p, w')"
  obtains g' where "heap_inv w' g'" "g_live g' = (g_live g)(p := Some sz)" "g_live g p = None"
    "p mod 16 = 0" "16 \<le> p" "h_alignment (w_hdrs w' (p - 16)) = 0"
proof -
  obtain i z where iz: "small_bin sz = (i, z)" by (meson surj_pair)
  with small_bin_spec [OF sz(1)] sz(2) have z: "z = bin_chunk i" "sz + 16 \<le> bin_chunk i" "good_bin i"
    by (auto simp: good_bin_def BINCNT_def)
  from from_head_inv [OF inv, of t i] obtain h w1 xs b where
    fh: "from_head t i z w = Some (h, w1)" and
    i1: "heap_inv w1 (g\<lparr>g_list := (g_list g)(InBin t i := xs)\<rparr>)"
      "h = 0 \<or> taken w1 (g\<lparr>g_list := (g_list g)(InBin t i := xs)\<rparr>) i b h" unfolding z(1) by metis
  have "\<exists>g1 h1 b1. heap_inv w' g1 \<and> taken w' g1 i b1 h1 \<and> g_live g1 = g_live g \<and> p = h1 + 16"
  proof (cases "h = 0")
    case True
    with al iz fh obtain h1 where fn: "from_new os t i (bin_chunk i) w1 = Some (h1, w')" and p: "p = h1 + 16"
      by (auto simp: nc_malloc_small_def sizeof_hdr_def z(1))
    from from_new_inv [OF i1(1) os z(3) fn] obtain g1 b1 where
      "heap_inv w' g1" "taken w' g1 i b1 h1" "g_live g1 = g_live g" by auto
    with p show ?thesis by blast
  next
    case False
    with al iz fh have "w' = w1" "p = h + 16" by (auto simp: nc_malloc_small_def sizeof_hdr_def)
    moreover have "g_live (g\<lparr>g_list := (g_list g)(InBin t i := xs)\<rparr>) = g_live g" by simp
    ultimately show ?thesis using i1 False by blast
  qed
  then obtain g1 h1 b1 where g1: "heap_inv w' g1" "taken w' g1 i b1 h1" "g_live g1 = g_live g" "p = h1 + 16"
    by blast
  have "w_hdrs w' h1 = \<lparr>h_blk = b1, h_alignment = 0\<rparr>" using g1(2) by (simp add: taken_def)
  with heap_inv_add [OF g1(1,2) z(2)] g1(3,4) show ?thesis
    by (intro that [of "g1\<lparr>g_live := (g_live g1)(h1 + 16 := Some sz)\<rparr>"]) simp_all
qed

end
