(* ===== verification/NcallocFree.thy ===== *)
theory NcallocFree
  imports NcallocNew
begin

text \<open>
  Giving a small buffer back: its chunk goes to the free list of the block, or the block,
  now without buffers, leaves the bin to the spare blocks or to the system.
\<close>

section \<open>Counting chunks\<close>

lemma chunk_set_card:
  assumes ok: "bin_ok w i b"
  shows "card (chunk b (bin_chunk i) ` {..<cuts (w_blks w b)}) = cuts (w_blks w b)"
  using chunk_inj [OF bin_okD(1) [OF ok], of b] by (simp add: card_image inj_on_def)

lemma free_list_length [simp]: "length (free_list w b) = nat (b_freecnt (w_blks w b))"
  by (simp add: free_list_def)

lemma taken_room:
  assumes s: "store_ok w g" and tk: "taken w g i b h"
  shows "insert h (set (free_list w b)) \<subseteq> chunk b (bin_chunk i) ` {..<cuts (w_blks w b)}"
    "card (insert h (set (free_list w b))) = Suc (nat (b_freecnt (w_blks w b)))"
    "b_restcnt (w_blks w b) + (b_freecnt (w_blks w b) + 1) \<le> b_cnt (w_blks w b)"
proof -
  from tk obtain t k where t: "g_place g b = Some (InBin t i)" "k < cuts (w_blks w b)"
    "h = chunk b (bin_chunk i) k" "h \<notin> set (free_list w b)" by (auto simp: taken_def)
  note ok = store_okD(6) [OF s t(1)]
  show sub: "insert h (set (free_list w b)) \<subseteq> chunk b (bin_chunk i) ` {..<cuts (w_blks w b)}"
    using t(2,3) bin_okD(14) [OF ok] by auto
  show c: "card (insert h (set (free_list w b))) = Suc (nat (b_freecnt (w_blks w b)))"
    using t(4) distinct_card [OF bin_okD(13) [OF ok]] by simp
  have "Suc (nat (b_freecnt (w_blks w b))) \<le> cuts (w_blks w b)"
    using card_mono [OF _ sub] c chunk_set_card [OF ok] by simp
  with bin_okD(6,7,8) [OF ok]
  show "b_restcnt (w_blks w b) + (b_freecnt (w_blks w b) + 1) \<le> b_cnt (w_blks w b)"
    unfolding cuts_def by linarith
qed

text \<open>With one chunk less than all of them free, the last one is the only one in use.\<close>

lemma last_taken:
  assumes s: "store_ok w g" and tk: "taken w g i b h"
    and full: "b_cnt (w_blks w b) \<le> b_freecnt (w_blks w b) + 1" and l: "g_live g p = Some n"
  shows "h_blk (w_hdrs w (p - 16)) \<noteq> b"
proof
  assume b: "h_blk (w_hdrs w (p - 16)) = b"
  from tk obtain t where pl: "g_place g b = Some (InBin t i)" by (auto simp: taken_def)
  note ok = store_okD(6) [OF s pl]
  note room = taken_room [OF s tk]
  from live_in_chunk [OF s l pl b] obtain k where k: "k < cuts (w_blks w b)"
    "chunk_of w p = chunk b (bin_chunk i) k" "chunk_of w p \<notin> set (free_list w b)" .
  have "cuts (w_blks w b) \<le> Suc (nat (b_freecnt (w_blks w b)))"
    using full bin_okD(6,8) [OF ok] unfolding cuts_def by linarith
  then have "insert h (set (free_list w b)) = chunk b (bin_chunk i) ` {..<cuts (w_blks w b)}"
    using room(1,2) chunk_set_card [OF ok] by (intro card_seteq) simp_all
  with k have "chunk_of w p = h" by blast
  moreover have "chunk_of w p \<noteq> h" using tk l by (simp add: taken_def)
  ultimately show False by simp
qed

section \<open>Back to the free list\<close>

definition put_free :: "nat \<Rightarrow> nat \<Rightarrow> world \<Rightarrow> world" where
  "put_free b h w =
     (let w = upd_blk b (\<lambda>x. x\<lparr>b_freecnt := b_freecnt x + 1\<rparr>) w;
          w = upd_blk b (\<lambda>x. x\<lparr>b_free := b_free x - sizeof_ptr\<rparr>) w
      in w\<lparr>w_cells := (w_cells w)(b_free (w_blks w b) := h)\<rparr>)"

lemma put_free_store:
  assumes s: "store_ok w g" and tk: "taken w g i b h" and pl: "g_place g b = Some (InBin t i)"
    and room: "b_freecnt (w_blks w b) + 1 < b_cnt (w_blks w b)"
  shows "store_ok (put_free b h w) g" "same_links w (put_free b h w)"
proof -
  let ?x = "w_blks w b" and ?w = "put_free b h w"
  note ok = store_okD(6) [OF s pl]
  note okD = bin_okD [OF ok]
  let ?n = "nat (b_freecnt ?x)"
  have n: "nat (b_freecnt ?x + 1) = Suc ?n" using okD(8) by simp
  have sz: "8 * Suc ?n \<le> 8 * chunk_count (bin_chunk i)" using room okD(5,8) by simp
  have fb: "b + 64 \<le> b_free ?x - 8" "8 \<le> b_free ?x" "b_free ?x - 8 < b + BLKSIZE"
  proof -
    have "64 + 8 * chunk_count (bin_chunk i) \<le> BLKSIZE"
      using chunks_fit [of "bin_chunk i"] by (simp add: algebra_simps)
    moreover define m where "m = nat (b_freecnt ?x)"
    ultimately show "b + 64 \<le> b_free ?x - 8" "8 \<le> b_free ?x" "b_free ?x - 8 < b + BLKSIZE"
      using sz okD(12) unfolding m_def [symmetric] by simp_all
  qed
  have blks: "w_blks ?w = (w_blks w)(b := ?x\<lparr>b_freecnt := b_freecnt ?x + 1, b_free := b_free ?x - 8\<rparr>)"
    and rest: "w_hdrs ?w = w_hdrs w" "w_mapped ?w = w_mapped w" "w_heaps ?w = w_heaps w"
      "w_cells ?w = (w_cells w)(b_free ?x - 8 := h)"
    by (simp_all add: put_free_def Let_def sizeof_ptr_def)
  show "same_links w ?w" by (simp add: same_links_def blks rest)
  have cu: "cuts (w_blks ?w b) = cuts ?x" by (simp add: blks cuts_def)
  have f: "free_list ?w b = h # free_list w b"
    using fb(2) by (auto simp: free_list_def blks rest n upt_conv_Cons map_Suc_upt [symmetric] simp del: upt_Suc)
  have tk': "h \<notin> set (free_list w b)" "\<exists>k<cuts ?x. h = chunk b (bin_chunk i) k"
    "w_hdrs w h = \<lparr>h_blk = b, h_alignment = 0\<rparr>" using tk by (simp_all add: taken_def)
  have ok': "bin_ok ?w i b"
    using okD(1-13) room taken_room(3) [OF s tk] tk' okD(14,15) fb(2)
    by (simp add: bin_ok_def Let_def f cu rest) (simp add: blks n add.assoc)
  show "store_ok ?w g"
  proof (rule bin_change [OF s pl _ _ _ ok'])
    show "w_hdrs ?w a = w_hdrs w a \<and> w_cells ?w a = w_cells w a" if "a \<notin> blk_range w g b" for a
      using that fb pl by (auto simp: rest blk_range_def blk_len_def)
    fix p n k assume k: "k < cuts ?x" and l: "g_live g p = Some n" and b: "h_blk (w_hdrs w (p - 16)) = b"
    from live_in_chunk [OF s l pl b] have "chunk_of w p \<notin> set (free_list w b)" by blast
    moreover have "chunk_of w p \<noteq> h" using tk l by (simp add: taken_def)
    ultimately show "k < cuts (w_blks ?w b) \<and> chunk_of w p \<notin> set (free_list ?w b) \<and>
      (\<forall>a. chunk_of w p \<le> a \<and> a < chunk_of w p + bin_chunk i \<longrightarrow> w_hdrs ?w a = w_hdrs w a)"
      using k by (simp add: cu f rest)
  qed (simp_all add: rest blks)
qed

section \<open>Out of the bin\<close>

lemma unplace_fresh:
  assumes s: "store_ok w g" and pl: "g_place g b = Some q"
    and m: "w_mapped w' = w_mapped w"
    and len: "\<And>c. g_place g c \<noteq> None \<Longrightarrow> c \<noteq> b \<Longrightarrow> blk_len w' g c = blk_len w g c"
    and g': "g_place g' = (g_place g)(b := None)"
  shows "fresh w' g' b (blk_len w g b)"
  unfolding fresh_def
proof (intro conjI allI impI)
  have r: "{b..<b + blk_len w g b} = blk_range w g b" by (simp add: blk_range_def)
  show "{b..<b + blk_len w g b} \<subseteq> w_mapped w'" using store_okD(3) [OF s pl] r m by simp
  show "{b..<b + blk_len w g b} \<inter> blk_range w' g' c = {}" if c: "g_place g' c \<noteq> None" for c
  proof -
    from c have cb: "c \<noteq> b" "g_place g c \<noteq> None" by (auto simp: g' split: if_splits)
    then have "blk_len w' g' c = blk_len w g c" using len [of c] by (simp add: blk_len_def g')
    with cb pl store_okD(9) [OF s, of b c] show ?thesis by (simp add: blk_range_def)
  qed
qed (use store_okD(1,2) [OF s pl] g' in simp_all)

lemma unbin_inv:
  fixes n
  assumes inv: "heap_inv w g" and pl: "g_place g b = Some (InBin t i)"
    and none: "\<And>p m. g_live g p = Some m \<Longrightarrow> h_blk (w_hdrs w (p - 16)) \<noteq> b"
  defines "w' \<equiv> on_bin t i (unlink b) (upd_blk b (\<lambda>x. x\<lparr>b_freecnt := n\<rparr>) w)"
  obtains xs where
    "heap_inv w' (g\<lparr>g_place := (g_place g)(b := None), g_list := (g_list g)(InBin t i := xs)\<rparr>)"
    "fresh w' (g\<lparr>g_place := (g_place g)(b := None), g_list := (g_list g)(InBin t i := xs)\<rparr>) b BLKSIZE"
    "b_tid (w_blks w' b) = b_tid (w_blks w b)"
proof -
  let ?w1 = "upd_blk b (\<lambda>x. x\<lparr>b_freecnt := n\<rparr>) w"
  note bl = bin_list [OF inv, where t = t and i = i]
  have b: "b \<in> set (g_list g (InBin t i))" using pl bl(2) by simp
  then obtain xs ys where ys: "g_list g (InBin t i) = xs @ b # ys" by (meson split_list)
  obtain e' m' where un: "unlink b (h_bins (w_heaps ?w1 t) i) (w_blks ?w1) = (e', m')" by (meson surj_pair)
  have w: "w_blks w' = m'" "w_heaps w' = (w_heaps w)(t := (w_heaps w t)\<lparr>h_bins := (h_bins (w_heaps w t))(i := e')\<rparr>)"
    "w_hdrs w' = w_hdrs w" "w_cells w' = w_cells w" "w_mapped w' = w_mapped w"
    using un by (simp_all add: w'_def on_bin_def)
  have "linked (w_blks ?w1) (h_bins (w_heaps w t) i) (g_list g (InBin t i)) =
      linked (w_blks w) (h_bins (w_heaps w t) i) (g_list g (InBin t i))"
    by (rule linked_frame) simp
  with bl(1) have lk1: "linked (w_blks ?w1) (h_bins (w_heaps ?w1 t) i) (g_list g (InBin t i))" by simp
  note lk = unlink_linked [OF lk1 [unfolded ys] un]
  have bd: "body (m' c) = body (w_blks w c)" if "c \<noteq> b" for c
    using list_ops_body(1) [OF un, of c] that by simp
  have fr: "m' c = w_blks w c" if "g_place g c \<noteq> Some (InBin t i)" for c
  proof -
    have "c \<noteq> b" using that pl by auto
    then show ?thesis using list_ops_frame(1) [OF lk1 _ un b, of c] that by (simp add: bl(2))
  qed
  let ?g = "g\<lparr>g_place := (g_place g)(b := None), g_list := (g_list g)(InBin t i := xs @ ys)\<rparr>"
  have s: "store_ok w g" "lists_ok (w_blks w) (w_heaps w) g" using inv by (simp_all add: heap_inv_def)
  have dist: "distinct (xs @ b # ys)" using bl(1) ys by (simp add: linked_def)
  have "store_ok w (g\<lparr>g_place := (g_place g)(b := None)\<rparr>)" by (rule store_unplace [OF s(1) none])
  then have "store_ok w' (g\<lparr>g_place := (g_place g)(b := None)\<rparr>)"
  proof (rule store_frame)
    fix c assume c: "g_place (g\<lparr>g_place := (g_place g)(b := None)\<rparr>) c \<noteq> None"
    then have "c \<noteq> b" "g_place g c \<noteq> None" by (auto split: if_splits)
    moreover from this have "blk_range w g c \<subseteq> w_mapped w" using store_okD(3) [OF s(1)] by auto
    ultimately show "same_at (g\<lparr>g_place := (g_place g)(b := None)\<rparr>) c w w'"
      using bd by (simp add: same_at_def w blk_range_def) (simp add: blk_len_def)
  qed
  then have st: "store_ok w' ?g" by simp
  from s(2) have "lists_ok (w_blks w') (w_heaps w') ?g"
    unfolding w
  proof (rule lists_ok_change [OF _ _ _ heap_agree_bin, where xs = "xs @ ys"])
    show "if c \<in> set (xs @ ys)
        then g_place ?g c = Some (InBin t i) \<and> (g_place g c = None \<or> g_place g c = Some (InBin t i) \<or>
          g_place g c = Some (Lent (owner (InBin t i))))
        else if g_place g c = Some (InBin t i)
          then g_place ?g c = None \<or> g_place ?g c = Some (Lent (owner (InBin t i)))
          else g_place ?g c = g_place g c" for c
      using bl(2) [of c] dist pl unfolding ys by auto
  qed (use lk fr in simp_all)
  with st have "heap_inv w' ?g" by (simp add: heap_inv_def)
  moreover have "fresh w' ?g b (blk_len w g b)"
  proof (rule unplace_fresh [OF s(1) pl])
    show "blk_len w' g c = blk_len w g c" if "c \<noteq> b" for c
      using body_fields(9) [OF bd [OF that]] unfolding blk_len_def by (simp only: w)
  qed (simp_all add: w)
  moreover have "blk_len w g b = BLKSIZE" by (simp add: blk_len_def pl)
  moreover have "b_tid (w_blks w' b) = b_tid (w_blks w b)"
    using body_fields(2) [OF list_ops_body(1) [OF un, of b]] by (simp_all add: w)
  ultimately show ?thesis using that by simp
qed

section \<open>To the spare blocks or to the system\<close>

lemma spare_list_cons_ok:
  "spare_list m p xs \<Longrightarrow> b \<noteq> 0 \<Longrightarrow> b \<notin> set xs \<Longrightarrow> spare_list (set_next b p m) b (b # xs)"
  using spare_list_frame [of xs "set_next b p m" m p] by (force simp: set_links)

lemma spare_push_inv:
  assumes inv: "heap_inv w g" and fr: "fresh w g b BLKSIZE" and tid: "b_tid (w_blks w b) = t"
  defines "w' \<equiv> upd_heap t (\<lambda>hp. hp\<lparr>h_blkfreecnt := h_blkfreecnt hp + 1, h_blkfree := b\<rparr>)
     (w\<lparr>w_blks := set_next b (h_blkfree (w_heaps w t)) (w_blks w)\<rparr>)"
  shows "heap_inv w' (g\<lparr>g_place := (g_place g)(b := Some (Spare t)),
    g_list := (g_list g)(Spare t := b # g_list g (Spare t))\<rparr>)"
proof -
  let ?gp = "g\<lparr>g_place := (g_place g)(b := Some (Spare t))\<rparr>"
  let ?g = "?gp\<lparr>g_list := (g_list g)(Spare t := b # g_list g (Spare t))\<rparr>"
  from fr have f: "g_place g b = None" "0 < b" "b mod 16 = 0" "{b..<b + BLKSIZE} \<subseteq> w_mapped w"
    "\<And>c. g_place g c \<noteq> None \<Longrightarrow> {b..<b + BLKSIZE} \<inter> blk_range w g c = {}"
    by (auto simp: fresh_def)
  have s: "store_ok w g" "lists_ok (w_blks w) (w_heaps w) g" using inv by (simp_all add: heap_inv_def)
  have ss: "same_store w w'" by (auto simp: same_store_def w'_def set_next_def body_def)
  have "store_ok w ?gp"
    by (rule store_place [OF s(1) f(1-3) _ _ f(5,4)])
      (use tid in \<open>simp_all add: blk_len_def BLKSIZE_def HUGE_PAGE_SIZE_def\<close>)
  then have st: "store_ok w' ?g" using ss by (simp add: store_ok_same)
  note pl = listed_place [OF inv, of "Spare t", simplified]
  then have nb: "b \<notin> set (g_list g (Spare t))" using f(1) by simp
  have sl: "spare_list (w_blks w) (h_blkfree (w_heaps w t)) (g_list g (Spare t))"
    using listed_ok [OF inv, of "Spare t"] by simp
  have hp: "w_heaps w' = (w_heaps w)(t := (w_heaps w t)\<lparr>h_blkfree := b, h_blkfreecnt := h_blkfreecnt (w_heaps w t) + 1\<rparr>)"
    and bk: "w_blks w' = set_next b (h_blkfree (w_heaps w t)) (w_blks w)"
    by (cases "w_heaps w t", simp add: w'_def) (simp add: w'_def)
  from s(2) have "lists_ok (w_blks w') (w_heaps w') ?g"
    unfolding hp bk
  proof (rule lists_ok_change [OF _ _ _ heap_agree_spare, where xs = "b # g_list g (Spare t)"])
    show "b_prev (set_next b (h_blkfree (w_heaps w t)) (w_blks w) c) = b_prev (w_blks w c) \<and>
        b_next (set_next b (h_blkfree (w_heaps w t)) (w_blks w) c) = b_next (w_blks w c)"
      if "g_place g c \<noteq> None" for c using that f(1) by auto
    show "if c \<in> set (b # g_list g (Spare t))
        then g_place ?g c = Some (Spare t) \<and> (g_place g c = None \<or> g_place g c = Some (Spare t) \<or>
          g_place g c = Some (Lent (owner (Spare t))))
        else if g_place g c = Some (Spare t)
          then g_place ?g c = None \<or> g_place ?g c = Some (Lent (owner (Spare t)))
          else g_place ?g c = g_place g c" for c
      using pl [of c] f(1) by auto
  qed (use spare_list_cons_ok [OF sl _ nb] f(2) in simp_all)
  with st show ?thesis by (simp add: heap_inv_def)
qed

lemma drop_fresh_inv:
  assumes inv: "heap_inv w g" and fr: "fresh w g b len"
  shows "heap_inv (munmap b len w) g"
proof (rule heap_frame [OF inv])
  have s: "store_ok w g" using inv by (simp add: heap_inv_def)
  show "blk_range w g c \<subseteq> w_mapped (munmap b len w)" if c: "g_place g c \<noteq> None" for c
  proof -
    from c obtain pl where "g_place g c = Some pl" by blast
    from store_okD(3) [OF s this] have "blk_range w g c \<subseteq> w_mapped w" .
    moreover have "{b..<b + len} \<inter> blk_range w g c = {}" using fr c by (simp add: fresh_def)
    ultimately show ?thesis by auto
  qed
qed simp_all

section \<open>The free of a small buffer\<close>

lemma nc_free_small_inv:
  assumes inv: "heap_inv w g" and tk: "taken w g i b h" and pl: "g_place g b = Some (InBin t i)"
  obtains g' where "heap_inv (nc_free_small t h w) g'" "g_live g' = g_live g"
proof -
  have s: "store_ok w g" using inv by (simp add: heap_inv_def)
  have hd: "h_blk (w_hdrs w h) = b" using tk by (simp add: taken_def)
  note okD = bin_okD [OF store_okD(6) [OF s pl]]
  show ?thesis
  proof (cases "b_freecnt (w_blks w b) + 1 < b_cnt (w_blks w b)")
    case True
    let ?w = "put_free b h w"
    note pf = put_free_store [OF s tk pl True]
    have i1: "heap_inv ?w g" using pf(1) same_linksD(2) [OF pf(2)] inv by (simp add: heap_inv_def)
    have e: "nc_free_small t h w = on_bin t i (move_to_head b) ?w"
      using True okD(3) by (simp add: nc_free_small_def put_free_def Let_def hd)
    note bl = bin_list [OF i1, where t = t and i = i]
    have b: "b \<in> set (g_list g (InBin t i))" using pl bl(2) by simp
    then obtain xs ys where ys: "g_list g (InBin t i) = xs @ b # ys" by (meson split_list)
    from to_head.on_bin_reorder [OF i1 ys TrueI] obtain zs where
      "heap_inv (on_bin t i (move_to_head b) ?w) (g\<lparr>g_list := (g_list g)(InBin t i := zs)\<rparr>)" .
    then show ?thesis by (intro that [of "g\<lparr>g_list := (g_list g)(InBin t i := zs)\<rparr>"]) (simp_all add: e)
  next
    case False
    let ?n = "b_freecnt (w_blks w b) + 1"
    let ?w = "on_bin t i (unlink b) (upd_blk b (\<lambda>x. x\<lparr>b_freecnt := ?n\<rparr>) w)"
    have up: "upd_blk b (\<lambda>x. x\<lparr>b_freecnt := b_freecnt x + 1\<rparr>) w = upd_blk b (\<lambda>x. x\<lparr>b_freecnt := ?n\<rparr>) w"
      by (simp add: upd_blk_def)
    have e: "nc_free_small t h w =
        (if h_blkfreecnt (w_heaps ?w t) < PAGE_BLK_MAP_TRESH
         then upd_heap t (\<lambda>hp. hp\<lparr>h_blkfreecnt := h_blkfreecnt hp + 1, h_blkfree := b\<rparr>)
                (?w\<lparr>w_blks := set_next b (h_blkfree (w_heaps ?w t)) (w_blks ?w)\<rparr>)
         else munmap b BLKSIZE ?w)"
      using False okD(3) by (simp add: nc_free_small_def Let_def hd up)
    have none: "h_blk (w_hdrs w (p - 16)) \<noteq> b" if "g_live g p = Some n" for p n
      using last_taken [OF s tk _ that] False by simp
    obtain xs where
      u: "heap_inv ?w (g\<lparr>g_place := (g_place g)(b := None), g_list := (g_list g)(InBin t i := xs)\<rparr>)"
      "fresh ?w (g\<lparr>g_place := (g_place g)(b := None), g_list := (g_list g)(InBin t i := xs)\<rparr>) b BLKSIZE"
      "b_tid (w_blks ?w b) = b_tid (w_blks w b)" by (rule unbin_inv [OF inv pl none])
    have tid: "b_tid (w_blks ?w b) = t" using u(3) store_okD(4) [OF s pl] by simp
    show ?thesis
    proof (cases "h_blkfreecnt (w_heaps ?w t) < PAGE_BLK_MAP_TRESH")
      case True
      with e have e': "nc_free_small t h w = upd_heap t (\<lambda>hp. hp\<lparr>h_blkfreecnt := h_blkfreecnt hp + 1, h_blkfree := b\<rparr>)
          (?w\<lparr>w_blks := set_next b (h_blkfree (w_heaps ?w t)) (w_blks ?w)\<rparr>)" by simp
      show ?thesis by (rule that [OF spare_push_inv [OF u(1,2) tid, folded e']]) simp
    next
      case False
      with e have e': "nc_free_small t h w = munmap b BLKSIZE ?w" by simp
      show ?thesis by (rule that [OF drop_fresh_inv [OF u(1,2), folded e']]) simp
    qed
  qed
qed

end
