(* ===== verification/NcallocBig.thy ===== *)
theory NcallocBig
  imports NcallocFree
begin

text \<open>
  Big buffers, one to a block: a block is lent to the program or among the recently used
  ones of its thread, of which there are at most 16.
\<close>

section \<open>The search\<close>

lemma find_big_some:
  "segment m p xs 0 \<Longrightarrow> 0 \<notin> set xs \<Longrightarrow> length xs < fuel \<Longrightarrow>
   \<exists>b. find_big fuel m (if xs = [] then 0 else hd xs) size0 = Some b \<and>
     (b = 0 \<and> (\<forall>x\<in>set xs. b_size (m x) < size0) \<or> b \<in> set xs \<and> size0 \<le> b_size (m b))"
proof (induction xs arbitrary: p fuel)
  case Nil
  then show ?case by (cases fuel) auto
next
  case (Cons x xs)
  then obtain f where f: "fuel = Suc f" by (cases fuel) auto
  from Cons have "segment m x xs 0" "0 \<notin> set xs" "length xs < f" "x \<noteq> 0"
    "b_next (m x) = (if xs = [] then 0 else hd xs)" by (auto simp: f)
  with Cons.IH [of x f] show ?case by (auto simp: f not_le)
qed

section \<open>Changes to the recently used blocks\<close>

lemma heap_agree_recent:
  "heap_agree (Recent t) hp (hp(t := (hp t)\<lparr>h_lru := e, h_lrucnt := n\<rparr>))"
  unfolding heap_agree_def
proof (intro allI impI)
  fix q m xs assume "q \<noteq> Recent t"
  then show "list_ok m (hp(t := (hp t)\<lparr>h_lru := e, h_lrucnt := n\<rparr>)) q xs = list_ok m hp q xs"
    by (cases q) auto
qed

definition set_lru :: "nat \<Rightarrow> ends \<Rightarrow> int \<Rightarrow> blks \<Rightarrow> world \<Rightarrow> world" where
  "set_lru t e n m w = upd_heap t (\<lambda>hp. hp\<lparr>h_lru := e, h_lrucnt := n\<rparr>) (w\<lparr>w_blks := m\<rparr>)"

lemma set_lru_simps [simp]:
  "w_blks (set_lru t e n m w) = m" "w_hdrs (set_lru t e n m w) = w_hdrs w"
  "w_cells (set_lru t e n m w) = w_cells w" "w_mapped (set_lru t e n m w) = w_mapped w"
  "w_heaps (set_lru t e n m w) = (w_heaps w)(t := (w_heaps w t)\<lparr>h_lru := e, h_lrucnt := n\<rparr>)"
  by (simp_all add: set_lru_def)

lemma recent_list:
  assumes "heap_inv w g"
  shows "linked (w_blks w) (h_lru (w_heaps w t)) (g_list g (Recent t))"
    "h_lrucnt (w_heaps w t) = int (length (g_list g (Recent t)))" "length (g_list g (Recent t)) \<le> 16"
    "b \<in> set (g_list g (Recent t)) \<longleftrightarrow> g_place g b = Some (Recent t)"
  using listed_ok [OF assms, of "Recent t"] listed_place [OF assms, of "Recent t"] by simp_all

lemma lru_step:
  assumes inv: "heap_inv w g" and lk: "linked m e xs" "length xs \<le> 16"
    and bd: "\<And>c. body (m c) = body (w_blks w c)"
    and fr: "\<And>c. c \<notin> set (g_list g (Recent t)) \<Longrightarrow> c \<notin> set xs \<Longrightarrow> m c = w_blks w c"
    and st: "store_ok w (g\<lparr>g_place := pl\<rparr>)"
    and place: "\<And>c. if c \<in> set xs then pl c = Some (Recent t) \<and> (g_place g c = Some (Recent t) \<or> g_place g c = Some (Lent t))
      else if g_place g c = Some (Recent t) then pl c = None \<or> pl c = Some (Lent t) else pl c = g_place g c"
  shows "heap_inv (set_lru t e (int (length xs)) m w) (g\<lparr>g_place := pl, g_list := (g_list g)(Recent t := xs)\<rparr>)"
    "same_store w (set_lru t e (int (length xs)) m w)"
proof -
  let ?w = "set_lru t e (int (length xs)) m w"
  show ss: "same_store w ?w" using bd by (simp add: same_store_def)
  have "lists_ok (w_blks w) (w_heaps w) g" using inv by (simp add: heap_inv_def)
  then have "lists_ok (w_blks ?w) (w_heaps ?w) (g\<lparr>g_place := pl, g_list := (g_list g)(Recent t := xs)\<rparr>)"
    unfolding set_lru_simps
  proof (rule lists_ok_change_listed [OF _ _ _ heap_agree_recent, where xs = xs])
    show "b_prev (m c) = b_prev (w_blks w c) \<and> b_next (m c) = b_next (w_blks w c)"
      if "g_place g c = Some q" "listed q" "q \<noteq> Recent t" for c q
    proof -
      from that have "c \<notin> set (g_list g (Recent t))" by (simp add: recent_list(4) [OF inv])
      moreover have "c \<notin> set xs" using place [of c] that by (auto split: if_splits)
      ultimately show ?thesis using fr by simp
    qed
    show "if c \<in> set xs
        then g_place (g\<lparr>g_place := pl, g_list := (g_list g)(Recent t := xs)\<rparr>) c = Some (Recent t) \<and>
          (g_place g c = None \<or> g_place g c = Some (Recent t) \<or> g_place g c = Some (Lent (owner (Recent t))))
        else if g_place g c = Some (Recent t)
          then g_place (g\<lparr>g_place := pl, g_list := (g_list g)(Recent t := xs)\<rparr>) c = None \<or>
            g_place (g\<lparr>g_place := pl, g_list := (g_list g)(Recent t := xs)\<rparr>) c = Some (Lent (owner (Recent t)))
          else g_place (g\<lparr>g_place := pl, g_list := (g_list g)(Recent t := xs)\<rparr>) c = g_place g c" for c
      using place [of c] by auto
  qed (use lk in simp_all)
  moreover have "store_ok ?w (g\<lparr>g_place := pl, g_list := (g_list g)(Recent t := xs)\<rparr>)"
    using st ss by (simp add: store_ok_same)
  ultimately show "heap_inv ?w (g\<lparr>g_place := pl, g_list := (g_list g)(Recent t := xs)\<rparr>)"
    by (simp add: heap_inv_def)
qed

text \<open>A block without live buffers changes between lent and recently used.\<close>

definition idle :: "world \<Rightarrow> ghost \<Rightarrow> nat \<Rightarrow> bool" where
  "idle w g b \<longleftrightarrow> (\<forall>p n. g_live g p = Some n \<longrightarrow> h_blk (w_hdrs w (p - 16)) \<noteq> b)"

lemma swap_place:
  assumes s: "store_ok w g" and pl: "g_place g b = Some q" "q = Recent t \<or> q = Lent t"
    and q': "q' = Recent t \<or> q' = Lent t" and id: "idle w g b"
  shows "store_ok w (g\<lparr>g_place := (g_place g)(b := Some q')\<rparr>)"
proof -
  let ?gn = "g\<lparr>g_place := (g_place g)(b := None)\<rparr>"
  have len: "blk_len w g b = b_size (w_blks w b)" using pl by (auto simp: blk_len_def)
  have sn: "store_ok w ?gn" by (rule store_unplace [OF s]) (use id in \<open>auto simp: idle_def\<close>)
  have "store_ok w (?gn\<lparr>g_place := (g_place ?gn)(b := Some q')\<rparr>)"
  proof (rule store_place [OF sn])
    show "{b..<b + b_size (w_blks w b)} \<inter> blk_range w ?gn c = {}" if c: "g_place ?gn c \<noteq> None" for c
    proof -
      from c have "c \<noteq> b" "g_place g c \<noteq> None" by (auto split: if_splits)
      with store_okD(9) [OF s, of b c] pl(1) len show ?thesis
        by (simp add: blk_range_def) (simp add: blk_len_def)
    qed
    show "case q' of InBin t i \<Rightarrow> bin_ok w i b | Spare t \<Rightarrow> True | _ \<Rightarrow> \<not> b_small (w_blks w b)"
      using store_okD(7,8) [OF s, of b t] pl q' by auto
  qed (use store_okD(1-5) [OF s pl(1)] len pl(2) q' in \<open>auto simp: blk_len_def blk_range_def\<close>)
  then show ?thesis by simp
qed

section \<open>Lending a block\<close>

text \<open>Headers may be written in a block that holds nothing.\<close>

lemma lent_hdrs:
  assumes inv: "heap_inv w g" and pl: "g_place g b = Some (Lent t)" and id: "idle w g b"
    and hs: "\<And>a. a \<notin> blk_range w g b \<Longrightarrow> hs a = w_hdrs w a"
  shows "heap_inv (w\<lparr>w_hdrs := hs\<rparr>) g" "idle (w\<lparr>w_hdrs := hs\<rparr>) g b"
    "g_live g p = Some n \<Longrightarrow> chunk_of (w\<lparr>w_hdrs := hs\<rparr>) p = chunk_of w p"
proof -
  let ?w = "w\<lparr>w_hdrs := hs\<rparr>"
  have s: "store_ok w g" using inv by (simp add: heap_inv_def)
  have out: "hs a = w_hdrs w a" if "a \<in> blk_range w g c" "g_place g c \<noteq> None" "c \<noteq> b" for a c
    by (rule hs) (use store_okD(9) [OF s that(2), of b] that pl in auto)
  have "store_ok ?w g"
  proof (rule store_change [OF s, where b = b])
    show "same_at g c w ?w" if c: "g_place g c \<noteq> None" "c \<noteq> b" for c
      using store_okD(3) [OF s] out [OF _ c] c by (auto simp: same_at_def)
    show "blk_len ?w g b = blk_len w g b \<and> blk_range w g b \<subseteq> w_mapped ?w \<and>
        b_tid (w_blks ?w b) = b_tid (w_blks w b) \<and>
        (case q of InBin t i \<Rightarrow> bin_ok ?w i b | Spare t \<Rightarrow> True | _ \<Rightarrow> \<not> b_small (w_blks ?w b))"
      if "g_place g b = Some q" for q
    proof -
      from that pl have q: "q = Lent t" by simp
      show ?thesis unfolding q using store_okD(3,8) [OF s pl] pl by (simp add: blk_len_def)
    qed
  qed (use id in \<open>auto simp: idle_def\<close>)
  then show "heap_inv ?w g" using inv by (simp add: heap_inv_def)
  have hd: "hs (q - 16) = w_hdrs w (q - 16)" if l: "g_live g q = Some m" for q m
  proof (rule out [OF live_in_range(1) [OF s l] live_bounds(1) [OF s l]])
    show "h_blk (w_hdrs w (q - 16)) \<noteq> b" using id l by (simp add: idle_def)
  qed
  with id show "idle ?w g b" by (simp add: idle_def)
  show "g_live g p = Some n \<Longrightarrow> chunk_of ?w p = chunk_of w p" using hd by (simp add: chunk_of_def)
qed

lemma lent_hdr:
  assumes inv: "heap_inv w g" and pl: "g_place g b = Some (Lent t)" and id: "idle w g b"
  shows "heap_inv (set_hdr (b + 64) x w) g" "idle (set_hdr (b + 64) x w) g b"
proof -
  have "b + 64 \<in> blk_range w g b"
    using inv store_okD(5) [of w, OF _ pl] by (simp add: heap_inv_def blk_range_def)
  then have "((w_hdrs w)(b + 64 := x)) a = w_hdrs w a" if "a \<notin> blk_range w g b" for a using that by auto
  from lent_hdrs(1,2) [where hs = "(w_hdrs w)(b + 64 := x)", OF inv pl id this] show "heap_inv (set_hdr (b + 64) x w) g" "idle (set_hdr (b + 64) x w) g b"
    by (simp_all add: set_hdr_def)
qed

lemma lend_inv:
  assumes inv: "heap_inv w g" and pl: "g_place g b = Some (Lent t)" and id: "idle w g b"
    and sz: "sz + 80 \<le> b_size (w_blks w b)"
  defines "w' \<equiv> set_hdr (b + 64) \<lparr>h_blk = b, h_alignment = 0\<rparr> w"
  shows "heap_inv w' (g\<lparr>g_live := (g_live g)(b + 80 := Some sz)\<rparr>)" "g_live g (b + 80) = None"
    "(b + 80) mod 16 = 0"
proof -
  note lh = lent_hdr [OF inv pl id, of "\<lparr>h_blk = b, h_alignment = 0\<rparr>", folded w'_def]
  have s': "store_ok w' g" using lh(1) by (simp add: heap_inv_def)
  have "16 dvd b" using store_okD(2) [OF s' pl] by (simp add: mod_eq_0_iff_dvd)
  moreover have "(16 :: nat) dvd 80" by simp
  ultimately have "16 dvd b + 80" by (rule dvd_add)
  then show al: "(b + 80) mod 16 = 0" by (simp add: mod_eq_0_iff_dvd)
  have hd: "w_hdrs w' (64 + b) = \<lparr>h_blk = b, h_alignment = 0\<rparr>" by (simp add: w'_def add.commute)
  have c: "chunk_of w' (b + 80) = b + 64" by (simp add: chunk_of_def hd)
  from c have c': "chunk_of w' (80 + b) = 64 + b" by (simp only: add.commute)
  have bs: "b_size (w_blks w' b) = b_size (w_blks w b)" by (simp add: w'_def)
  have "live_ok w' g (b + 80) sz"
    using al sz by (simp add: live_ok_def Let_def c' hd pl bs add.commute [of b])
  moreover have "chunk_of w' q \<noteq> b + 64" if l: "g_live g q = Some m" for q m
  proof
    assume "chunk_of w' q = b + 64"
    moreover have "b + 64 \<in> blk_range w' g b" using store_okD(5) [OF s' pl] by (simp add: blk_range_def)
    ultimately show False using foreign_chunk [OF s' pl _ l] lh(2) l by (auto simp: idle_def)
  qed
  ultimately have "store_ok w' (g\<lparr>g_live := (g_live g)(b + 80 := Some sz)\<rparr>)" "g_live g (b + 80) = None"
    using add_live_at [OF s', of "b + 80" sz] c by auto
  with lh(1) show "heap_inv w' (g\<lparr>g_live := (g_live g)(b + 80 := Some sz)\<rparr>)" "g_live g (b + 80) = None"
    by (simp_all add: heap_inv_def)
qed

lemma round_up:
  assumes "0 < (k :: nat)"
  shows "n \<le> (n + (k - 1)) div k * k"
proof -
  have "(n + (k - 1)) mod k < k" using assms by simp
  then show ?thesis using div_mult_mod_eq [of "n + (k - 1)" k] assms by linarith
qed

lemma recent_idle:
  assumes "store_ok w g" "g_place g b = Some (Recent t)"
  shows "idle w g b"
  unfolding idle_def
proof (intro allI impI)
  fix p n assume "g_live g p = Some n"
  then show "h_blk (w_hdrs w (p - 16)) \<noteq> b" by (rule live_place [OF assms(1)]) (use assms(2) in auto)
qed

lemma lru_same: "hp\<lparr>h_lru := e, h_lrucnt := h_lrucnt hp\<rparr> = hp\<lparr>h_lru := e\<rparr>"
  by (cases hp) simp

lemma lru_commute: "hp\<lparr>h_lrucnt := n, h_lru := e\<rparr> = hp\<lparr>h_lru := e, h_lrucnt := n\<rparr>"
  by (cases hp) simp

text \<open>A recently used block is lent again.\<close>

lemma reuse_inv:
  assumes inv: "heap_inv w g" and pl: "g_place g b = Some (Recent t)"
  defines "w' \<equiv> on_lru t (unlink b) (upd_heap t (\<lambda>hp. hp\<lparr>h_lrucnt := h_lrucnt hp - 1\<rparr>) w)"
  obtains xs where
    "heap_inv w' (g\<lparr>g_place := (g_place g)(b := Some (Lent t)), g_list := (g_list g)(Recent t := xs)\<rparr>)"
    "same_store w w'"
proof -
  have s: "store_ok w g" using inv by (simp add: heap_inv_def)
  note rl = recent_list [OF inv, where t = t]
  have b: "b \<in> set (g_list g (Recent t))" using pl rl(4) by simp
  then obtain xs ys where ys: "g_list g (Recent t) = xs @ b # ys" by (meson split_list)
  obtain e m where un: "unlink b (h_lru (w_heaps w t)) (w_blks w) = (e, m)" by (meson surj_pair)
  note lk = unlink_linked [OF rl(1) [unfolded ys] un]
  have "h_lrucnt (w_heaps w t) - 1 = int (length (xs @ ys))" using rl(2) ys by simp
  then have w': "w' = set_lru t e (int (length (xs @ ys))) m w"
    using un by (simp add: w'_def on_lru_def set_lru_def upd_heap_def lru_commute)
  have d: "b \<notin> set (xs @ ys)" using rl(1) ys by (simp add: linked_def)
  have l: "length (xs @ ys) \<le> 16" using rl(3) ys by simp
  have st: "store_ok w (g\<lparr>g_place := (g_place g)(b := Some (Lent t))\<rparr>)"
    by (rule swap_place [OF s pl _ _ recent_idle [OF s pl], of t]) simp_all
  have fr: "m c = w_blks w c" if "c \<notin> set (g_list g (Recent t))" for c
    using that by (rule list_ops_frame(1) [OF rl(1) _ un b])
  have place: "if c \<in> set (xs @ ys)
      then ((g_place g)(b := Some (Lent t))) c = Some (Recent t) \<and> (g_place g c = Some (Recent t) \<or> g_place g c = Some (Lent t))
      else if g_place g c = Some (Recent t)
        then ((g_place g)(b := Some (Lent t))) c = None \<or> ((g_place g)(b := Some (Lent t))) c = Some (Lent t)
        else ((g_place g)(b := Some (Lent t))) c = g_place g c" for c
    using d rl(4) [of c, unfolded ys] pl by auto
  note step = lru_step [OF inv lk l list_ops_body(1) [OF un] fr st place, folded w']
  show ?thesis by (rule that [OF step])
qed

text \<open>A new block is lent.\<close>

lemma lists_ok_lent:
  assumes "lists_ok m hp g" "g_place g b = None"
  shows "lists_ok m hp (g\<lparr>g_place := (g_place g)(b := Some (Lent t))\<rparr>)"
  unfolding lists_ok_def
proof (intro allI impI)
  fix pl assume "listed pl"
  moreover from this have "pl \<noteq> Lent t" by auto
  ultimately show "list_ok m hp pl (g_list (g\<lparr>g_place := (g_place g)(b := Some (Lent t))\<rparr>) pl) \<and>
      (\<forall>c. c \<in> set (g_list (g\<lparr>g_place := (g_place g)(b := Some (Lent t))\<rparr>) pl) \<longleftrightarrow>
         g_place (g\<lparr>g_place := (g_place g)(b := Some (Lent t))\<rparr>) c = Some pl)"
    using assms by (auto simp: lists_ok_def)
qed

lemma lend_new_inv:
  assumes inv: "heap_inv w g" and fr: "fresh w g b len" and len: "80 \<le> len" and tid: "b_tid (w_blks w b) = t"
  defines "w' \<equiv> upd_blk b (\<lambda>x. x\<lparr>b_small := False, b_size := len\<rparr>) w"
  shows "heap_inv w' (g\<lparr>g_place := (g_place g)(b := Some (Lent t))\<rparr>)"
    "idle w' (g\<lparr>g_place := (g_place g)(b := Some (Lent t))\<rparr>) b"
proof -
  let ?g = "g\<lparr>g_place := (g_place g)(b := Some (Lent t))\<rparr>"
  from fr have f: "g_place g b = None" "0 < b" "b mod 16 = 0" "{b..<b + len} \<subseteq> w_mapped w"
    "\<And>c. g_place g c \<noteq> None \<Longrightarrow> {b..<b + len} \<inter> blk_range w g c = {}"
    by (auto simp: fresh_def)
  have ne: "c \<noteq> b" if "g_place g c \<noteq> None" for c using that f(1) by auto
  have i1: "heap_inv w' g"
  proof (rule heap_frame [OF inv])
    show "blk_range w g c \<subseteq> w_mapped w'" if "g_place g c \<noteq> None" for c
      using that inv store_okD(3) [of w g c] by (auto simp: w'_def heap_inv_def)
  qed (use ne in \<open>simp_all add: w'_def\<close>)
  then have s: "store_ok w' g" and l: "lists_ok (w_blks w') (w_heaps w') g" by (simp_all add: heap_inv_def)
  have "store_ok w' ?g"
  proof (rule store_place [OF s f(1,2,3) len])
    show "{b..<b + len} \<inter> blk_range w' g c = {}" if c: "g_place g c \<noteq> None" for c
    proof -
      have "w_blks w' c = w_blks w c" using ne [OF c] by (simp add: w'_def)
      then have "blk_range w' g c = blk_range w g c" by (rule blk_range_same)
      with f(5) [OF c] show ?thesis by simp
    qed
  qed (use f(4) tid in \<open>simp_all add: w'_def blk_len_def\<close>)
  with lists_ok_lent [OF l f(1)] show "heap_inv w' ?g" by (simp add: heap_inv_def)
  show "idle w' ?g b"
    unfolding idle_def
  proof (intro allI impI)
    fix p n assume "g_live ?g p = Some n"
    then have "g_live g p = Some n" by simp
    from live_bounds(1) [OF s this] f(1) show "h_blk (w_hdrs w' (p - 16)) \<noteq> b" by auto
  qed
qed

text \<open>Sizes up to \<open>PTRDIFF_MAX\<close> do not wrap around when the descriptor, the header and the padding are added.\<close>

lemma big_size:
  assumes "sz < 2 ^ 63"
  defines "len \<equiv> (sz + 80 + (BLKSIZE - 1)) div BLKSIZE * BLKSIZE"
  shows "(sz + sizeof_blk + sizeof_hdr) mod 2 ^ 64 = sz + 80"
    "(sz + 80 + (BLKSIZE - 1)) mod 2 ^ 64 div BLKSIZE * BLKSIZE = len"
    "sz + 80 \<le> len" "len + HUGE_PAGE_SIZE < 2 ^ 64"
proof -
  have B: "0 < BLKSIZE" "BLKSIZE = 2097152" "HUGE_PAGE_SIZE = 2097152" by (simp_all add: BLKSIZE_def HUGE_PAGE_SIZE_def)
  show "(sz + sizeof_blk + sizeof_hdr) mod 2 ^ 64 = sz + 80"
    using assms(1) by (simp add: sizeof_blk_def sizeof_hdr_def)
  have "(sz + 80 + (BLKSIZE - 1)) mod 2 ^ 64 = sz + 80 + (BLKSIZE - 1)" using assms(1) B by simp
  then show "(sz + 80 + (BLKSIZE - 1)) mod 2 ^ 64 div BLKSIZE * BLKSIZE = len" unfolding len_def by (simp only:)
  show "sz + 80 \<le> len" unfolding len_def by (rule round_up [OF B(1)])
  have "len \<le> sz + 80 + (BLKSIZE - 1)" unfolding len_def by simp
  with assms(1) B show "len + HUGE_PAGE_SIZE < 2 ^ 64" by simp
qed

lemma nc_malloc_big_inv:
  assumes inv: "heap_inv w g" and os: "good_mmap os" and fuel: "17 \<le> fuel" and lim: "sz < 2 ^ 63"
    and al: "nc_malloc_big fuel os t sz w = Some (p, w')"
  obtains g' where "heap_inv w' g'" "g_live g' = (g_live g)(p := Some sz)" "g_live g p = None"
    "p mod 16 = 0" "16 \<le> p" "h_alignment (w_hdrs w' (p - 16)) = 0"
proof -
  let ?size0 = "sz + 80"
  note bs = big_size [OF lim]
  have s: "store_ok w g" using inv by (simp add: heap_inv_def)
  note rl = recent_list [OF inv, where t = t]
  have hd: "e_head (h_lru (w_heaps w t)) = (if g_list g (Recent t) = [] then 0 else hd (g_list g (Recent t)))"
    and sg: "segment (w_blks w) 0 (g_list g (Recent t)) 0" "0 \<notin> set (g_list g (Recent t))"
    using rl(1) by (simp_all add: linked_def)
  have "length (g_list g (Recent t)) < fuel" using rl(3) fuel by simp
  from find_big_some [OF sg this, of ?size0] obtain b where
    fb: "find_big fuel (w_blks w) (e_head (h_lru (w_heaps w t))) ?size0 = Some b" and
    b: "b = 0 \<or> b \<in> set (g_list g (Recent t)) \<and> ?size0 \<le> b_size (w_blks w b)" unfolding hd by blast
  have "\<exists>b1 w1 g1. heap_inv w1 g1 \<and> g_live g1 = g_live g \<and> g_place g1 b1 = Some (Lent t) \<and> idle w1 g1 b1 \<and>
      ?size0 \<le> b_size (w_blks w1 b1) \<and> p = b1 + 80 \<and> w' = set_hdr (b1 + 64) \<lparr>h_blk = b1, h_alignment = 0\<rparr> w1"
  proof (cases "b = 0")
    case False
    with b have pl: "g_place g b = Some (Recent t)" and sz: "?size0 \<le> b_size (w_blks w b)" by (simp_all add: rl(4))
    let ?w1 = "on_lru t (unlink b) (upd_heap t (\<lambda>hp. hp\<lparr>h_lrucnt := h_lrucnt hp - 1\<rparr>) w)"
    from reuse_inv [OF inv pl] obtain xs where
      r: "heap_inv ?w1 (g\<lparr>g_place := (g_place g)(b := Some (Lent t)), g_list := (g_list g)(Recent t := xs)\<rparr>)"
      and ss: "same_store w ?w1" .
    have eqs: "p = b + 80" "w' = set_hdr (b + 64) \<lparr>h_blk = b, h_alignment = 0\<rparr> ?w1"
      using al [unfolded nc_malloc_big_def bs(1) Let_def fb] False by (simp_all add: size_defs)
    have "idle ?w1 (g\<lparr>g_place := (g_place g)(b := Some (Lent t)), g_list := (g_list g)(Recent t := xs)\<rparr>) b"
      using recent_idle [OF s pl] by (simp add: idle_def same_store_simps [OF ss])
    moreover let ?g1 = "g\<lparr>g_place := (g_place g)(b := Some (Lent t)), g_list := (g_list g)(Recent t := xs)\<rparr>"
    have "?size0 \<le> b_size (w_blks ?w1 b)" using sz same_store_simps(9) [OF ss] by simp
    ultimately show ?thesis using r eqs
      by (intro exI [of _ b] exI [of _ ?w1] exI [of _ ?g1] conjI) simp_all
  next
    case True
    let ?len = "(?size0 + (BLKSIZE - 1)) div BLKSIZE * BLKSIZE"
    have rd: "?size0 \<le> ?len" by (rule bs(3))
    from al [unfolded nc_malloc_big_def bs(1) Let_def fb bs(2)] True obtain b1 w1 where bk: "bklalloc os t ?len w = Some (b1, w1)" and p: "p = b1 + 80" and
      w': "w' = set_hdr (b1 + 64) \<lparr>h_blk = b1, h_alignment = 0\<rparr>
        (upd_blk b1 (\<lambda>x. x\<lparr>b_small := False, b_size := ?len\<rparr>) w1)"
 by (auto simp: sizeof_blk_def sizeof_hdr_def split: option.splits)
    have "0 < ?len" using rd by linarith
    note ba = bklalloc_inv [OF inv os this bs(4) bk]
    have "80 \<le> ?len" using rd by linarith
    note ln = lend_new_inv [OF ba(1,2) this ba(3)]
    let ?w1 = "upd_blk b1 (\<lambda>x. x\<lparr>b_small := False, b_size := ?len\<rparr>) w1"
    let ?g1 = "g\<lparr>g_place := (g_place g)(b1 := Some (Lent t))\<rparr>"
    show ?thesis using ln p w' rd
      by (intro exI [of _ b1] exI [of _ ?w1] exI [of _ ?g1] conjI) simp_all
  qed
  then obtain w1 g1 b1 where g1: "heap_inv w1 g1" "g_live g1 = g_live g" "g_place g1 b1 = Some (Lent t)"
    "idle w1 g1 b1" "?size0 \<le> b_size (w_blks w1 b1)" "p = b1 + 80"
    "w' = set_hdr (b1 + 64) \<lparr>h_blk = b1, h_alignment = 0\<rparr> w1" by blast
  from lend_inv [OF g1(1,3,4,5)] g1(2,6,7) show ?thesis
    by (intro that [of "g1\<lparr>g_live := (g_live g1)(b1 + 80 := Some sz)\<rparr>"]) simp_all
qed

section \<open>The free of a big buffer\<close>

lemma nc_free_big_push:
  assumes inv: "heap_inv w g" and pl: "g_place g b = Some (Lent t)"
    and hd: "h_blk (w_hdrs w h) = b" and pn: "push_new b (h_lru (w_heaps w t)) (w_blks w) = (e, m)"
  shows "nc_free_big t h w =
    (if h_lrucnt (w_heaps w t) < BIG_BLK_MAP_TRESH then set_lru t e (h_lrucnt (w_heaps w t) + 1) m w
     else case drop_tail e m of (e', m') \<Rightarrow>
       munmap (e_tail e) (b_size (w_blks w (e_tail e))) (set_lru t e' (h_lrucnt (w_heaps w t)) m' w))"
proof -
  let ?e = "h_lru (w_heaps w t)"
  note rl = recent_list [OF inv, where t = t]
  have nb: "e_head ?e \<noteq> b \<or> e_head ?e = 0"
  proof (cases "g_list g (Recent t) = []")
    case False
    have "b \<notin> set (g_list g (Recent t))" using rl(4) [of b] pl by simp
    with hd_in_set [OF False] have "hd (g_list g (Recent t)) \<noteq> b" by metis
    with False rl(1) show ?thesis by (simp add: linked_def)
  qed (use rl(1) in \<open>simp add: linked_def\<close>)
  have tl: "e_tail ?e = 0 \<longleftrightarrow> h_lrucnt (w_heaps w t) = 0"
    using rl(1,2) linked_last [OF rl(1)] by (cases "g_list g (Recent t) = []") (auto simp: linked_def)
  have m: "m = set_next b (e_head ?e) (set_prev b 0 (if e_head ?e \<noteq> 0 then set_prev (e_head ?e) b (w_blks w) else w_blks w))"
    using pn nb by (auto simp: push_new_def Let_def set_links_commute)
  have e: "e = (if h_lrucnt (w_heaps w t) = 0 then ?e\<lparr>e_head := b, e_tail := b\<rparr> else ?e\<lparr>e_head := b\<rparr>)"
    using pn tl by (auto simp: push_new_def Let_def split: if_splits)
  have c0: "0 \<le> h_lrucnt (w_heaps w t)" using rl(2) by simp
  show ?thesis
  proof (cases "h_lrucnt (w_heaps w t) < BIG_BLK_MAP_TRESH")
    case True
    then show ?thesis
      using c0 by (simp add: nc_free_big_def Let_def hd m e set_lru_def upd_heap_def lru_commute)
  next
    case False
    then have "h_lrucnt (w_heaps w t) \<noteq> 0" by (simp add: BIG_BLK_MAP_TRESH_def)
    with False show ?thesis
      by (simp add: nc_free_big_def Let_def hd m e on_lru_def set_lru_def upd_heap_def links_only lru_same
          split: prod.split)
  qed
qed

lemma nc_free_big_inv:
  assumes inv: "heap_inv w g" and pl: "g_place g b = Some (Lent t)" and id: "idle w g b"
    and hd: "h_blk (w_hdrs w h) = b"
  obtains g' where "heap_inv (nc_free_big t h w) g'" "g_live g' = g_live g"
proof -
  have s: "store_ok w g" using inv by (simp add: heap_inv_def)
  let ?g1 = "g\<lparr>g_place := (g_place g)(b := Some (Recent t))\<rparr>" and ?n = "h_lrucnt (w_heaps w t)"
  have s1: "store_ok w ?g1" by (rule swap_place [OF s pl _ _ id, of t]) simp_all
  note rl = recent_list [OF inv, where t = t]
  have b: "b \<notin> set (g_list g (Recent t))" "b \<noteq> 0" using rl(4) [of b] pl store_okD(1) [OF s pl] by auto
  obtain e m where pn: "push_new b (h_lru (w_heaps w t)) (w_blks w) = (e, m)" by (meson surj_pair)
  note lk = push_new_linked [OF rl(1) b pn] and eq = nc_free_big_push [OF inv pl hd pn]
  show ?thesis
  proof (cases "?n < BIG_BLK_MAP_TRESH")
    case True
    then have l: "length (b # g_list g (Recent t)) \<le> 16" using rl(2) by (simp add: BIG_BLK_MAP_TRESH_def)
    have n: "?n + 1 = int (length (b # g_list g (Recent t)))" using rl(2) by simp
    have fr: "m c = w_blks w c" if "c \<notin> set (g_list g (Recent t))" "c \<notin> set (b # g_list g (Recent t))" for c
      by (rule list_ops_frame(2) [OF rl(1) that(1) pn]) (use that in simp)
    have place: "if c \<in> set (b # g_list g (Recent t))
        then ((g_place g)(b := Some (Recent t))) c = Some (Recent t) \<and> (g_place g c = Some (Recent t) \<or> g_place g c = Some (Lent t))
        else if g_place g c = Some (Recent t)
          then ((g_place g)(b := Some (Recent t))) c = None \<or> ((g_place g)(b := Some (Recent t))) c = Some (Lent t)
          else ((g_place g)(b := Some (Recent t))) c = g_place g c" for c
      using rl(4) [of c] pl by auto
    note step = lru_step(1) [OF inv lk l list_ops_body(2) [OF pn] fr s1 place, folded n]
    from True have e: "nc_free_big t h w = set_lru t e (?n + 1) m w" by (simp add: eq)
    show ?thesis by (rule that [OF step [folded e]]) simp_all
  next
    case False
    then have n: "?n = 16" "length (g_list g (Recent t)) = 16" using rl(2,3) by (simp_all add: BIG_BLK_MAP_TRESH_def)
    then obtain ys c where ys: "g_list g (Recent t) = ys @ [c]" "ys \<noteq> []"
      by (cases "g_list g (Recent t)" rule: rev_cases) fastforce+
    obtain e' m' where dt: "drop_tail e m = (e', m')" by (meson surj_pair)
    from lk ys have lk0: "linked m e ((b # ys) @ [c])" by simp
    note lk' = drop_tail_linked [OF lk0 _ dt, simplified]
    have tl: "e_tail e = c" using lk0 by (simp add: linked_def)
    have l: "length (b # ys) \<le> 16" and n': "?n = int (length (b # ys))" using n ys by simp_all
    have dist: "distinct (ys @ [c])" using rl(1) ys by (simp add: linked_def)
    have cb: "c \<noteq> b" "g_place g c = Some (Recent t)" using b(1) ys rl(4) [of c] by auto
    let ?pl = "(g_place g)(b := Some (Recent t), c := None)"
    have bd: "body (m' x) = body (w_blks w x)" for x
      using list_ops_body(2) [OF pn, of x] list_ops_body(5) [OF dt, of x] by simp
    have fr: "m' x = w_blks w x" if "x \<notin> set (g_list g (Recent t))" "x \<notin> set (b # ys)" for x
    proof -
      have "x \<notin> set ((b # ys) @ [c])" using that ys by simp
      then have "m' x = m x" by (rule list_ops_frame(5) [OF lk0 _ dt, where ys = "b # ys" and b = c]) simp_all
      also have "\<dots> = w_blks w x" by (rule list_ops_frame(2) [OF rl(1) that(1) pn]) (use that in simp)
      finally show ?thesis .
    qed
    have ic: "idle w ?g1 c" by (rule recent_idle [OF s1, of c t]) (use cb in simp)
    have "store_ok w (?g1\<lparr>g_place := (g_place ?g1)(c := None)\<rparr>)"
      by (rule store_unplace [OF s1]) (use ic in \<open>simp add: idle_def\<close>)
    then have st: "store_ok w (g\<lparr>g_place := ?pl\<rparr>)" by simp
    have place: "if x \<in> set (b # ys)
        then ?pl x = Some (Recent t) \<and> (g_place g x = Some (Recent t) \<or> g_place g x = Some (Lent t))
        else if g_place g x = Some (Recent t) then ?pl x = None \<or> ?pl x = Some (Lent t) else ?pl x = g_place g x" for x
      using rl(4) [of x, unfolded ys] pl cb dist by auto
    let ?w = "set_lru t e' ?n m' w" and ?g = "g\<lparr>g_place := ?pl, g_list := (g_list g)(Recent t := b # ys)\<rparr>"
    note step = lru_step [OF inv lk' l bd fr st place, folded n']
    have len: "blk_len ?w ?g1 x = blk_len w ?g1 x" for x by (rule same_store_derived(4) [OF step(2)])
    have "fresh ?w ?g c (blk_len w ?g1 c)"
      by (rule unplace_fresh [OF s1, of c "Recent t"]) (use cb len in simp_all)
    moreover have "blk_len w ?g1 c = b_size (w_blks w c)" using cb by (simp add: blk_len_def)
    ultimately have "fresh ?w ?g c (b_size (w_blks w c))" by simp
    note dr = drop_fresh_inv [OF step(1) this]
    have e: "nc_free_big t h w = munmap c (b_size (w_blks w c)) ?w" using False by (simp add: eq dt tl)
    show ?thesis by (rule that [OF dr [folded e]]) simp_all
  qed
qed

end
