(* ===== verification/NcallocRun.thy ===== *)
theory NcallocRun
  imports NcallocBig
begin

text \<open>
  The entry points of the allocator and what a program sees of them: in every run the buffers
  the program holds are apart from each other and from the data of the allocator.
\<close>

section \<open>Free\<close>

text \<open>The header at the start of the chunk is made that of an unaligned buffer.\<close>

lemma nc_free_eq:
  assumes s: "store_ok w g" and l: "g_live g p = Some n"
  defines "b \<equiv> h_blk (w_hdrs w (p - 16))" and "h \<equiv> chunk_of w p"
  shows "nc_free p w =
    (let w1 = set_hdr h \<lparr>h_blk = b, h_alignment = 0\<rparr> w; t = b_tid (w_blks w b)
     in if b_small (w_blks w b) then nc_free_small t h w1 else nc_free_big t h w1)"
proof -
  let ?a = "h_alignment (w_hdrs w (p - 16))"
  have lo: "16 + ?a \<le> p" "w_hdrs w h = \<lparr>h_blk = b, h_alignment = ?a\<rparr>"
    using store_okD(10) [OF s l] by (simp_all add: live_ok_def Let_def b_def h_def)
  have "set_hdr h \<lparr>h_blk = b, h_alignment = 0\<rparr> w = w" if "?a = 0"
    using lo(2) that by (auto simp: set_hdr_def fun_upd_idem)
  moreover have "h = p - 16 - ?a" by (simp add: h_def chunk_of_def)
  ultimately show ?thesis
    using lo by (simp add: nc_free_def Let_def sizeof_hdr_def b_def)
qed

text \<open>Headers may be written in the chunk of a buffer that is no longer held.\<close>

lemma chunk_hdrs:
  assumes s: "store_ok w g" and l: "g_live g p = Some n" and pl: "g_place g b = Some (InBin t i)"
    and b: "h_blk (w_hdrs w (p - 16)) = b"
    and hs: "\<And>a. a \<notin> {chunk_of w p..<chunk_of w p + bin_chunk i} \<Longrightarrow> hs a = w_hdrs w a"
  defines "w' \<equiv> w\<lparr>w_hdrs := hs\<rparr>" and "g' \<equiv> g\<lparr>g_live := (g_live g)(p := None)\<rparr>"
  shows "store_ok w' g'" "g_live g' q = Some m \<Longrightarrow> chunk_of w' q = chunk_of w q \<and> chunk_of w q \<noteq> chunk_of w p"
proof -
  let ?h = "chunk_of w p" and ?z = "bin_chunk i"
  have s': "store_ok w g'" unfolding g'_def by (rule remove_live [OF s])
  have pl': "g_place g' b = Some (InBin t i)" by (simp add: g'_def pl)
  note ok = store_okD(6) [OF s pl] note okD = bin_okD [OF ok]
  from live_in_chunk [OF s l pl b] obtain k where k: "k < cuts (w_blks w b)" "?h = chunk b ?z k"
    "?h \<notin> set (free_list w b)" .
  have kn: "k < chunk_count ?z" using k(1) cuts_le [OF ok] by simp
  have z: "16 \<le> ?z" using okD(1) by (simp add: good_bin_def)
  have other: "chunk_of w q \<noteq> ?h" if "g_live g' q = Some m" for q m
    using store_okD(11) [OF s, of q p] that l by (auto simp: g'_def split: if_splits)
  have f: "free_list w' b = free_list w b" by (simp add: w'_def free_list_def)
  have bl: "w_blks w' = w_blks w" "w_hdrs w' = hs" by (simp_all add: w'_def)
  have "hs c = w_hdrs w c" if "c \<in> set (free_list w b)" for c
  proof (rule hs)
    from okD(14) [OF that] obtain j where j: "c = chunk b ?z j" by blast
    with that k have "j \<noteq> k" by auto
    from chunks_apart [OF this, of b ?z] z show "c \<notin> {?h..<?h + ?z}" by (auto simp: j k(2))
  qed
  then have ok': "bin_ok w' i b"
    using okD(1-13) okD(14,15) by (simp add: bin_ok_def Let_def f bl)
  show "store_ok w' g'"
  proof (rule bin_change [OF s' pl' _ _ _ ok'])
    have "{?h..<?h + ?z} \<subseteq> blk_range w g' b" using chunk_in_blk [OF ok pl' kn] by (auto simp: k(2))
    then show "w_hdrs w' a = w_hdrs w a \<and> w_cells w' a = w_cells w a" if "a \<notin> blk_range w g' b" for a
    proof -
      have "hs a = w_hdrs w a" by (rule hs) (use that \<open>{?h..<?h + ?z} \<subseteq> blk_range w g' b\<close> in blast)
      then show ?thesis by (simp add: w'_def)
    qed
    fix q m j assume j: "j < cuts (w_blks w b)" and lq: "g_live g' q = Some m" and bq: "h_blk (w_hdrs w (q - 16)) = b"
    from live_in_chunk [OF s' lq pl' bq] have "chunk_of w q \<notin> set (free_list w b)" by blast
    moreover have "hs a = w_hdrs w a" if "chunk_of w q \<le> a" "a < chunk_of w q + ?z" for a
      by (rule hs) (use outside_chunk(2) [OF s' pl' kn k(2) lq other [OF lq] bq] that in auto)
    ultimately show "j < cuts (w_blks w' b) \<and> chunk_of w q \<notin> set (free_list w' b) \<and>
      (\<forall>a. chunk_of w q \<le> a \<and> a < chunk_of w q + ?z \<longrightarrow> w_hdrs w' a = w_hdrs w a)"
      using j by (simp add: f bl)
  qed (simp_all add: w'_def)
  show "g_live g' q = Some m \<Longrightarrow> chunk_of w' q = chunk_of w q \<and> chunk_of w q \<noteq> ?h"
  proof -
    assume lq: "g_live g' q = Some m"
    have "hs (q - 16) = w_hdrs w (q - 16)"
      by (rule hs) (rule outside_chunk(1) [OF s' pl' kn k(2) lq other [OF lq]])
    with other [OF lq] show ?thesis by (simp add: chunk_of_def bl)
  qed
qed

lemma free_hdr:
  assumes s: "store_ok w g" and l: "g_live g p = Some n" and pl: "g_place g b = Some (InBin t i)"
    and b: "h_blk (w_hdrs w (p - 16)) = b"
  defines "w' \<equiv> set_hdr (chunk_of w p) \<lparr>h_blk = b, h_alignment = 0\<rparr> w"
    and "g' \<equiv> g\<lparr>g_live := (g_live g)(p := None)\<rparr>"
  shows "store_ok w' g'" "taken w' g' i b (chunk_of w p)"
proof -
  let ?hs = "(w_hdrs w)(chunk_of w p := \<lparr>h_blk = b, h_alignment = 0\<rparr>)"
  have w': "w' = w\<lparr>w_hdrs := ?hs\<rparr>" by (simp add: w'_def set_hdr_def)
  have z: "16 \<le> bin_chunk i" using bin_okD(1) [OF store_okD(6) [OF s pl]] by (simp add: good_bin_def)
  then have hs: "?hs a = w_hdrs w a" if "a \<notin> {chunk_of w p..<chunk_of w p + bin_chunk i}" for a using that by auto
  note ch = chunk_hdrs [where hs = ?hs, OF s l pl b hs, folded w' g'_def]
  show "store_ok w' g'" by (rule ch(1))
  have f: "free_list w' b = free_list w b" and bl: "w_blks w' = w_blks w" by (simp_all add: w'_def free_list_def)
  from live_in_chunk [OF s l pl b] obtain k where "k < cuts (w_blks w b)" "chunk_of w p = chunk b (bin_chunk i) k"
    "chunk_of w p \<notin> set (free_list w b)" .
  with pl ch(2) show "taken w' g' i b (chunk_of w p)"
    by (auto simp: taken_def f bl) (auto simp: g'_def w')
qed

text \<open>A big block holds one buffer only.\<close>

lemma lent_idle:
  assumes s: "store_ok w g" and l: "g_live g p = Some n"
    and pl: "g_place g (h_blk (w_hdrs w (p - 16))) = Some (Lent t)"
  shows "idle w (g\<lparr>g_live := (g_live g)(p := None)\<rparr>) (h_blk (w_hdrs w (p - 16)))"
  unfolding idle_def
proof (intro allI impI notI)
  let ?b = "h_blk (w_hdrs w (p - 16))" and ?g = "g\<lparr>g_live := (g_live g)(p := None)\<rparr>"
  fix q m assume q: "g_live ?g q = Some m" and b: "h_blk (w_hdrs w (q - 16)) = ?b"
  then have lq: "g_live g q = Some m" "q \<noteq> p" by (auto split: if_splits)
  from store_okD(10) [OF s lq(1)] store_okD(10) [OF s l] pl b have "chunk_of w q = chunk_of w p"
    by (simp add: live_ok_def Let_def)
  with store_okD(11) [OF s, of q p] lq l show False by auto
qed

lemma nc_free_inv:
  assumes inv: "heap_inv w g" and l: "g_live g p = Some n"
  obtains g' where "heap_inv (nc_free p w) g'" "g_live g' = (g_live g)(p := None)"
proof -
  let ?b = "h_blk (w_hdrs w (p - 16))" and ?h = "chunk_of w p"
  let ?g = "g\<lparr>g_live := (g_live g)(p := None)\<rparr>" and ?w = "set_hdr ?h \<lparr>h_blk = ?b, h_alignment = 0\<rparr> w"
  have s: "store_ok w g" and lw: "lists_ok (w_blks w) (w_heaps w) g" using inv by (simp_all add: heap_inv_def)
  note eq = nc_free_eq [OF s l, unfolded Let_def]
  show ?thesis
  proof (rule live_place [OF s l])
    fix t i assume pl: "g_place g ?b = Some (InBin t i)"
    note fh = free_hdr [OF s l pl refl]
    have i1: "heap_inv ?w ?g" using fh(1) lw by (simp add: heap_inv_def)
    have "g_place ?g ?b = Some (InBin t i)" using pl by simp
    from nc_free_small_inv [OF i1 fh(2) this] obtain g' where
      "heap_inv (nc_free_small t ?h ?w) g'" "g_live g' = g_live ?g" .
    moreover have "nc_free p w = nc_free_small t ?h ?w"
      using bin_okD(2) [OF store_okD(6) [OF s pl]] store_okD(4) [OF s pl] by (simp add: eq)
    ultimately show ?thesis by (intro that [of g']) simp_all
  next
    fix t assume pl: "g_place g ?b = Some (Lent t)"
    have s1: "store_ok w ?g" by (rule remove_live [OF s])
    have i1: "heap_inv w ?g" using s1 lw by (simp add: heap_inv_def)
    have h: "?h = ?b + 64" using store_okD(10) [OF s l] pl by (simp add: live_ok_def Let_def)
    note id = lent_idle [OF s l pl]
    have pl1: "g_place ?g ?b = Some (Lent t)" using pl by simp
    note lh = lent_hdr [OF i1 pl1 id, folded h]
    have "h_blk (w_hdrs ?w ?h) = ?b" by simp
    from nc_free_big_inv [OF lh(1) pl1 lh(2) this] obtain g' where
      "heap_inv (nc_free_big t ?h ?w) g'" "g_live g' = g_live ?g" .
    moreover have "nc_free p w = nc_free_big t ?h ?w"
      using store_okD(4,8) [OF s pl] by (simp add: eq)
    ultimately show ?thesis by (intro that [of g']) simp_all
  qed
qed

section \<open>Malloc and memalign\<close>

text \<open>
  The requests whose bin has one chunk size only, up to \<open>PTRDIFF_MAX\<close>: the sum of a larger size
  and the descriptor may wrap around.
\<close>

definition one_size :: "nat \<Rightarrow> bool" where
  "one_size sz \<longleftrightarrow> sz \<noteq> 65520 \<and> sz < 2 ^ 63"

text \<open>The memory of a process lies in the lower half of the addresses (below \<open>2 ^ 47\<close>, in fact).\<close>

definition user_space :: "world \<Rightarrow> bool" where
  "user_space w \<longleftrightarrow> w_mapped w \<subseteq> {..<2 ^ 63}"

lemma nc_malloc_inv:
  assumes inv: "heap_inv w g" and os: "good_mmap os" and fuel: "17 \<le> fuel" and sz: "one_size sz"
    and al: "nc_malloc fuel os t sz w = Some (p, w')"
  obtains g' where "heap_inv w' g'" "g_live g' = (g_live g)(p := Some sz)" "g_live g p = None"
    "p mod 16 = 0" "16 \<le> p" "h_alignment (w_hdrs w' (p - 16)) = 0"
proof (cases "sz \<le> SMALL_MAX")
  case True
  with al have "nc_malloc_small os t sz w = Some (p, w')"
    by (auto simp: nc_malloc_def split: option.splits if_splits)
  moreover have "sz \<noteq> 65520" using sz by (simp add: one_size_def)
  ultimately show ?thesis using nc_malloc_small_inv [OF inv os True] that by metis
next
  case False
  with al have "nc_malloc_big fuel os t sz w = Some (p, w')"
    by (auto simp: nc_malloc_def split: option.splits if_splits)
  moreover have "sz < 2 ^ 63" using sz by (simp add: one_size_def)
  ultimately show ?thesis using nc_malloc_big_inv [OF inv os fuel] that by metis
qed

text \<open>A buffer is shifted within its chunk.\<close>

definition shift_hdrs :: "nat \<Rightarrow> nat \<Rightarrow> world \<Rightarrow> world" where
  "shift_hdrs p0 shift w =
     (let w = set_hdr (p0 - sizeof_hdr) ((w_hdrs w (p0 - sizeof_hdr))\<lparr>h_alignment := shift\<rparr>) w
      in set_hdr (p0 + shift - sizeof_hdr) (w_hdrs w (p0 - sizeof_hdr)) w)"

lemma shift_inv:
  assumes inv: "heap_inv w g" and l: "g_live g p = Some n" and a0: "h_alignment (w_hdrs w (p - 16)) = 0"
    and d: "16 \<le> d" "d mod 16 = 0" "d + m \<le> n"
  defines "g' \<equiv> g\<lparr>g_live := (g_live g)(p := None, p + d := Some m)\<rparr>"
  shows "heap_inv (shift_hdrs p d w) g'" "((g_live g)(p := None)) (p + d) = None"
proof -
  let ?b = "h_blk (w_hdrs w (p - 16))" and ?h = "p - 16"
  let ?x = "\<lparr>h_blk = ?b, h_alignment = d\<rparr>"
  let ?hs = "(w_hdrs w)(?h := ?x, ?h + d := ?x)"
  define W where "W = w\<lparr>w_hdrs := ?hs\<rparr>"
  let ?g = "g\<lparr>g_live := (g_live g)(p := None)\<rparr>"
  have s: "store_ok w g" and lw: "lists_ok (w_blks w) (w_heaps w) g" using inv by (simp_all add: heap_inv_def)
  note lo = store_okD(10) [OF s l, unfolded live_ok_def Let_def]
  have p: "16 \<le> p" "p mod 16 = 0" using lo by simp_all
  have c: "chunk_of w p = ?h" by (simp add: chunk_of_def a0)
  have pd: "p + d - 16 = ?h + d" using p by simp
  have weq: "shift_hdrs p d w = W"
  proof -
    have x: "(w_hdrs w ?h)\<lparr>h_alignment := d\<rparr> = ?x" by (cases "w_hdrs w ?h") simp
    show ?thesis unfolding shift_hdrs_def Let_def sizeof_hdr_def pd set_hdr_def x W_def by simp
  qed
  have c': "chunk_of W (p + d) = ?h" using d(1) by (simp add: chunk_of_def W_def pd)
  have hd: "w_hdrs W ?h = ?x" "w_hdrs W (p + d - 16) = ?x" using pd by (simp_all add: W_def)
  have fl: "free_list W b = free_list w b" and bl: "w_blks W = w_blks w" for b
    by (simp_all add: W_def free_list_def)
  have al: "(p + d) mod 16 = 0" using p(2) d(2) by presburger
  have "store_ok W ?g \<and> live_ok W ?g (p + d) m \<and>
    (\<forall>q k. g_live ?g q = Some k \<longrightarrow> chunk_of W q \<noteq> ?h)"
  proof (rule live_place [OF s l])
    fix t i assume pl: "g_place g ?b = Some (InBin t i)"
    from live_in_chunk [OF s l pl refl, unfolded c] obtain k where k: "k < cuts (w_blks w ?b)"
      "?h = chunk ?b (bin_chunk i) k" "?h \<notin> set (free_list w ?b)" "p + n \<le> ?h + bin_chunk i" .
    have hs: "?hs a = w_hdrs w a" if "a \<notin> {chunk_of w p..<chunk_of w p + bin_chunk i}" for a
      using that k(4) d p by (auto simp: c)
    have ch1: "store_ok W ?g" unfolding W_def by (rule chunk_hdrs(1) [OF s l pl refl]) (rule hs)
    have ch2: "chunk_of W q = chunk_of w q \<and> chunk_of w q \<noteq> chunk_of w p" if "g_live ?g q = Some k" for q k
      unfolding W_def by (rule chunk_hdrs(2) [OF s l pl refl hs that])
    have "live_ok W ?g (p + d) m"
      using al k d p pl by (simp add: live_ok_def Let_def c' hd fl bl) blast
    moreover have "chunk_of W q \<noteq> ?h" if "g_live ?g q = Some k" for q k
      using ch2 [OF that] c by simp
    ultimately show ?thesis using ch1 by blast
  next
    fix t assume pl: "g_place g ?b = Some (Lent t)"
    have lo': "?h = ?b + 64" "p + n \<le> ?b + b_size (w_blks w ?b)" using lo pl c by (simp_all add: a0)
    have s1: "store_ok w ?g" by (rule remove_live [OF s])
    have i1: "heap_inv w ?g" using s1 lw by (simp add: heap_inv_def)
    have pl1: "g_place ?g ?b = Some (Lent t)" using pl by simp
    have id: "idle w ?g ?b" by (rule lent_idle [OF s l pl])
    have hs: "?hs a = w_hdrs w a" if "a \<notin> blk_range w ?g ?b" for a
      using that lo' d p pl by (auto simp: blk_range_def blk_len_def)
    have lh1: "heap_inv W ?g" unfolding W_def by (rule lent_hdrs(1) [OF i1 pl1 id hs])
    have lh3: "chunk_of W q = chunk_of w q" if "g_live ?g q = Some k" for q k
      unfolding W_def by (rule lent_hdrs(3) [OF i1 pl1 id hs that])
    have "live_ok W ?g (p + d) m"
      using al lo' d p pl by (simp add: live_ok_def Let_def c' hd bl)
    moreover have "chunk_of W q \<noteq> ?h" if lq: "g_live ?g q = Some k" for q k
      using lh3 [OF lq] store_okD(11) [OF s, of q p] lq l c by (auto split: if_splits)
    ultimately show ?thesis using lh1 by (simp add: heap_inv_def)
  qed
  then have st: "store_ok W ?g" "live_ok W ?g (p + d) m" "\<And>q k. g_live ?g q = Some k \<Longrightarrow> chunk_of W q \<noteq> chunk_of W (p + d)"
    unfolding c' by blast+
  from add_live_at [OF st] lw show "heap_inv (shift_hdrs p d w) g'" "((g_live g)(p := None)) (p + d) = None"
    by (simp_all add: weq heap_inv_def g'_def bl) (simp_all add: W_def)
qed

lemma power_of_two_16:
  assumes "a AND (a - 1) = 0" "16 < (a :: nat)"
  shows "16 dvd a"
proof (rule ccontr)
  assume "\<not> 16 dvd a"
  then have "a mod 16 \<noteq> 0" by (simp add: mod_eq_0_iff_dvd)
  moreover have "a = 16 * (a div 16) + a mod 16" "a mod 16 < 16" by simp_all
  moreover define q r where "q = a div 16" and "r = a mod 16"
  ultimately have "a = 16 * q + r" "0 < r" "r < 16" by simp_all
  then have "(a - 1) div 16 = q" by (intro div_nat_eqI) simp_all
  then have e: "(a - 1) div 16 = a div 16" by (simp add: q_def)
  have "drop_bit 4 (a AND (a - 1)) = drop_bit 4 a AND drop_bit 4 (a - 1)" by (rule drop_bit_and)
  also have "\<dots> = a div 16" using e by (simp add: drop_bit_eq_div)
  finally have "a div 16 = 0" unfolding assms(1) by simp
  then show False using assms(2) by simp
qed

lemma round_up_less:
  assumes "0 < (k :: nat)"
  shows "(n + (k - 1)) div k * k < n + k"
proof -
  have "(n + (k - 1)) div k * k \<le> n + (k - 1)" by simp
  with assms show ?thesis by linarith
qed

lemma resize_inv:
  assumes inv: "heap_inv w g" and l: "g_live g p = Some n" and m: "live_ok w g p m"
  shows "heap_inv w (g\<lparr>g_live := (g_live g)(p := Some m)\<rparr>)"
proof -
  have s: "store_ok w g" using inv by (simp add: heap_inv_def)
  have "store_ok w (g\<lparr>g_live := (g_live g)(p := Some m)\<rparr>)"
  proof (rule store_ok_live_upd [OF s])
    show "live_ok w g q k" if "((g_live g)(p := Some m)) q = Some k" for q k
      using that m store_okD(10) [OF s] by (cases "q = p") simp_all
    show "q = r" if "((g_live g)(p := Some m)) q \<noteq> None" "((g_live g)(p := Some m)) r \<noteq> None"
        "chunk_of w q = chunk_of w r" for q r
    proof (rule store_okD(11) [OF s _ _ that(3)])
      show "g_live g q \<noteq> None" using that(1) l by (cases "q = p") simp_all
      show "g_live g r \<noteq> None" using that(2) l by (cases "r = p") simp_all
    qed
  qed
  then show ?thesis using inv by (simp add: heap_inv_def)
qed

lemma shrink_inv:
  assumes inv: "heap_inv w g" and l: "g_live g p = Some n" and m: "m \<le> n"
  shows "heap_inv w (g\<lparr>g_live := (g_live g)(p := Some m)\<rparr>)"
proof (rule resize_inv [OF inv l])
  have "live_ok w g p n" using inv store_okD(10) [OF _ l] by (simp add: heap_inv_def)
  with m show "live_ok w g p m"
    by (auto simp: live_ok_def Let_def split: option.splits place.splits)
qed

lemma memalign_shift:
  assumes "p0 < 2 ^ 63" "0 < a" "a < (2 ^ 63 :: nat)"
  defines "p1 \<equiv> (p0 + (a - 1)) div a * a"
  shows "(p0 + (a - 1)) mod 2 ^ 64 div a * a = p1" "(p1 + 2 ^ 64 - p0) mod 2 ^ 64 = p1 - p0" "p0 \<le> p1"
proof -
  have "(p0 + (a - 1)) mod 2 ^ 64 = p0 + (a - 1)" using assms(1-3) by simp
  then show "(p0 + (a - 1)) mod 2 ^ 64 div a * a = p1" unfolding p1_def by (simp only:)
  show le: "p0 \<le> p1" unfolding p1_def by (rule round_up [OF assms(2)])
  have "p1 < p0 + a" unfolding p1_def by (rule round_up_less [OF assms(2)])
  then have "p1 - p0 < 2 ^ 64" using assms(3) by simp
  moreover have "p1 + 2 ^ 64 - p0 = (p1 - p0) + 2 ^ 64" using le by simp
  ultimately show "(p1 + 2 ^ 64 - p0) mod 2 ^ 64 = p1 - p0" by (simp only: mod_add_self2 mod_less)
qed

lemma nc_memalign_some:
  assumes "16 < a" "a AND (a - 1) = 0" "a + sz < 2 ^ 63"
    and m: "nc_malloc fuel os t (a + sz) w = Some (p0, w1)" and p0: "p0 < 2 ^ 63"
  defines "p1 \<equiv> (p0 + (a - 1)) div a * a"
  shows "nc_memalign fuel os t a sz w = Some (p1, if p1 - p0 > 0 then shift_hdrs p0 (p1 - p0) w1 else w1)"
proof -
  have a: "0 < a" "a < 2 ^ 63" using assms(1,3) by simp_all
  note sh = memalign_shift [OF p0 a, folded p1_def]
  have s: "(a + sz) mod 2 ^ 64 = a + sz" using assms(3) by simp
  have pd: "p0 + (p1 - p0) = p1" using sh(3) by simp
  have o: "(if a \<ge> sizeof_hdr then a else sizeof_hdr) = a" "\<not> a \<le> 16" "\<not> (a = 0 \<or> a AND (a - 1) \<noteq> 0)"
    using assms(1,2) by (simp_all add: sizeof_hdr_def)
  show ?thesis
    unfolding nc_memalign_def Let_def if_not_P [OF o(3)] if_not_P [OF o(2)] o(1) s m option.case prod.case
      sh(1,2) shift_hdrs_def pd by (cases "p1 - p0 > 0") (simp_all only: if_True if_False not_gr_zero less_irrefl)
qed

lemma nc_memalign_none:
  assumes "16 < a" "a AND (a - 1) = 0" "a + sz < 2 ^ 63" "nc_malloc fuel os t (a + sz) w = None"
  shows "nc_memalign fuel os t a sz w = None"
  using assms by (simp add: nc_memalign_def sizeof_hdr_def)

text \<open>A buffer lies in the mapped memory.\<close>

lemma live_mapped:
  assumes "store_ok w g" "g_live g p = Some n" "0 < n"
  shows "p \<in> w_mapped w"
proof -
  note lb = live_bounds [OF assms(1,2)]
  have "p \<in> blk_range w g (h_blk (w_hdrs w (p - 16)))" using lb(2-4) assms(3) by (auto simp: blk_range_def)
  with store_okD(3) [OF assms(1)] lb(1) show ?thesis by blast
qed

lemma set_hdr_mapped: "w_mapped (set_hdr h x w) = w_mapped w"
  by (simp add: set_hdr_def)

lemma memalign_mapped:
  assumes "16 < a" "a AND (a - 1) = 0" "a + sz < 2 ^ 63"
    and "nc_malloc fuel os t (a + sz) w = Some (p0, w1)" "nc_memalign fuel os t a sz w = Some (p, w')"
  shows "w_mapped w' = w_mapped w1"
proof -
  have s: "(a + sz) mod 2 ^ 64 = a + sz" using assms(3) by simp
  have o: "(if a \<ge> sizeof_hdr then a else sizeof_hdr) = a" "\<not> a \<le> 16" "\<not> (a = 0 \<or> a AND (a - 1) \<noteq> 0)"
    using assms(1,2) by (simp_all add: sizeof_hdr_def)
  show ?thesis
    using assms(5) unfolding nc_memalign_def Let_def if_not_P [OF o(3)] if_not_P [OF o(2)] o(1) s assms(4)
      option.case prod.case
    by (cases "((p0 + (a - 1)) mod 2 ^ 64 div a * a + 2 ^ 64 - p0) mod 2 ^ 64 > 0") (auto simp only: if_True if_False not_gr_zero option.inject prod.inject set_hdr_mapped)
qed

lemma shift_mapped [simp]: "w_mapped (shift_hdrs p d w) = w_mapped w"
  by (simp add: shift_hdrs_def Let_def set_hdr_def)

lemma nc_memalign_inv:
  assumes inv: "heap_inv w g" and os: "good_mmap os" and fuel: "17 \<le> fuel"
    and sz: "one_size (if a \<le> 16 then sz else a + sz)" and us: "user_space w'"
    and pow: "a \<noteq> 0" "a AND (a - 1) = 0" and al: "nc_memalign fuel os t a sz w = Some (p, w')"
  obtains g' where "heap_inv w' g'" "g_live g' = (g_live g)(p := Some sz)" "g_live g p = None"
    "p mod 16 = 0" "16 < a \<Longrightarrow> p mod a = 0" "16 \<le> p"
proof -
  show ?thesis
  proof (cases "a \<le> 16")
    case True
    with al pow have "nc_malloc fuel os t sz w = Some (p, w')" by (simp add: nc_memalign_def)
    moreover have "one_size sz" using sz True by simp
    ultimately obtain g' where "heap_inv w' g'" "g_live g' = (g_live g)(p := Some sz)" "g_live g p = None"
      "p mod 16 = 0" "16 \<le> p" using nc_malloc_inv [OF inv os fuel] by metis
    with True show ?thesis by (intro that [of g']) simp_all
  next
    case False
    then have a: "16 < a" by simp
    have os1: "one_size (a + sz)" "a + sz < 2 ^ 63" using sz False by (simp_all add: one_size_def)
    with al nc_memalign_none [OF a pow(2)] obtain p0 w1 where
      m: "nc_malloc fuel os t (a + sz) w = Some (p0, w1)" by fastforce
    from os1 m obtain g1 where g1: "heap_inv w1 g1" "g_live g1 = (g_live g)(p0 := Some (a + sz))" "g_live g p0 = None"
      "p0 mod 16 = 0" "h_alignment (w_hdrs w1 (p0 - 16)) = 0" "16 \<le> p0"
      using nc_malloc_inv [OF inv os fuel] by metis
    have l0: "g_live g1 p0 = Some (a + sz)" by (simp add: g1(2))
    have "store_ok w1 g1" using g1(1) by (simp add: heap_inv_def)
    from live_mapped [OF this l0] a have "p0 \<in> w_mapped w1" by simp
    moreover have "w_mapped w' = w_mapped w1" using memalign_mapped [OF a pow(2) os1(2) m al] .
    ultimately have "p0 < 2 ^ 63" using us by (auto simp: user_space_def)
    from nc_memalign_some [OF a pow(2) os1(2) m this] al have
      pw: "p = (p0 + (a - 1)) div a * a" "w' = (if p - p0 > 0 then shift_hdrs p0 (p - p0) w1 else w1)"
      by simp_all
    have le: "p0 \<le> p" "p < p0 + a" using round_up [of a p0] round_up_less [of a p0] a pw(1) by simp_all
    have p_le: "16 \<le> p" using g1(6) le by simp
    have pa: "p mod a = 0" by (simp add: pw(1))
    have "16 dvd p" using power_of_two_16 [OF pow(2) a] pa by (meson dvd_trans mod_eq_0_iff_dvd)
    then have p16: "p mod 16 = 0" by (simp add: mod_eq_0_iff_dvd)
    show ?thesis
    proof (cases "p = p0")
      case True
      have "heap_inv w' (g1\<lparr>g_live := (g_live g1)(p := Some sz)\<rparr>)"
        using shrink_inv [OF g1(1) l0, of sz] True pw(2) by simp
      then show ?thesis by (rule that [OF _ _ _ p16 pa p_le]) (use g1(2,3) True in simp_all)
    next
      case False
      let ?d = "p - p0"
      have "16 dvd p0" using g1(4) by (simp add: mod_eq_0_iff_dvd)
      with \<open>16 dvd p\<close> have dd: "16 dvd ?d" by (simp add: dvd_diff_nat)
      then have d: "16 \<le> ?d" "?d mod 16 = 0" "?d + sz \<le> a + sz"
        using False le dvd_imp_le [OF dd] by (simp_all add: mod_eq_0_iff_dvd)
      have pd: "p0 + ?d = p" using le by simp
      note sh = shift_inv [OF g1(1) l0 g1(5) d, unfolded pd]
      have w': "w' = shift_hdrs p0 ?d w1" using pw(2) False le by simp
      have l: "(g_live g1)(p0 := None, p := Some sz) = (g_live g)(p := Some sz)"
        using g1(2,3) by auto
      have "g_live g p = None" using sh(2) g1(2,3) False by simp
      then show ?thesis by (intro that [OF sh(1) [folded w'] _ _ p16 pa p_le]) (simp_all add: l)
    qed
  qed
qed

section \<open>Realloc\<close>

text \<open>
  The size \<open>nc_realloc\<close> takes the buffer to have; it is what there is behind an unshifted buffer.
\<close>

definition room :: "world \<Rightarrow> nat \<Rightarrow> nat" where
  "room w p =
     (let b = h_blk (w_hdrs w (p - sizeof_hdr)); oldsize = b_size (w_blks w b) - sizeof_hdr
      in if \<not> b_small (w_blks w b) then oldsize - sizeof_blk else oldsize)"

lemma room_live_ok:
  assumes s: "store_ok w g" and l: "g_live g p = Some n" and a0: "h_alignment (w_hdrs w (p - 16)) = 0"
    and m: "m \<le> room w p"
  shows "live_ok w g p m" "n \<le> room w p"
proof -
  note lo = store_okD(10) [OF s l]
  let ?b = "h_blk (w_hdrs w (p - 16))"
  have c: "chunk_of w p = p - 16" "16 \<le> p" using lo a0 by (simp_all add: chunk_of_def live_ok_def Let_def)
  have "live_ok w g p m \<and> n \<le> room w p"
  proof (rule live_place [OF s l])
    fix t i assume pl: "g_place g ?b = Some (InBin t i)"
    note ok = bin_okD(1,2,4) [OF store_okD(6) [OF s pl]]
    then have r: "room w p = bin_chunk i - 16" "16 \<le> bin_chunk i"
      by (simp_all add: room_def Let_def sizeof_hdr_def good_bin_def)
    have le: "p + n \<le> p - 16 + bin_chunk i" using lo pl c by (simp add: live_ok_def Let_def)
    have "p + m \<le> p - 16 + bin_chunk i" using m r c(2) by linarith
    moreover have "n \<le> room w p" using le r c(2) by linarith
    ultimately show ?thesis using lo pl c(1) by (simp add: live_ok_def Let_def)
  next
    fix t assume pl: "g_place g ?b = Some (Lent t)"
    have r: "room w p = b_size (w_blks w ?b) - 80" "80 \<le> b_size (w_blks w ?b)"
      using store_okD(5,8) [OF s pl] pl by (simp_all add: room_def Let_def sizeof_hdr_def sizeof_blk_def blk_len_def)
    have le: "p - 16 = ?b + 64" "p + n \<le> ?b + b_size (w_blks w ?b)"
      using lo pl c by (simp_all add: live_ok_def Let_def)
    have "p + m \<le> ?b + b_size (w_blks w ?b)" using le(1) m r c(2) by linarith
    moreover have "n \<le> room w p" using le r c(2) by linarith
    ultimately show ?thesis using lo pl c(1) by (simp add: live_ok_def Let_def)
  qed
  then show "live_ok w g p m" "n \<le> room w p" by simp_all
qed

lemma nc_realloc_eq:
  "nc_realloc fuel os t p sz w =
     (if p = 0 then map_option (\<lambda>(q, w). (q, None, w)) (nc_malloc fuel os t sz w)
      else if room w p < sz
        then map_option (\<lambda>(q, w1). (q, Some (p, q, room w p), nc_free p w1)) (nc_malloc fuel os t sz w)
      else Some (p, None, w))"
  by (simp add: nc_realloc_def room_def Let_def)

lemma nc_realloc_inv:
  assumes inv: "heap_inv w g" and os: "good_mmap os" and fuel: "17 \<le> fuel" and sz: "one_size sz"
    and l: "g_live g p = Some n" and a0: "h_alignment (w_hdrs w (p - 16)) = 0"
    and al: "nc_realloc fuel os t p sz w = Some (q, cp, w')"
  obtains g' where "heap_inv w' g'" "g_live g' = (g_live g)(p := None, q := Some sz)"
    "q = p \<or> g_live g q = None" "cp = None \<or> (\<exists>k. cp = Some (p, q, k) \<and> n \<le> k \<and> k \<le> sz)"
proof -
  have s: "store_ok w g" using inv by (simp add: heap_inv_def)
  have p0: "p \<noteq> 0" using store_okD(10) [OF s l] by (auto simp: live_ok_def Let_def)
  show ?thesis
  proof (cases "room w p < sz")
    case False
    with al p0 have eq: "q = p" "cp = None" "w' = w" by (simp_all add: nc_realloc_eq)
    have "live_ok w g p sz" by (rule room_live_ok(1) [OF s l a0]) (use False in simp)
    note r = resize_inv [OF inv l this, folded eq(3)]
    show ?thesis by (rule that [OF r]) (simp_all add: eq)
  next
    case True
    with al p0 obtain w1 where m: "nc_malloc fuel os t sz w = Some (q, w1)" and
      eq: "cp = Some (p, q, room w p)" "w' = nc_free p w1" by (auto simp: nc_realloc_eq)
    obtain g1 where g1: "heap_inv w1 g1" "g_live g1 = (g_live g)(q := Some sz)" "g_live g q = None"
      using nc_malloc_inv [OF inv os fuel sz m] by metis
    have pq: "q \<noteq> p" using g1(3) l by auto
    then have "g_live g1 p = Some n" using g1(2) l by simp
    from nc_free_inv [OF g1(1) this] obtain g2 where g2: "heap_inv w' g2" "g_live g2 = (g_live g1)(p := None)"
      unfolding eq .
    have "n \<le> room w p" by (rule room_live_ok(2) [OF s l a0, of 0]) simp
    with g2 show ?thesis using g1(2,3) pq True eq(1) by (intro that [OF g2(1)]) (auto simp: fun_upd_twist)
  qed
qed

end
