(* ===== verification/NcallocClient.thy ===== *)
theory NcallocClient
  imports NcallocRun
begin

text \<open>
  Programs that use the allocator of \<open>numaplace/ncalloc.c\<close>: any sequence of the entry points
  by any threads, from heaps that are empty. The program knows its buffers by their
  addresses and the sizes it asked for.
\<close>

section \<open>Runs of a program\<close>

definition empty_heap :: heap where
  "empty_heap = \<lparr>h_blkfree = 0, h_lru = \<lparr>e_head = 0, e_tail = 0\<rparr>,
     h_bins = (\<lambda>i. \<lparr>e_head = 0, e_tail = 0\<rparr>), h_blkfreecnt = 0, h_lrucnt = 0\<rparr>"

definition fresh_start :: "world \<Rightarrow> bool" where
  "fresh_start w \<longleftrightarrow> (\<forall>t. w_heaps w t = empty_heap)"

text \<open>
  The program reallocates only buffers that \<open>nc_memalign\<close> did not shift, and the sizes it
  asks for are at most \<open>PTRDIFF_MAX\<close> and not 65520 (with the alignment added, for \<open>nc_memalign\<close>).
  The code is wrong beyond these limits: see \<open>realloc_grows_into_next\<close> and
  \<open>huge_malloc_returns\<close> below.
\<close>

inductive client :: "nat \<Rightarrow> mmap \<Rightarrow> world \<Rightarrow> world \<Rightarrow> (nat \<Rightarrow> nat option) \<Rightarrow> bool"
  for fuel os w0 where
  start: "client fuel os w0 w0 (\<lambda>p. None)"
| malloc: "client fuel os w0 w L \<Longrightarrow> one_size sz \<Longrightarrow> nc_malloc fuel os t sz w = Some (p, w') \<Longrightarrow>
    client fuel os w0 w' (L(p := Some sz))"
| free: "client fuel os w0 w L \<Longrightarrow> L p = Some n \<Longrightarrow> client fuel os w0 (nc_free p w) (L(p := None))"
| memalign: "client fuel os w0 w L \<Longrightarrow> one_size (if a \<le> 16 then sz else a + sz) \<Longrightarrow>
    nc_memalign fuel os t a sz w = Some (p, w') \<Longrightarrow> user_space w' \<Longrightarrow> p \<noteq> 0 \<Longrightarrow> client fuel os w0 w' (L(p := Some sz))"
| realloc: "client fuel os w0 w L \<Longrightarrow> L p = Some n \<Longrightarrow> h_alignment (w_hdrs w (p - sizeof_hdr)) = 0 \<Longrightarrow>
    one_size sz \<Longrightarrow> nc_realloc fuel os t p sz w = Some (q, cp, w') \<Longrightarrow>
    client fuel os w0 w' (L(p := None, q := Some sz))"

inductive_cases client_cases: "client fuel os w0 w L"

section \<open>The invariant holds in every run\<close>

lemma empty_heaps_inv:
  assumes "fresh_start w"
  shows "heap_inv w \<lparr>g_place = \<lambda>b. None, g_list = \<lambda>pl. [], g_live = \<lambda>p. None\<rparr>"
proof -
  have "list_ok (w_blks w) (w_heaps w) pl []" for pl
    using assms by (cases pl) (simp_all add: fresh_start_def empty_heap_def linked_def)
  then show ?thesis by (simp add: heap_inv_def lists_ok_def store_ok_def)
qed

lemma client_inv:
  assumes "client fuel os w0 w L" and os: "good_mmap os" and fuel: "17 \<le> fuel" and st: "fresh_start w0"
  shows "\<exists>g. heap_inv w g \<and> g_live g = L"
  using assms(1)
proof induction
  case start
  show ?case using empty_heaps_inv [OF st] by force
next
  case (malloc w L sz t p w')
  then obtain g where "heap_inv w g" "g_live g = L" by blast
  from nc_malloc_inv [OF this(1) os fuel malloc(2,3)] this(2) show ?case by metis
next
  case (free w L p n)
  then obtain g where g: "heap_inv w g" "g_live g = L" by blast
  with free have "g_live g p = Some n" by simp
  from nc_free_inv [OF g(1) this] g(2) show ?case by metis
next
  case (memalign w L a sz t p w')
  then obtain g where g: "heap_inv w g" "g_live g = L" by blast
  have "a \<noteq> 0" "a AND (a - 1) = 0" using memalign(3,5) by (auto simp: nc_memalign_def split: if_splits)
  from nc_memalign_inv [OF g(1) os fuel memalign(2,4) this memalign(3)] g(2) show ?case by metis
next
  case (realloc w L p n sz t q cp w')
  then obtain g where g: "heap_inv w g" "g_live g = L" by blast
  with realloc have "g_live g p = Some n" "h_alignment (w_hdrs w (p - 16)) = 0" by (simp_all add: sizeof_hdr_def)
  from nc_realloc_inv [OF g(1) os fuel realloc(4) this realloc(5)] g(2) show ?case by metis
qed

section \<open>Buffers and the data of the allocator\<close>

definition cells_of :: "nat \<Rightarrow> nat \<Rightarrow> nat set" where
  "cells_of p n = {p - sizeof_hdr..<p + n}"

text \<open>The descriptor of the block, and the free list at its end.\<close>

definition guarded :: "world \<Rightarrow> nat \<Rightarrow> nat set" where
  "guarded w b = {b..<b + sizeof_blk} \<union>
     (if b_small (w_blks w b) then {b_free (w_blks w b)..<b + BLKSIZE} else {})"

abbreviation blk_of :: "world \<Rightarrow> nat \<Rightarrow> nat" where
  "blk_of w p \<equiv> h_blk (w_hdrs w (p - sizeof_hdr))"

lemma cells_in_blk:
  assumes s: "store_ok w g" and l: "g_live g p = Some n"
  shows "cells_of p n \<subseteq> blk_range w g (blk_of w p)" "cells_of p n \<inter> guarded w (blk_of w p) = {}"
    "guarded w (blk_of w p) \<subseteq> blk_range w g (blk_of w p)" "g_place g (blk_of w p) \<noteq> None"
proof -
  note lb = live_bounds [OF s l, folded sizeof_hdr_def]
  note lb' = live_bounds [OF s l]
  let ?b = "h_blk (w_hdrs w (p - 16))"
  have b: "blk_of w p = ?b" by (simp add: sizeof_hdr_def)
  show "g_place g (blk_of w p) \<noteq> None" using lb'(1) by (simp add: b)
  show "cells_of p n \<subseteq> blk_range w g (blk_of w p)"
    using lb'(2-4) by (auto simp: cells_of_def sizeof_hdr_def b blk_range_def)
  have len: "80 \<le> blk_len w g ?b" using store_okD(5) [OF s] lb'(1) by auto
  have "cells_of p n \<inter> guarded w ?b = {} \<and> guarded w ?b \<subseteq> blk_range w g ?b"
  proof (rule live_place [OF s l])
    fix t i assume pl: "g_place g ?b = Some (InBin t i)"
    note ok = store_okD(6) [OF s pl]
    from live_in_chunk [OF s l pl refl] obtain k where k: "k < cuts (w_blks w ?b)"
      "chunk_of w p = chunk ?b (bin_chunk i) k" "chunk_of w p \<le> p - 16" "16 \<le> p"
      "p + n \<le> chunk_of w p + bin_chunk i" .
    have "k < chunk_count (bin_chunk i)" using k(1) cuts_le [OF ok] by simp
    note cb = chunk_bounds [OF ok this, folded k(2)]
    have "b_small (w_blks w ?b)" "blk_len w g ?b = BLKSIZE" "64 \<le> BLKSIZE"
      using bin_okD(2) [OF ok] pl by (simp_all add: blk_len_def BLKSIZE_def HUGE_PAGE_SIZE_def)
    with cb k(3-5) show ?thesis
      by (auto simp: cells_of_def guarded_def blk_range_def sizeof_blk_def sizeof_hdr_def)
  next
    fix t assume pl: "g_place g ?b = Some (Lent t)"
    have "\<not> b_small (w_blks w ?b)" using store_okD(8) [OF s pl] .
    with lb'(2,3) len show ?thesis
      by (auto simp: cells_of_def guarded_def blk_range_def sizeof_blk_def sizeof_hdr_def)
  qed
  then show "cells_of p n \<inter> guarded w (blk_of w p) = {}"
    "guarded w (blk_of w p) \<subseteq> blk_range w g (blk_of w p)" unfolding b by blast+
qed

lemma live_apart:
  assumes s: "store_ok w g" and l: "g_live g p = Some n" "g_live g q = Some m" and pq: "p \<noteq> q"
  shows "cells_of p n \<inter> cells_of q m = {}"
proof (cases "blk_of w p = blk_of w q")
  case False
  with store_okD(9) [OF s cells_in_blk(4) [OF s l(1)] cells_in_blk(4) [OF s l(2)]]
    cells_in_blk(1) [OF s l(1)] cells_in_blk(1) [OF s l(2)] show ?thesis by blast
next
  case True
  let ?b = "h_blk (w_hdrs w (p - 16))"
  have b: "h_blk (w_hdrs w (q - 16)) = ?b" using True by (simp add: sizeof_hdr_def)
  have ne: "chunk_of w p \<noteq> chunk_of w q" using store_okD(11) [OF s, of p q] l pq by auto
  show ?thesis
  proof (rule live_place [OF s l(1)])
    fix t i assume pl: "g_place g ?b = Some (InBin t i)"
    from live_in_chunk [OF s l(1) pl refl] obtain k where k: "chunk_of w p = chunk ?b (bin_chunk i) k"
      "chunk_of w p \<le> p - 16" "p + n \<le> chunk_of w p + bin_chunk i" .
    from live_in_chunk [OF s l(2) pl b] obtain j where j: "chunk_of w q = chunk ?b (bin_chunk i) j"
      "chunk_of w q \<le> q - 16" "q + m \<le> chunk_of w q + bin_chunk i" .
    from ne k j have "k \<noteq> j" by auto
    from chunks_apart [OF this, of ?b "bin_chunk i", folded k(1) j(1)] k(2,3) j(2,3) show ?thesis
      unfolding cells_of_def sizeof_hdr_def by (simp only: disjoint_iff atLeastLessThan_iff) (metis le_trans less_le_trans)
  next
    fix t assume pl: "g_place g ?b = Some (Lent t)"
    from store_okD(10) [OF s l(1)] store_okD(10) [OF s l(2)] pl b ne show ?thesis
      by (simp add: live_ok_def Let_def)
  qed
qed

section \<open>An allocation does not fail\<close>

lemma take_chunk_mapped: "take_chunk b z w = (h, w') \<Longrightarrow> w_mapped w' = w_mapped w"
  by (auto simp: take_chunk_def cut_chunk_def Let_def split: if_splits)

lemma on_bin_mapped [simp]: "w_mapped (on_bin t i f w) = w_mapped w"
  by (simp add: on_bin_def split: prod.split)

lemma from_head_mapped: "from_head t i z w = Some (h, w') \<Longrightarrow> w_mapped w' = w_mapped w"
  by (auto simp: from_head_def Let_def take_chunk_mapped split: if_splits prod.splits)

lemma bklalloc_some:
  assumes "os (w_mapped w) (len + HUGE_PAGE_SIZE) \<noteq> None" "0 < len" "len + HUGE_PAGE_SIZE < 2 ^ 64"
  shows "\<exists>b w'. bklalloc os t len w = Some (b, w')"
proof -
  have "(len + HUGE_PAGE_SIZE) mod 2 ^ 64 = len + HUGE_PAGE_SIZE" using assms(3) by (rule mod_less)
  then show ?thesis
    unfolding bklalloc_def using assms(1,2) by (auto simp: map_pages_def Let_def split: option.splits)
qed

text \<open>The length a request may have to map: a block and one huge page more.\<close>

definition need :: "nat \<Rightarrow> nat" where
  "need sz = (if sz \<le> SMALL_MAX then BLKSIZE
     else (sz + sizeof_blk + sizeof_hdr + (BLKSIZE - 1)) div BLKSIZE * BLKSIZE) + HUGE_PAGE_SIZE"

lemma from_new_some:
  assumes "os (w_mapped w) (BLKSIZE + HUGE_PAGE_SIZE) \<noteq> None"
  shows "\<exists>h w'. from_new os t i z w = Some (h, w')"
proof -
  have "\<exists>b w1. get_block os t w = Some (b, w1)"
    using bklalloc_some [where os = os and w = w and t = t and len = BLKSIZE, OF assms]
    by (cases "h_blkfree (w_heaps w t) = 0") (simp_all add: get_block_def Let_def size_defs)
  then obtain b w1 where "get_block os t w = Some (b, w1)" by blast
  then show ?thesis by (auto simp: from_new_def Let_def split: prod.splits)
qed

lemma nc_malloc_some:
  assumes inv: "heap_inv w g" and os: "good_mmap os" "os (w_mapped w) (need sz) \<noteq> None"
    and fuel: "17 \<le> fuel" and sz: "one_size sz"
  shows "\<exists>p w'. nc_malloc fuel os t sz w = Some (p, w')"
proof (cases "sz \<le> SMALL_MAX")
  case True
  obtain i z where iz: "small_bin sz = (i, z)" by (meson surj_pair)
  with small_bin_spec [OF True] sz have z: "z = bin_chunk i" by (simp add: one_size_def)
  obtain h w1 where fh: "from_head t i z w = Some (h, w1)" unfolding z by (rule from_head_inv [OF inv, of t i])
  have "\<exists>h w'. from_new os t i z w1 = Some (h, w')"
    by (rule from_new_some) (use os(2) from_head_mapped [OF fh] True in \<open>simp add: need_def\<close>)
  then obtain p w' where small: "nc_malloc_small os t sz w = Some (p, w')"
    using iz fh by (cases "h = 0") (auto simp: nc_malloc_small_def)
  have "sz \<noteq> 65520" using sz by (simp add: one_size_def)
  from nc_malloc_small_inv [OF inv os(1) True this small] have "p mod 16 = 0" .
  with True small show ?thesis by (simp add: nc_malloc_def)
next
  case False
  note rl = recent_list [OF inv, where t = t]
  have hd: "e_head (h_lru (w_heaps w t)) = (if g_list g (Recent t) = [] then 0 else hd (g_list g (Recent t)))"
    and sg: "segment (w_blks w) 0 (g_list g (Recent t)) 0" "0 \<notin> set (g_list g (Recent t))"
    using rl(1) by (simp_all add: linked_def)
  have "length (g_list g (Recent t)) < fuel" using rl(3) fuel by simp
  from find_big_some [OF sg this] obtain b where
    fb: "find_big fuel (w_blks w) (e_head (h_lru (w_heaps w t))) (sz + 80) = Some b"
    unfolding hd by blast
  have lim: "sz < 2 ^ 63" using sz by (simp add: one_size_def)
  note bs = big_size [OF lim]
  have "need sz = (sz + 80 + (BLKSIZE - 1)) div BLKSIZE * BLKSIZE + HUGE_PAGE_SIZE"
    using False by (simp add: need_def sizeof_blk_def sizeof_hdr_def add.assoc)
  with os(2) have nd: "os (w_mapped w) ((sz + 80 + (BLKSIZE - 1)) div BLKSIZE * BLKSIZE + HUGE_PAGE_SIZE) \<noteq> None"
    by simp
  have "0 < (sz + 80 + (BLKSIZE - 1)) div BLKSIZE * BLKSIZE" using bs(3) by linarith
  from bklalloc_some [where t = t and os = os and w = w, OF nd this bs(4)] obtain b' w1 where
    bk: "bklalloc os t ((sz + 80 + (BLKSIZE - 1)) div BLKSIZE * BLKSIZE) w = Some (b', w1)" by blast
  obtain p w' where big: "nc_malloc_big fuel os t sz w = Some (p, w')"
    unfolding nc_malloc_big_def bs(1) Let_def fb bs(2) bk by (cases "b = 0") simp_all
  from nc_malloc_big_inv [OF inv os(1) fuel lim big] have "p mod 16 = 0" .
  with False big show ?thesis by (simp add: nc_malloc_def)
qed

text \<open>Alignments up to 16 divide the 16 bytes every buffer is aligned to.\<close>

lemma small_alignment:
  assumes "a \<noteq> 0" "a AND (a - 1) = 0" "a \<le> (16 :: nat)" "p mod 16 = 0"
  shows "p mod a = 0"
proof -
  have "a \<in> {1, 2, 4, 8, 16}"
  proof (rule ccontr)
    assume "a \<notin> {1, 2, 4, 8, 16}"
    with assms(1,3) have "a \<in> {3, 5, 6, 7, 9, 10, 11, 12, 13, 14, 15}" by simp presburger
    with assms(2) show False by (elim insertE emptyE) simp_all
  qed
  then have "a dvd 16" by auto
  with assms(4) show ?thesis by (meson dvd_trans mod_eq_0_iff_dvd)
qed

section \<open>A program of two allocations\<close>

text \<open>A system that maps one region, and heaps nobody used yet.\<close>

definition one_region :: mmap where
  "one_region m len = (if m = {} \<and> len \<le> 1024 * 1024 * 1024 then Some (4 * 1024 * 1024) else None)"

definition world0 :: world where
  "world0 = \<lparr>w_blks = (\<lambda>b. \<lparr>b_small = False, b_tid = 0, b_binndx = 0, b_restcnt = 0, b_freecnt = 0, b_cnt = 0,
       b_rest = 0, b_free = 0, b_size = 0, b_prev = 0, b_next = 0\<rparr>),
     w_hdrs = (\<lambda>h. \<lparr>h_blk = 0, h_alignment = 0\<rparr>), w_cells = (\<lambda>a. 0), w_heaps = (\<lambda>t. empty_heap),
     w_mapped = {}\<rparr>"

lemma good_one_region: "good_mmap one_region"
  by (auto simp: good_mmap_def one_region_def split: if_splits)

lemmas run_simps = nc_malloc_def nc_malloc_small_def from_head_def from_new_def get_block_def bklalloc_def
  map_pages_def cut_chunk_def take_chunk_def initblk_def on_bin_def push_new_def move_to_tail_def Let_def
  world0_def empty_heap_def one_region_def size_defs chunk_count_def upd_blk_def upd_heap_def munmap_def
  set_hdr_def set_prev_def set_next_def

lemma small_bin_100: "small_bin 100 = (6, 128)"
  by (simp add: small_bin_def base_bin_def adjust_bin_def ilog2.simps sizeof_hdr_def Let_def)

lemma small_bin_164: "small_bin 164 = (7, 192)"
  by (simp add: small_bin_def base_bin_def adjust_bin_def ilog2.simps sizeof_hdr_def Let_def)

lemma start_world0: "fresh_start world0"
  by (simp add: fresh_start_def world0_def)

lemma two_buffers:
  obtains w1 w2 where "nc_malloc 17 one_region 0 100 world0 = Some (4194384, w1)"
    "nc_malloc 17 one_region 0 100 w1 = Some (4194512, w2)"
proof -
  have "case nc_malloc 17 one_region 0 100 world0 of None \<Rightarrow> False | Some (p, w) \<Rightarrow> p = 4194384 \<and>
      (case nc_malloc 17 one_region 0 100 w of None \<Rightarrow> False | Some (q, w) \<Rightarrow> q = 4194512)"
    by (simp add: run_simps small_bin_100)
  then show ?thesis using that by (auto split: option.splits)
qed

lemma two_buffers_run:
  obtains w where
    "client 17 one_region world0 w ((\<lambda>p. None)(4194384 := Some 100, 4194512 := Some 100))"
proof (rule two_buffers)
  fix w1 w2 assume m: "nc_malloc 17 one_region 0 100 world0 = Some (4194384, w1)"
    "nc_malloc 17 one_region 0 100 w1 = Some (4194512, w2)"
  have "one_size 100" by (simp add: one_size_def)
  from client.malloc [OF client.malloc [OF client.start this m(1)] this m(2)] show ?thesis by (rule that)
qed

section \<open>Properties\<close>

text \<open>
  C2: In every run of a program whose requests are at most \<open>PTRDIFF_MAX\<close> and not 65520 bytes, and
  which reallocates no shifted buffer, in the lower half of the addresses (what \<open>nc_memalign\<close> rounds
  up could wrap around otherwise), the buffers it holds are 16-byte aligned and mapped; with
  their headers they do not overlap, and none of them reaches into the descriptor or the
  free list of a block.
\<close>

theorem live_buffers_apart:
  assumes run: "client fuel os w0 w L" and os: "good_mmap os" and fuel: "17 \<le> fuel" and st: "fresh_start w0"
  shows "(\<forall>p n. L p = Some n \<longrightarrow> p mod 16 = 0 \<and> cells_of p n \<subseteq> w_mapped w) \<and>
    (\<forall>p q n m. L p = Some n \<and> L q = Some m \<longrightarrow>
      (p \<noteq> q \<longrightarrow> cells_of p n \<inter> cells_of q m = {}) \<and> cells_of p n \<inter> guarded w (blk_of w q) = {})"
proof -
  from client_inv [OF run os fuel st] obtain g where g: "store_ok w g" "g_live g = L"
    by (auto simp: heap_inv_def)
  have one: "p mod 16 = 0 \<and> cells_of p n \<subseteq> w_mapped w" if "L p = Some n" for p n
  proof -
    from that g(2) have l: "g_live g p = Some n" by simp
    from cells_in_blk(1,4) [OF g(1) l] store_okD(3) [OF g(1)] have "cells_of p n \<subseteq> w_mapped w" by blast
    with store_okD(10) [OF g(1) l] show ?thesis by (simp add: live_ok_def Let_def)
  qed
  have two: "(p \<noteq> q \<longrightarrow> cells_of p n \<inter> cells_of q m = {}) \<and> cells_of p n \<inter> guarded w (blk_of w q) = {}"
    if "L p = Some n" "L q = Some m" for p q n m
  proof -
    from that g(2) have l: "g_live g p = Some n" "g_live g q = Some m" by simp_all
    note cp = cells_in_blk [OF g(1) l(1)] and cq = cells_in_blk [OF g(1) l(2)]
    have "cells_of p n \<inter> guarded w (blk_of w q) = {}"
    proof (cases "blk_of w p = blk_of w q")
      case True
      with cp(2) show ?thesis by (simp only:)
    next
      case False
      with cp(1) cq(3) store_okD(9) [OF g(1) cp(4) cq(4)] show ?thesis by blast
    qed
    with live_apart [OF g(1) l] show ?thesis by blast
  qed
  from one two show ?thesis by blast
qed

theorem live_buffers_apart_witness:
  "\<exists>w. client 17 one_region world0 w ((\<lambda>p. None)(4194384 := Some 100, 4194512 := Some 100)) \<and>
     cells_of 4194384 100 \<inter> cells_of 4194512 100 = {} \<and> cells_of 4194512 100 \<subseteq> w_mapped w \<and>
     cells_of 4194384 100 \<inter> guarded w (blk_of w 4194512) = {}"
proof (rule two_buffers_run)
  fix w assume run: "client 17 one_region world0 w ((\<lambda>p. None)(4194384 := Some 100, 4194512 := Some 100))"
  from live_buffers_apart [OF run good_one_region _ start_world0] have
    "cells_of 4194512 100 \<subseteq> w_mapped w \<and> cells_of 4194384 100 \<inter> cells_of 4194512 100 = {} \<and>
     cells_of 4194384 100 \<inter> guarded w (blk_of w 4194512) = {}" by simp
  with run show ?thesis by blast
qed

text \<open>
  C17: In such a run, where the system has the memory for one block of the request, an allocation
  succeeds: no assertion of the code on the counters of the blocks or on the alignment fails, and
  the search in the recently used blocks ends (16 blocks at most, so a fuel of 17 is enough). The
  request is at most \<open>PTRDIFF_MAX\<close> and not 65520 bytes.
\<close>

theorem malloc_succeeds:
  assumes run: "client fuel os w0 w L" and os: "good_mmap os" "os (w_mapped w) (need sz) \<noteq> None"
    and fuel: "17 \<le> fuel" and st: "fresh_start w0" and sz: "one_size sz"
  shows "\<exists>p w'. nc_malloc fuel os t sz w = Some (p, w') \<and> L p = None"
proof -
  from client_inv [OF run os(1) fuel st] obtain g where g: "heap_inv w g" "g_live g = L" by blast
  from nc_malloc_some [OF g(1) os fuel sz] obtain p w' where m: "nc_malloc fuel os t sz w = Some (p, w')" by blast
  from nc_malloc_inv [OF g(1) os(1) fuel sz m] g(2) have "L p = None" by metis
  with m show ?thesis by blast
qed

theorem malloc_succeeds_witness:
  "\<exists>p w'. nc_malloc 17 one_region 0 100 world0 = Some (p, w')"
proof -
  have "client 17 one_region world0 world0 (\<lambda>p. None)" by (rule client.start)
  from malloc_succeeds [OF this good_one_region _ _ start_world0, of 100 0] show ?thesis
    by (auto simp: one_region_def world0_def one_size_def need_def size_defs)
qed

text \<open>
  \<open>nc_memalign\<close> fails without a change for an alignment that is no power of two; otherwise
  its result is a multiple of the alignment and a new buffer of the program.
\<close>

theorem memalign_aligned:
  assumes run: "client fuel os w0 w L" and os: "good_mmap os" and fuel: "17 \<le> fuel" and st: "fresh_start w0"
    and sz: "one_size (if a \<le> 16 then sz else a + sz)" and us: "user_space w'" and al: "nc_memalign fuel os t a sz w = Some (p, w')"
  shows "if a = 0 \<or> a AND (a - 1) \<noteq> 0 then p = 0 \<and> w' = w
     else p mod a = 0 \<and> p mod 16 = 0 \<and> 0 < p \<and> L p = None"
proof (cases "a = 0 \<or> a AND (a - 1) \<noteq> 0")
  case True
  then show ?thesis using al by (auto simp: nc_memalign_def)
next
  case False
  then have pow: "a \<noteq> 0" "a AND (a - 1) = 0" by simp_all
  from client_inv [OF run os fuel st] obtain g where g: "heap_inv w g" "g_live g = L" by blast
  obtain "g_live g p = None" "p mod 16 = 0" "16 < a \<Longrightarrow> p mod a = 0" "16 \<le> p"
    using nc_memalign_inv [OF g(1) os fuel sz us pow al] by metis
  with small_alignment [OF pow, of p] pow g(2) show ?thesis by (cases "16 < a") auto
qed

theorem memalign_aligned_witness:
  "\<exists>w'. nc_memalign 17 one_region 0 64 100 world0 = Some (4194432, w') \<and> 4194432 mod 64 = (0 :: nat)"
proof -
  have "case nc_memalign 17 one_region 0 64 100 world0 of None \<Rightarrow> False
      | Some (p, w) \<Rightarrow> p = 4194432 \<and> user_space w"
    by (simp add: nc_memalign_def run_simps small_bin_164 user_space_def) force
  then obtain w' where m: "nc_memalign 17 one_region 0 64 100 world0 = Some (4194432, w')" and us: "user_space w'"
    by (auto split: option.splits)
  from memalign_aligned [OF client.start good_one_region _ start_world0 _ us m] m show ?thesis
    by (auto simp: one_size_def)
qed

text \<open>
  C40: Bin 24 is shared by requests with and without the adjusted chunk size: after a request of
  65520 bytes its block says 67648 bytes for every chunk, but those of 60000 bytes are cut
  65536 bytes apart. \<open>nc_realloc\<close> then grows one of them in place into the next one.
\<close>

definition regrow :: "(nat \<times> nat \<times> nat) option" where
  "regrow =
     (case nc_malloc 17 one_region 0 65520 world0 of None \<Rightarrow> None | Some (_, w) \<Rightarrow>
        case nc_malloc 17 one_region 0 60000 w of None \<Rightarrow> None | Some (p, w) \<Rightarrow>
          case nc_malloc 17 one_region 0 60000 w of None \<Rightarrow> None | Some (q, w) \<Rightarrow>
            map_option (\<lambda>(p', _, _). (p, q, p')) (nc_realloc 17 one_region 0 p 67000 w))"

theorem realloc_grows_into_next:
  "case regrow of None \<Rightarrow> False | Some (p, q, p') \<Rightarrow>
     p' = p \<and> cells_of p' 67000 \<inter> cells_of q 60000 \<noteq> {} \<and> p \<noteq> q"
proof -
  have b: "small_bin 65520 = (24, 67648)" "small_bin 60000 = (24, 65536)"
    by (simp_all add: small_bin_def base_bin_def adjust_bin_def ilog2.simps size_defs Let_def)
  have r: "regrow = Some (4262032, 4327568, 4262032)"
    by (simp add: regrow_def run_simps b nc_realloc_def)
  have "4327568 \<in> cells_of 4262032 67000 \<inter> cells_of 4327568 60000"
    by (simp add: cells_of_def sizeof_hdr_def)
  then have ne: "cells_of 4262032 67000 \<inter> cells_of 4327568 60000 \<noteq> {}" by blast
  show ?thesis unfolding r option.case prod.case by (intro conjI refl ne) simp
qed





end
