(* ===== verification/NcallocHeaps.thy ===== *)
theory NcallocHeaps
  imports NcallocClient Locks
begin

text \<open>
  The heaps of threads in \<open>numaplace/ncalloc.c\<close>: a thread gets a heap with its first call
  (\<open>init_heap\<close>) and gives it back when it ends (\<open>exit_heap\<close>), a table of the process has the
  heaps of all threads, and with \<open>NCALLOC_STATISTICS\<close> every heap counts the calls. The lock of
  a heap and that of the table are words that are taken with a compare-and-exchange.
\<close>

section \<open>The locks\<close>

definition semlock :: "nat \<Rightarrow> spin_lock \<Rightarrow> spin_lock" where
  "semlock t l =
     (case atomic_compare_and_exchange (spin_word l) 0 1 of (old, w) \<Rightarrow>
        l\<lparr>spin_word := w, spin_phase := (spin_phase l)(t := if old = 0 then In else Trying)\<rparr>)"

definition semunlock :: "nat \<Rightarrow> spin_lock \<Rightarrow> spin_lock" where
  "semunlock t l = l\<lparr>spin_word := 0, spin_phase := (spin_phase l)(t := Out)\<rparr>"

definition sem_impl :: "spin_lock lock_impl" where
  "sem_impl = \<lparr>lk_init = \<lparr>spin_word = 0, spin_phase = (\<lambda>_. Out)\<rparr>, lk_acquire = semlock, lk_spin = semlock,
     lk_release = semunlock, lk_phase = spin_phase\<rparr>"

text \<open>While the word is 0 or 1 this is the spin lock of the library.\<close>

lemma semlock_spin: "spin_inv l \<Longrightarrow> semlock t l = spin_try t l"
  by (auto simp: semlock_def atomic_compare_and_exchange_def spin_defs spin_inv_def split: if_splits)

lemma semunlock_spin: "semunlock t l = SpinRelease t l"
  by (simp add: semunlock_def spin_defs)

interpretation sem: mutex_lock sem_impl T spin_inv for T :: "nat set"
proof (unfold_locales, goal_cases)
  case (13 l t)
  then show ?case using spin_progress [of l t] semlock_spin [of l] by (simp add: sem_impl_def)
qed (auto simp: sem_impl_def semunlock_spin semlock_spin intro: spin_inv_try spin_inv_release,
     auto simp: spin_inv_def spin_defs split: if_splits)

section \<open>Statistics\<close>

record nc_stat =
  st_mapped :: u64
  st_allocated :: u64
  st_mcalls :: u64
  st_fcalls :: u64
  st_rcalls :: u64
  st_acalls :: u64
  st_mticks :: u64
  st_fticks :: u64
  st_interthrfree :: u64
  st_mmapcalls :: u64
  st_unmapcalls :: u64
  st_dist :: "nat \<Rightarrow> u64"

text \<open>A record of zeroes, as \<open>mmap\<close> and \<open>memset\<close> give it.\<close>

definition zero_stat :: nc_stat where
  "zero_stat = \<lparr>st_mapped = 0, st_allocated = 0, st_mcalls = 0, st_fcalls = 0, st_rcalls = 0, st_acalls = 0,
     st_mticks = 0, st_fticks = 0, st_interthrfree = 0, st_mmapcalls = 0, st_unmapcalls = 0,
     st_dist = (\<lambda>_. 0)\<rparr>"

text \<open>The bit of the most significant one, and one more if the size is not a power of two.\<close>

definition size_class :: "nat \<Rightarrow> nat" where
  "size_class sz = (if sz AND (sz - 1) \<noteq> 0 then ilog2 sz + 1 else ilog2 sz)"

definition setstatistics :: "nat \<Rightarrow> nc_stat \<Rightarrow> nc_stat" where
  "setstatistics sz st =
     (if sz \<noteq> 0 then st\<lparr>st_dist := (st_dist st)(size_class sz := st_dist st (size_class sz) + 1)\<rparr> else st)"

text \<open>What \<open>nc_malloc\<close> counts for a request, given the time it took.\<close>

definition count_malloc :: "nat \<Rightarrow> u64 \<Rightarrow> nc_stat \<Rightarrow> nc_stat" where
  "count_malloc sz ticks st =
     (let st = setstatistics sz (st\<lparr>st_allocated := st_allocated st + of_nat sz\<rparr>)
      in st\<lparr>st_mcalls := st_mcalls st + 1, st_mticks := st_mticks st + ticks\<rparr>)"

text \<open>What \<open>nc_free\<close> counts; \<open>other\<close> when the buffer is of another thread's heap.\<close>

definition count_free :: "bool \<Rightarrow> u64 \<Rightarrow> nc_stat \<Rightarrow> nc_stat" where
  "count_free other ticks st =
     (let st = (if other then st\<lparr>st_interthrfree := st_interthrfree st + 1\<rparr> else st)
      in st\<lparr>st_fcalls := st_fcalls st + 1, st_fticks := st_fticks st + ticks\<rparr>)"

text \<open>The addition of \<open>exit_heap\<close>.\<close>

definition add_stat :: "nc_stat \<Rightarrow> nc_stat \<Rightarrow> nc_stat" where
  "add_stat st g = g\<lparr>st_dist := (\<lambda>i. if i < 64 then st_dist g i + st_dist st i else st_dist g i),
     st_interthrfree := st_interthrfree g + st_interthrfree st,
     st_mcalls := st_mcalls g + st_mcalls st, st_fcalls := st_fcalls g + st_fcalls st,
     st_rcalls := st_rcalls g + st_rcalls st, st_acalls := st_acalls g + st_acalls st,
     st_mticks := st_mticks g + st_mticks st, st_fticks := st_fticks g + st_fticks st\<rparr>"

text \<open>\<open>timadj\<close>: ticks of 2.6 GHz as a number with its unit.\<close>

definition timadj :: "nat \<Rightarrow> nat \<times> string" where
  "timadj dt =
     (let dt = dt div 2600
      in if dt > 10000
         then let dt = dt div 1000 in if dt > 10000 then (dt div 1000, ''sec'') else (dt, ''ms'')
         else (dt, ''us''))"

section \<open>The process\<close>

definition MAX_THREADS :: nat where "MAX_THREADS = 4096"
definition sizeof_heap :: nat where "sizeof_heap = 3 * sizeof_ptr + 2 * BINCNT * sizeof_ptr + sizeof_ptr + 16"
definition sizeof_stat :: nat where "sizeof_stat = 11 * 8 + 64 * 8"

datatype hook = Gnu | Nc

text \<open>
  \<open>p_all\<close> is the table \<open>__allheaps\<close>: addresses of heaps, 0 for a free slot. \<open>p_tid\<close> and
  \<open>p_thrheap\<close> are the thread-local \<open>__tid\<close> and \<open>__thrheap\<close> (0 without a heap), \<open>p_stats\<close> the records
  of the heaps. The lists of the heap of a thread are those of its slot in \<open>w_heaps\<close>.
\<close>

record nc_proc =
  p_world :: world
  p_stat :: "nc_stat option"
  p_hooks :: hook
  p_all :: "nat list"
  p_thrcount :: int
  p_heapcreate :: nat
  p_heapexit :: nat
  p_tid :: "nat \<Rightarrow> int"
  p_thrheap :: "nat \<Rightarrow> nat"
  p_stats :: "nat \<Rightarrow> (nat \<times> nc_stat) option"

text \<open>\<open>init_malloc_hooks\<close>, with the value of \<open>NCALLOC_STATISTICS\<close> in lower case.\<close>

definition init_malloc_hooks :: "mmap \<Rightarrow> string option \<Rightarrow> nc_proc \<Rightarrow> nc_proc option" where
  "init_malloc_hooks os ev p =
     (if ev = Some ''yes'' \<or> ev = Some ''1''
      then case map_pages os sizeof_stat (p_world p) of
             None \<Rightarrow> None
           | Some (a, w) \<Rightarrow> Some (p\<lparr>p_world := w, p_stat := Some zero_stat, p_hooks := Nc\<rparr>)
      else Some (p\<lparr>p_hooks := Nc\<rparr>))"

text \<open>The first free slot, by the loop over the table.\<close>

fun free_slot :: "nat \<Rightarrow> nat list \<Rightarrow> nat option" where
  "free_slot i [] = None"
| "free_slot i (a # as) = (if a = 0 then Some i else free_slot (Suc i) as)"

text \<open>\<open>init_heap\<close> of thread \<open>t\<close>; \<open>None\<close> ends the process.\<close>

definition new_stat :: "mmap \<Rightarrow> nat \<Rightarrow> nc_proc \<Rightarrow> nc_proc option" where
  "new_stat os a p =
     (case p_stat p of
        None \<Rightarrow> Some (p\<lparr>p_stats := (p_stats p)(a := None)\<rparr>)
      | Some g \<Rightarrow>
          (case map_pages os sizeof_stat (p_world p) of
             None \<Rightarrow> None
           | Some (b, w) \<Rightarrow>
               Some (p\<lparr>p_world := w, p_stats := (p_stats p)(a := Some (b, zero_stat\<lparr>st_mapped :=
                 of_nat ((sizeof_heap + 4095) div 4096 * 4096)\<rparr>))\<rparr>)))"

definition init_heap :: "mmap \<Rightarrow> nat \<Rightarrow> nc_proc \<Rightarrow> nc_proc option" where
  "init_heap os t p =
     (case map_pages os sizeof_heap (p_world p) of
        None \<Rightarrow> None
      | Some (a, w) \<Rightarrow>
          (case new_stat os a (p\<lparr>p_world := w, p_thrheap := (p_thrheap p)(t := a)\<rparr>) of
             None \<Rightarrow> None
           | Some p \<Rightarrow>
               if p_thrcount p \<ge> int MAX_THREADS then None
               else
                 let p = (if p_thrcount p = 0 then p\<lparr>p_all := replicate MAX_THREADS 0\<rparr> else p);
                     p = (case free_slot 0 (p_all p) of
                            None \<Rightarrow> p
                          | Some i \<Rightarrow> p\<lparr>p_tid := (p_tid p)(t := int i), p_all := (p_all p)[i := a],
                              p_world := (p_world p)\<lparr>w_heaps := (w_heaps (p_world p))(i := empty_heap)\<rparr>\<rparr>)
                 in Some (p\<lparr>p_thrcount := p_thrcount p + 1, p_heapcreate := p_heapcreate p + 1\<rparr>)))"

text \<open>\<open>listfree\<close>; \<open>None\<close> is a list without end.\<close>

partial_function (option) listfree :: "nat \<Rightarrow> world \<Rightarrow> world option" where
  "listfree b w =
     (if b = 0 then Some w
      else let nxt = b_next (w_blks w b);
               sz = (if b_size (w_blks w b) < BLKSIZE then BLKSIZE else b_size (w_blks w b))
           in listfree nxt (munmap b sz w))"

declare listfree.simps [code]

fun free_bins :: "nat list \<Rightarrow> heap \<Rightarrow> world \<Rightarrow> world option" where
  "free_bins [] hp w = Some w"
| "free_bins (i # is) hp w =
     (case listfree (e_head (h_bins hp i)) w of None \<Rightarrow> None | Some w \<Rightarrow> free_bins is hp w)"

definition free_lists :: "heap \<Rightarrow> world \<Rightarrow> world option" where
  "free_lists hp w =
     (case free_bins [0..<BINCNT] hp w of
        None \<Rightarrow> None
      | Some w \<Rightarrow> (case listfree (h_blkfree hp) w of None \<Rightarrow> None | Some w \<Rightarrow> listfree (e_head (h_lru hp)) w))"

text \<open>The part of \<open>exit_heap\<close> under the lock of the table.\<close>

definition leave_table :: "nat \<Rightarrow> nc_proc \<Rightarrow> nc_proc" where
  "leave_table t p =
     (let a = p_thrheap p t;
          p = p\<lparr>p_all := (p_all p)[nat (p_tid p t) := 0], p_tid := (p_tid p)(t := -1),
                p_thrcount := p_thrcount p - 1, p_heapexit := p_heapexit p + 1\<rparr>
      in case p_stats p a of
           None \<Rightarrow> p
         | Some (b, st) \<Rightarrow>
             p\<lparr>p_stat := map_option (add_stat st) (p_stat p), p_world := munmap b sizeof_stat (p_world p),
               p_stats := (p_stats p)(a := None)\<rparr>)"

definition exit_heap :: "nat \<Rightarrow> nc_proc \<Rightarrow> nc_proc option" where
  "exit_heap t p =
     (if p_thrheap p t = 0 then Some p
      else
        let hp = w_heaps (p_world p) (nat (p_tid p t));
            a = p_thrheap p t;
            p = leave_table t p
        in case free_lists hp (p_world p) of
             None \<Rightarrow> None
           | Some w \<Rightarrow> Some (p\<lparr>p_world := munmap a sizeof_heap w, p_thrheap := (p_thrheap p)(t := 0)\<rparr>))"

text \<open>The sums that \<open>printstat\<close> prints, for a counter \<open>f\<close>: the ended threads and the table.\<close>

definition stat_total :: "(nc_stat \<Rightarrow> u64) \<Rightarrow> nc_proc \<Rightarrow> u64" where
  "stat_total f p =
     (case p_stat p of None \<Rightarrow> 0 | Some g \<Rightarrow> f g) +
     sum_list (map (\<lambda>a. if a = 0 then 0 else case p_stats p a of None \<Rightarrow> 0 | Some (b, st) \<Rightarrow> f st) (p_all p))"

section \<open>The table of heaps\<close>

text \<open>
  What the threads of a process do with the table: they start, they end, and in between they
  call the allocator, which does not touch the table.
\<close>

inductive thread_run :: "mmap \<Rightarrow> nc_proc \<Rightarrow> nc_proc \<Rightarrow> bool" for os p0 where
  run_start: "thread_run os p0 p0"
| run_init: "thread_run os p0 p \<Longrightarrow> p_thrheap p t = 0 \<Longrightarrow> init_heap os t p = Some p' \<Longrightarrow> thread_run os p0 p'"
| run_call: "thread_run os p0 p \<Longrightarrow> thread_run os p0 (p\<lparr>p_world := w\<rparr>)"
| run_exit: "thread_run os p0 p \<Longrightarrow> exit_heap t p = Some p' \<Longrightarrow> thread_run os p0 p'"

definition used_slots :: "nc_proc \<Rightarrow> nat set" where
  "used_slots p = {i. i < MAX_THREADS \<and> p_all p ! i \<noteq> 0}"

definition table_ok :: "nc_proc \<Rightarrow> bool" where
  "table_ok p \<longleftrightarrow> length (p_all p) = MAX_THREADS \<and> p_thrcount p = int (card (used_slots p)) \<and>
     int (p_heapcreate p) - int (p_heapexit p) = p_thrcount p \<and>
     (\<forall>t. p_thrheap p t \<noteq> 0 \<longrightarrow> 0 \<le> p_tid p t \<and> p_tid p t < int MAX_THREADS \<and>
        p_all p ! nat (p_tid p t) = p_thrheap p t) \<and>
     (\<forall>t u. p_thrheap p t \<noteq> 0 \<and> p_thrheap p u \<noteq> 0 \<and> p_tid p t = p_tid p u \<longrightarrow> t = u)"

lemma table_okD:
  assumes "table_ok p"
  shows "length (p_all p) = MAX_THREADS" "p_thrcount p = int (card (used_slots p))"
    "int (p_heapcreate p) - int (p_heapexit p) = p_thrcount p"
    "p_thrheap p t \<noteq> 0 \<Longrightarrow> 0 \<le> p_tid p t \<and> p_tid p t < int MAX_THREADS \<and> p_all p ! nat (p_tid p t) = p_thrheap p t"
    "p_thrheap p t \<noteq> 0 \<Longrightarrow> p_thrheap p u \<noteq> 0 \<Longrightarrow> p_tid p t = p_tid p u \<Longrightarrow> t = u"
  using assms unfolding table_ok_def by blast+

lemma free_slot_Some: "free_slot i as = Some j \<Longrightarrow> i \<le> j \<and> j < i + length as \<and> as ! (j - i) = 0"
proof (induction as arbitrary: i)
  case (Cons a as)
  show ?case
  proof (cases "a = 0")
    case False
    with Cons.prems Cons.IH [of "Suc i"] have h: "Suc i \<le> j" "j < Suc i + length as" "as ! (j - Suc i) = 0" by auto
    then have "j - i = Suc (j - Suc i)" by arith
    with h show ?thesis by simp
  qed (use Cons.prems in simp)
qed simp

lemma free_slot_None: "free_slot i as = None \<Longrightarrow> k < length as \<Longrightarrow> as ! k \<noteq> 0"
  by (induction as arbitrary: i k) (auto simp: nth_Cons' split: if_splits)

lemma used_slots_finite: "finite (used_slots p)" "used_slots p \<subseteq> {..<MAX_THREADS}"
  by (auto simp: used_slots_def)

lemma free_slot_found:
  assumes "table_ok p" "p_thrcount p < int MAX_THREADS"
  obtains i where "free_slot 0 (p_all p) = Some i" "i < MAX_THREADS" "i \<notin> used_slots p"
proof -
  have "card (used_slots p) < card {..<MAX_THREADS}" using assms(2) table_okD(2) [OF assms(1)] by simp
  then have "used_slots p \<noteq> {..<MAX_THREADS}" by (metis less_irrefl)
  with used_slots_finite(2) obtain k where k: "k < MAX_THREADS" "k \<notin> used_slots p" by blast
  then have "p_all p ! k = 0" by (simp add: used_slots_def)
  with k free_slot_None [of 0 "p_all p" k] table_okD(1) [OF assms(1)] obtain i where "free_slot 0 (p_all p) = Some i"
    by (cases "free_slot 0 (p_all p)") auto
  with free_slot_Some [OF this] table_okD(1) [OF assms(1)] show ?thesis
    by (intro that [of i]) (auto simp: used_slots_def)
qed

lemma new_stat_table:
  assumes "new_stat os a p = Some p'"
  shows "p_all p' = p_all p" "p_thrcount p' = p_thrcount p" "p_heapcreate p' = p_heapcreate p"
    "p_heapexit p' = p_heapexit p" "p_tid p' = p_tid p" "p_thrheap p' = p_thrheap p"
  using assms by (auto simp: new_stat_def split: option.splits)

lemma empty_table:
  assumes "table_ok p" "p_thrcount p = 0"
  shows "p_all p = replicate MAX_THREADS 0"
proof -
  have "used_slots p = {}" using assms table_okD(2) [OF assms(1)] used_slots_finite(1) by simp
  then show ?thesis using table_okD(1) [OF assms(1)]
    by (intro nth_equalityI) (auto simp: used_slots_def)
qed

lemma init_heap_result:
  assumes ok: "table_ok p" and i: "init_heap os t p = Some p'"
  obtains i a len where "i < MAX_THREADS" "i \<notin> used_slots p" "os (w_mapped (p_world p)) len = Some a"
    "p_all p' = (p_all p)[i := a]" "p_tid p' = (p_tid p)(t := int i)" "p_thrheap p' = (p_thrheap p)(t := a)"
    "p_thrcount p' = p_thrcount p + 1" "p_heapcreate p' = p_heapcreate p + 1" "p_heapexit p' = p_heapexit p"
    "p_thrcount p < int MAX_THREADS"
proof -
  from i obtain a w q where m: "map_pages os sizeof_heap (p_world p) = Some (a, w)"
    and q: "new_stat os a (p\<lparr>p_world := w, p_thrheap := (p_thrheap p)(t := a)\<rparr>) = Some q"
    and lt: "p_thrcount q < int MAX_THREADS"
    by (auto simp: init_heap_def split: option.splits if_splits)
  note t = new_stat_table [OF q, simplified]
  have al: "(if p_thrcount q = 0 then q\<lparr>p_all := replicate MAX_THREADS 0\<rparr> else q) = q"
    using empty_table [OF ok] t by auto
  obtain i where fs: "free_slot 0 (p_all p) = Some i" "i < MAX_THREADS" "i \<notin> used_slots p"
    using free_slot_found [OF ok] lt t by auto
  have p': "p' = q\<lparr>p_tid := (p_tid q)(t := int i), p_all := (p_all q)[i := a],
      p_world := (p_world q)\<lparr>w_heaps := (w_heaps (p_world q))(i := empty_heap)\<rparr>,
      p_thrcount := p_thrcount q + 1, p_heapcreate := p_heapcreate q + 1\<rparr>"
    using i m q lt al fs(1) t by (simp add: init_heap_def Let_def)
  have "os (w_mapped (p_world p)) sizeof_heap = Some a" using m by (auto simp: map_pages_def split: option.splits)
  then show ?thesis by (rule that [OF fs(2,3)]) (use lt in \<open>simp_all add: p' t\<close>)
qed

lemma table_init:
  assumes ok: "table_ok p" and os: "good_mmap os" and t: "p_thrheap p t = 0" and i: "init_heap os t p = Some p'"
  shows "table_ok p'"
proof -
  from init_heap_result [OF ok i] obtain i a len where r: "i < MAX_THREADS" "i \<notin> used_slots p"
    "os (w_mapped (p_world p)) len = Some a"
    "p_all p' = (p_all p)[i := a]" "p_tid p' = (p_tid p)(t := int i)" "p_thrheap p' = (p_thrheap p)(t := a)"
    "p_thrcount p' = p_thrcount p + 1" "p_heapcreate p' = p_heapcreate p + 1" "p_heapexit p' = p_heapexit p" "p_thrcount p < int MAX_THREADS" .
  have a: "a \<noteq> 0" using os r(3) by (auto simp: good_mmap_def)
  note D = table_okD [OF ok]
  have "used_slots p' = insert i (used_slots p)"
    using D(1) a r(1) by (auto simp: used_slots_def r(4) nth_list_update)
  then have "card (used_slots p') = Suc (card (used_slots p))"
    using r(2) used_slots_finite(1) by simp
  then have card: "p_thrcount p' = int (card (used_slots p'))" using D(2) r(7) by simp
  have other: "p_tid p u \<noteq> int i" "nat (p_tid p u) \<noteq> i" if "p_thrheap p u \<noteq> 0" for u
    using D(4) [OF that] r(2) that by (auto simp: used_slots_def)
  have slot: "0 \<le> p_tid p' u \<and> p_tid p' u < int MAX_THREADS \<and> p_all p' ! nat (p_tid p' u) = p_thrheap p' u"
    if "p_thrheap p' u \<noteq> 0" for u
    using that D(1) D(4) [of u] other [of u] r(1) by (cases "u = t") (auto simp: r(4-6))
  have inj: "v = u" if "p_thrheap p' v \<noteq> 0" "p_thrheap p' u \<noteq> 0" "p_tid p' v = p_tid p' u" for u v
    using that D(5) [of v u] other [of u] other [of v] by (cases "u = t"; cases "v = t") (simp_all add: r(5,6))
  have "length (p_all p') = MAX_THREADS" using D(1) r(4) by simp
  moreover have "int (p_heapcreate p') - int (p_heapexit p') = p_thrcount p'" using D(3) r(7-9) by simp
  ultimately show ?thesis unfolding table_ok_def using card slot inj by blast
qed

lemma leave_table_simps [simp]:
  "p_all (leave_table t p) = (p_all p)[nat (p_tid p t) := 0]" "p_tid (leave_table t p) = (p_tid p)(t := -1)"
  "p_thrheap (leave_table t p) = p_thrheap p" "p_thrcount (leave_table t p) = p_thrcount p - 1"
  "p_heapcreate (leave_table t p) = p_heapcreate p" "p_heapexit (leave_table t p) = p_heapexit p + 1"
  by (simp_all add: leave_table_def Let_def split: option.split)

lemma exit_heap_result:
  assumes "exit_heap t p = Some p'" "p_thrheap p t \<noteq> 0"
  shows "p_all p' = (p_all p)[nat (p_tid p t) := 0]" "p_tid p' = (p_tid p)(t := -1)"
    "p_thrheap p' = (p_thrheap p)(t := 0)" "p_thrcount p' = p_thrcount p - 1"
    "p_heapcreate p' = p_heapcreate p" "p_heapexit p' = p_heapexit p + 1"
  using assms by (auto simp: exit_heap_def Let_def split: option.splits)

lemma table_exit:
  assumes ok: "table_ok p" and e: "exit_heap t p = Some p'"
  shows "table_ok p'"
proof (cases "p_thrheap p t = 0")
  case True
  with e ok show ?thesis by (simp add: exit_heap_def)
next
  case False
  note r = exit_heap_result [OF e False] and D = table_okD [OF ok]
  note t = D(4) [OF False]
  let ?i = "nat (p_tid p t)"
  have lt: "?i < MAX_THREADS" using t by auto
  then have i: "?i \<in> used_slots p" using t False by (auto simp: used_slots_def)
  have "used_slots p' = used_slots p - {?i}"
    using D(1) lt by (auto simp: used_slots_def r nth_list_update split: if_splits)
  then have "int (card (used_slots p')) = int (card (used_slots p)) - 1"
    using card_Suc_Diff1 [OF used_slots_finite(1) i] by simp
  then have card: "p_thrcount p' = int (card (used_slots p'))" using D(2) r(4) by simp
  have other: "nat (p_tid p u) \<noteq> ?i" if "p_thrheap p u \<noteq> 0" "u \<noteq> t" for u
    using D(4) [OF that(1)] t D(5) [OF that(1) False] that(2) by (metis nat_eq_iff)
  have slot: "0 \<le> p_tid p' u \<and> p_tid p' u < int MAX_THREADS \<and> p_all p' ! nat (p_tid p' u) = p_thrheap p' u"
    if "p_thrheap p' u \<noteq> 0" for u
    using that D(1) D(4) [of u] other [of u] by (cases "u = t") (auto simp: r(1-3))
  have inj: "v = u" if "p_thrheap p' v \<noteq> 0" "p_thrheap p' u \<noteq> 0" "p_tid p' v = p_tid p' u" for u v
    using that D(5) [of v u] by (cases "u = t"; cases "v = t") (simp_all add: r(2,3))
  have "length (p_all p') = MAX_THREADS" using D(1) r(1) by simp
  moreover have "int (p_heapcreate p') - int (p_heapexit p') = p_thrcount p'" using D(3) r(4-6) by simp
  ultimately show ?thesis unfolding table_ok_def using card slot inj by blast
qed

section \<open>What a thread gives back\<close>

definition freed :: "blks \<Rightarrow> nat list \<Rightarrow> nat set" where
  "freed m bs = (\<Union>b\<in>set bs. {b..<b + max BLKSIZE (b_size (m b))})"

lemma segment_spare: "segment m p xs 0 \<Longrightarrow> distinct xs \<Longrightarrow> 0 \<notin> set xs \<Longrightarrow> spare_list m (if xs = [] then 0 else hd xs) xs"
  by (induction xs arbitrary: p) auto

lemma linked_spare: "linked m e xs \<Longrightarrow> spare_list m (e_head e) xs"
  using segment_spare [of m 0 xs] by (auto simp: linked_def)

lemma listfree_list:
  "spare_list (w_blks w) b xs \<Longrightarrow> listfree b w = Some (w\<lparr>w_mapped := w_mapped w - freed (w_blks w) xs\<rparr>)"
proof (induction xs arbitrary: b w)
  case Nil
  then show ?case by (simp add: listfree.simps freed_def)
next
  case (Cons x xs)
  let ?w = "munmap x (max BLKSIZE (b_size (w_blks w x))) w"
  from Cons.prems have b: "b = x" "x \<noteq> 0" and t: "spare_list (w_blks ?w) (b_next (w_blks w x)) xs"
    by (auto simp: munmap_def)
  have "listfree b w = listfree (b_next (w_blks w x)) ?w"
    using b by (subst listfree.simps) (simp add: Let_def max_def not_less)
  also have "\<dots> = Some (w\<lparr>w_mapped := w_mapped w - freed (w_blks w) (x # xs)\<rparr>)"
    unfolding Cons.IH [OF t] by (simp add: munmap_def freed_def Diff_Un Diff_eq Int_ac)
  finally show ?case .
qed

lemma free_bins_lists:
  "(\<And>i. i \<in> set is \<Longrightarrow> linked (w_blks w) (h_bins hp i) (f i)) \<Longrightarrow>
    free_bins is hp w = Some (w\<lparr>w_mapped := w_mapped w - (\<Union>i\<in>set is. freed (w_blks w) (f i))\<rparr>)"
proof (induction "is" arbitrary: w)
  case (Cons i "is")
  then have l: "linked (w_blks w) (h_bins hp i) (f i)" by simp
  from Cons.IH [of "w\<lparr>w_mapped := w_mapped w - freed (w_blks w) (f i)\<rparr>"] Cons.prems
  show ?case unfolding free_bins.simps listfree_list [OF linked_spare [OF l]]
    by (simp add: Diff_Un Diff_eq Int_ac)
qed simp

text \<open>All blocks of the lists of a slot.\<close>

definition slot_blocks :: "world \<Rightarrow> ghost \<Rightarrow> nat \<Rightarrow> nat set" where
  "slot_blocks w g s = (\<Union>i<BINCNT. freed (w_blks w) (g_list g (InBin s i))) \<union>
     freed (w_blks w) (g_list g (Spare s)) \<union> freed (w_blks w) (g_list g (Recent s))"

lemma free_lists_all:
  assumes "lists_ok (w_blks w) hps g"
  shows "free_lists (hps s) w = Some (w\<lparr>w_mapped := w_mapped w - slot_blocks w g s\<rparr>)"
proof -
  have l: "list_ok (w_blks w) hps pl (g_list g pl)" if "listed pl" for pl
    using assms that by (simp add: lists_ok_def)
  have b: "linked (w_blks w) (h_bins (hps s) i) (g_list g (InBin s i))" for i
    using l [of "InBin s i"] by simp
  have "free_bins [0..<BINCNT] (hps s) w =
      Some (w\<lparr>w_mapped := w_mapped w - (\<Union>i\<in>set [0..<BINCNT]. freed (w_blks w) (g_list g (InBin s i)))\<rparr>)"
    by (rule free_bins_lists) (rule b)
  moreover have "spare_list (w_blks w) (h_blkfree (hps s)) (g_list g (Spare s))"
    "spare_list (w_blks w) (e_head (h_lru (hps s))) (g_list g (Recent s))"
    using l [of "Spare s"] l [of "Recent s"] linked_spare by auto
  ultimately show ?thesis
    by (simp add: free_lists_def listfree_list slot_blocks_def Diff_Un Diff_eq Int_ac atLeast0LessThan)
qed

lemma leave_table_world:
  "\<exists>A. p_world (leave_table t p) = (p_world p)\<lparr>w_mapped := w_mapped (p_world p) - A\<rparr>"
  by (auto simp: leave_table_def munmap_def Let_def split: option.split intro: exI [of _ "{}"])

lemma exit_heap_frees:
  assumes inv: "heap_inv (p_world p) g" and t: "p_thrheap p t \<noteq> 0"
  shows "\<exists>p'. exit_heap t p = Some p' \<and>
    w_mapped (p_world p') \<subseteq> w_mapped (p_world p) - slot_blocks (p_world p) g (nat (p_tid p t))"
proof -
  let ?w = "p_world p" and ?s = "nat (p_tid p t)"
  from leave_table_world obtain A where A: "p_world (leave_table t p) = ?w\<lparr>w_mapped := w_mapped ?w - A\<rparr>" by blast
  let ?v = "?w\<lparr>w_mapped := w_mapped ?w - A\<rparr>"
  have "lists_ok (w_blks ?v) (w_heaps ?w) g" using inv by (simp add: heap_inv_def)
  note f = free_lists_all [OF this, of ?s]
  have sb: "slot_blocks ?v g ?s = slot_blocks ?w g ?s" by (simp add: slot_blocks_def)
  show ?thesis
    using t f unfolding exit_heap_def A Let_def sb by (auto simp: munmap_def)
qed

lemma live_in_slot:
  assumes inv: "heap_inv w g" and l: "g_live g q = Some n" and b: "b_small (w_blks w (blk_of w q))"
  shows "cells_of q n \<subseteq> slot_blocks w g (b_tid (w_blks w (blk_of w q)))"
proof -
  have s: "store_ok w g" using inv by (simp add: heap_inv_def)
  let ?b = "blk_of w q"
  note c = cells_in_blk [OF s l]
  have "live_ok w g q n" by (rule store_okD(10) [OF s l])
  then obtain t i where pl: "g_place g ?b = Some (InBin t i)"
    using store_okD(8) [OF s, of ?b] b
    by (auto simp: live_ok_def Let_def sizeof_hdr_def split: option.splits place.splits)
  have i: "i < BINCNT" using bin_okD(1) [OF store_okD(6) [OF s pl]] by (simp add: good_bin_def)
  have t: "b_tid (w_blks w ?b) = t" using store_okD(4) [OF s pl] by simp
  have "?b \<in> set (g_list g (InBin t i))"
    using inv pl by (simp add: heap_inv_def lists_ok_def)
  moreover have "blk_range w g ?b \<subseteq> {?b..<?b + max BLKSIZE (b_size (w_blks w ?b))}"
    using pl by (auto simp: blk_range_def blk_len_def)
  ultimately have "blk_range w g ?b \<subseteq> freed (w_blks w) (g_list g (InBin t i))"
    unfolding freed_def by blast
  also have "\<dots> \<subseteq> slot_blocks w g t" using i unfolding slot_blocks_def by blast
  finally show ?thesis using c(1) unfolding t by (rule order_trans [rotated])
qed

text \<open>The counters that the end of a thread keeps in the sums.\<close>

lemma sum_list_zeroed:
  fixes F :: "nat \<Rightarrow> 'b::ab_group_add"
  assumes "i < length xs" "F 0 = 0"
  shows "sum_list (map F (xs[i := 0])) = sum_list (map F xs) - F (xs ! i)"
  using assms by (induction xs arbitrary: i) (auto simp: nth_Cons' Suc_diff_Suc split: nat.split)

lemma exit_heap_stats:
  assumes "exit_heap t p = Some p'" "p_thrheap p t \<noteq> 0"
  shows "p_stat p' = p_stat (leave_table t p)" "p_stats p' = p_stats (leave_table t p)"
  using assms by (auto simp: exit_heap_def Let_def split: option.splits)

lemma stat_total_exit:
  assumes ok: "table_ok p" and e: "exit_heap t p = Some p'" and t: "p_thrheap p t \<noteq> 0"
    and st: "p_stats p (p_thrheap p t) = Some (b, st)" and g: "p_stat p = Some g"
    and own: "\<And>i. i < MAX_THREADS \<Longrightarrow> i \<noteq> nat (p_tid p t) \<Longrightarrow> p_all p ! i \<noteq> p_thrheap p t"
  shows "stat_total f p' = stat_total f p - f st - f g + f (add_stat st g)"
proof -
  let ?a = "p_thrheap p t" and ?s = "nat (p_tid p t)"
  note D = table_okD [OF ok]
  note r = exit_heap_result [OF e t] and x = exit_heap_stats [OF e t]
  have s: "?s < length (p_all p)" "p_all p ! ?s = ?a" using D(1) D(4) [OF t] by auto
  let ?F = "\<lambda>a. if a = 0 then 0 else case p_stats p a of None \<Rightarrow> 0 | Some (b, st) \<Rightarrow> f st"
  let ?F' = "\<lambda>a. if a = 0 then 0 else case p_stats p' a of None \<Rightarrow> 0 | Some (b, st) \<Rightarrow> f st"
  have stats: "p_stats p' = (p_stats p)(?a := None)" "p_stat p' = Some (add_stat st g)"
    by (simp_all add: x leave_table_def Let_def st g)
  have "?F' a = ?F a" if "a \<in> set (p_all p')" for a
  proof -
    from that obtain i where i: "i < MAX_THREADS" "p_all p' ! i = a" using D(1) by (auto simp: in_set_conv_nth r(1))
    then have "a \<noteq> ?a" using own [of i] t s(1) by (cases "i = ?s") (auto simp: r(1))
    then show ?thesis by (simp add: stats)
  qed
  then have "map ?F' (p_all p') = map ?F (p_all p')" by (rule map_cong [OF refl])
  then have "sum_list (map ?F' (p_all p')) = sum_list (map ?F (p_all p'))" by (rule arg_cong)
  also have "\<dots> = sum_list (map ?F (p_all p)) - f st"
    unfolding r(1) using sum_list_zeroed [OF s(1), of ?F] t by (simp add: s(2) st)
  finally show ?thesis unfolding stat_total_def by (simp add: stats g)
qed

section \<open>Properties\<close>

text \<open>The static variables of a process at its start.\<close>

definition nc_start :: "world \<Rightarrow> nc_proc" where
  "nc_start w = \<lparr>p_world = w, p_stat = None, p_hooks = Gnu, p_all = replicate MAX_THREADS 0, p_thrcount = 0,
     p_heapcreate = 0, p_heapexit = 0, p_tid = (\<lambda>_. - 1), p_thrheap = (\<lambda>_. 0), p_stats = (\<lambda>_. None)\<rparr>"

lemma start_table: "table_ok (nc_start w)"
  by (simp add: table_ok_def nc_start_def used_slots_def)

lemma table_world [simp]: "table_ok (p\<lparr>p_world := w\<rparr>) = table_ok p"
  by (simp add: table_ok_def used_slots_def)

lemma hooks_table:
  assumes "init_malloc_hooks os ev p = Some p'"
  shows "table_ok p' = table_ok p"
  using assms by (auto simp: init_malloc_hooks_def table_ok_def used_slots_def split: if_splits option.splits)

lemma thread_run_table:
  assumes "thread_run os p0 p" "good_mmap os" "table_ok p0"
  shows "table_ok p"
  using assms(1)
proof induction
  case run_start
  show ?case by (rule assms(3))
next
  case (run_init p t p')
  show ?case by (rule table_init [OF run_init(4) assms(2) run_init(2,3)])
next
  case (run_call p w)
  then show ?case by simp
next
  case (run_exit p t p')
  show ?case by (rule table_exit [OF run_exit(3,2)])
qed

text \<open>
  C18: in every run of a process, whatever threads start and end and whatever they do with the
  allocator in between: the heap of a running thread is in the table at the index of the
  thread, no two running threads have the same index, and the thread count is the number of
  heaps in the table, so that a new thread either finds a free slot or the process ends with
  the message that there are too many threads.
\<close>

theorem heap_table:
  assumes hooks: "init_malloc_hooks os ev (nc_start w) = Some p0" and os: "good_mmap os"
    and run: "thread_run os p0 p"
  shows "(\<forall>t. p_thrheap p t \<noteq> 0 \<longrightarrow> 0 \<le> p_tid p t \<and> p_tid p t < int MAX_THREADS \<and>
        p_all p ! nat (p_tid p t) = p_thrheap p t) \<and>
    (\<forall>t u. p_thrheap p t \<noteq> 0 \<and> p_thrheap p u \<noteq> 0 \<and> p_tid p t = p_tid p u \<longrightarrow> t = u) \<and>
    p_thrcount p = int (card (used_slots p)) \<and>
    (\<forall>t p'. init_heap os t p = Some p' \<longrightarrow> p_thrcount p < int MAX_THREADS \<and> 0 \<le> p_tid p' t)"
proof -
  have ok: "table_ok p"
    using thread_run_table [OF run os] hooks_table [OF hooks] start_table by simp
  have "p_thrcount p < int MAX_THREADS \<and> 0 \<le> p_tid p' t" if "init_heap os t p = Some p'" for t p'
    by (rule init_heap_result [OF ok that]) simp
  with ok show ?thesis unfolding table_ok_def by blast
qed

text \<open>Threads 5 and 7 start in a system with two regions.\<close>

definition two_regions :: mmap where
  "two_regions m len =
     (if len > 4194304 then None else if m = {} then Some 4194304
      else if m \<subseteq> {4194304..<8388608} then Some 8388608 else None)"

lemma heap_table_witness:
  "\<exists>p. thread_run two_regions ((nc_start world0)\<lparr>p_hooks := Nc\<rparr>) p \<and>
     p_thrheap p 5 = 4194304 \<and> p_thrheap p 7 = 8388608 \<and> p_tid p 5 \<noteq> p_tid p 7 \<and> p_thrcount p = 2"
proof -
  let ?p0 = "(nc_start world0)\<lparr>p_hooks := Nc\<rparr>"
  have sz: "0 < sizeof_heap" "sizeof_heap \<le> 4194304" "0 < MAX_THREADS" "1 < MAX_THREADS"
    by (simp_all add: sizeof_heap_def sizeof_ptr_def BINCNT_def MAX_THREADS_def)
  have os: "good_mmap two_regions"
    by (auto simp: good_mmap_def two_regions_def split: if_splits)
  have hooks: "init_malloc_hooks two_regions None (nc_start world0) = Some ?p0" by (simp add: init_malloc_hooks_def)
  have "\<exists>q. init_heap two_regions 5 ?p0 = Some q \<and> w_mapped (p_world q) = {4194304..<4194304 + sizeof_heap} \<and>
      p_stat q = None \<and> p_thrcount q = 1 \<and> p_thrheap q = (\<lambda>_. 0)(5 := 4194304)"
    using sz by (simp add: init_heap_def map_pages_def two_regions_def new_stat_def nc_start_def world0_def Let_def split: option.split)
  then obtain q where q: "init_heap two_regions 5 ?p0 = Some q" "w_mapped (p_world q) = {4194304..<4194304 + sizeof_heap}"
    "p_stat q = None" "p_thrcount q = 1" "p_thrheap q = (\<lambda>_. 0)(5 := 4194304)" by blast
  have "{4194304..<4194304 + sizeof_heap} \<subseteq> {4194304..<8388608}" "{4194304..<4194304 + sizeof_heap} \<noteq> {}"
    using sz by auto
  then have "\<exists>r. init_heap two_regions 7 q = Some r \<and> p_thrcount r = 2 \<and>
      p_thrheap r = (\<lambda>_. 0)(5 := 4194304, 7 := 8388608)"
    using sz q(2-5) by (simp add: init_heap_def map_pages_def two_regions_def new_stat_def Let_def split: option.split)
  then obtain r where r: "init_heap two_regions 7 q = Some r" "p_thrcount r = 2"
    "p_thrheap r = (\<lambda>_. 0)(5 := 4194304, 7 := 8388608)" by blast
  have run: "thread_run two_regions ?p0 r"
    by (rule run_init [OF run_init [OF run_start _ q(1)] _ r(1)]) (simp_all add: nc_start_def q(5))
  have h: "p_thrheap r 5 = 4194304" "p_thrheap r 7 = 8388608" by (simp_all add: r(3))
  have "\<forall>t u. p_thrheap r t \<noteq> 0 \<and> p_thrheap r u \<noteq> 0 \<and> p_tid r t = p_tid r u \<longrightarrow> t = u"
    using heap_table [OF hooks os run] by (elim conjE)
  from this [rule_format, of 5 7] have "p_tid r 5 \<noteq> p_tid r 7" by (auto simp: h)
  with run h r(2) show ?thesis by (intro exI [of _ r] conjI)
qed

text \<open>
  C19: \<open>exit_heap\<close> always returns, and it takes away the memory of buffers that are in use: every
  small buffer of the thread's blocks, whoever holds it, is unmapped afterwards. A program
  may hand such a buffer to another thread, or return it from the thread.
\<close>

theorem exit_heap_takes_buffers:
  assumes run: "client fuel os w0 (p_world p) L" and os: "good_mmap os" and fuel: "17 \<le> fuel"
    and st: "fresh_start w0" and t: "p_thrheap p t \<noteq> 0" "p_tid p t = int s"
  shows "\<exists>p'. exit_heap t p = Some p' \<and>
    (\<forall>q n. L q = Some n \<and> b_small (w_blks (p_world p) (blk_of (p_world p) q)) \<and>
       b_tid (w_blks (p_world p) (blk_of (p_world p) q)) = s \<longrightarrow>
       cells_of q n \<inter> w_mapped (p_world p') = {})"
proof -
  from client_inv [OF run os fuel st] obtain g where g: "heap_inv (p_world p) g" "g_live g = L" by blast
  from exit_heap_frees [OF g(1) t(1)] obtain p' where p': "exit_heap t p = Some p'"
    "w_mapped (p_world p') \<subseteq> w_mapped (p_world p) - slot_blocks (p_world p) g s" using t(2) by auto
  have "cells_of q n \<inter> w_mapped (p_world p') = {}"
    if "L q = Some n" "b_small (w_blks (p_world p) (blk_of (p_world p) q))"
      "b_tid (w_blks (p_world p) (blk_of (p_world p) q)) = s" for q n
    using live_in_slot [OF g(1) _ that(2), of n] g(2) that(1,3) p'(2) by auto
  with p'(1) show ?thesis by blast
qed

text \<open>Thread 5 has two buffers of 100 bytes when it ends.\<close>

lemma exit_heap_takes_buffers_witness:
  "\<exists>p p'. cells_of 4194384 100 \<subseteq> w_mapped (p_world p) \<and> exit_heap 5 p = Some p' \<and>
    cells_of 4194384 100 \<inter> w_mapped (p_world p') = {}"
proof (rule two_buffers)
  fix w1 w2 assume m: "nc_malloc 17 one_region 0 100 world0 = Some (4194384, w1)"
    "nc_malloc 17 one_region 0 100 w1 = Some (4194512, w2)"
  have "one_size 100" by (simp add: one_size_def)
  from client.malloc [OF client.start this m(1)]
  have run: "client 17 one_region world0 w1 ((\<lambda>p. None)(4194384 := Some 100))" .
  have b: "b_small (w_blks w1 (blk_of w1 4194384)) \<and> b_tid (w_blks w1 (blk_of w1 4194384)) = 0 \<and>
      cells_of 4194384 100 \<subseteq> w_mapped w1"
    using m(1) by (auto simp: run_simps small_bin_100 cells_of_def)
  let ?p = "(nc_start w1)\<lparr>p_thrheap := (\<lambda>_. 0)(5 := 8192), p_tid := (\<lambda>_. - 1)(5 := 0)\<rparr>"
  have "client 17 one_region world0 (p_world ?p) ((\<lambda>p. None)(4194384 := Some 100))"
    using run by (simp add: nc_start_def)
  from exit_heap_takes_buffers [OF this good_one_region _ start_world0, of 5 0] obtain p' where
    p': "exit_heap 5 ?p = Some p'" "\<forall>q n. ((\<lambda>p. None)(4194384 := Some 100)) q = Some n \<and>
      b_small (w_blks w1 (blk_of w1 q)) \<and> b_tid (w_blks w1 (blk_of w1 q)) = 0 \<longrightarrow>
      cells_of q n \<inter> w_mapped (p_world p') = {}"
    by (auto simp: nc_start_def)
  then have "cells_of 4194384 100 \<inter> w_mapped (p_world p') = {}" using b by (metis fun_upd_same)
  with p'(1) b show ?thesis by (intro exI [of _ ?p] exI [of _ p']) (simp add: nc_start_def)
qed

text \<open>
  The statistics: requests of the class \<open>i\<close> are of at most \<open>2 ^ i\<close> bytes and more than half of
  that, which is what the heading \<open><=2^i\<close> of the printed table says.
\<close>

lemma and_pred_zero:
  assumes "0 < (n :: nat)" "2 ^ k \<le> n" "n < 2 ^ Suc k"
  shows "n AND (n - 1) = 0 \<longleftrightarrow> n = 2 ^ k"
proof
  assume "n = 2 ^ k"
  moreover have "2 ^ k AND mask k = (0 :: nat)" by (simp flip: take_bit_eq_mask)
  ultimately show "n AND (n - 1) = 0" by (simp add: mask_eq_exp_minus_1)
next
  assume z: "n AND (n - 1) = 0"
  show "n = 2 ^ k"
  proof (rule ccontr)
    assume "n \<noteq> 2 ^ k"
    with assms have "2 ^ k \<le> n - 1" "n - 1 < 2 ^ Suc k" by simp_all
    then have "(n - 1) div 2 ^ k = 1" "n div 2 ^ k = 1"
      using assms by (auto intro!: div_nat_eqI)
    then have "bit n k" "bit (n - 1) k" by (simp_all add: bit_iff_odd)
    then have "bit (n AND (n - 1)) k" by (simp add: bit_and_iff)
    with z show False by simp
  qed
qed

theorem size_classes:
  assumes "0 < sz"
  shows "sz \<le> 2 ^ size_class sz" "0 < size_class sz \<Longrightarrow> 2 ^ (size_class sz - 1) < sz"
proof -
  note b = ilog2_bounds [OF assms]
  note z = and_pred_zero [OF assms b [THEN conjunct1] b [THEN conjunct2]]
  show "sz \<le> 2 ^ size_class sz" using b z by (auto simp: size_class_def)
  show "2 ^ (size_class sz - 1) < sz" if "0 < size_class sz"
  proof (cases "sz AND (sz - 1) = 0")
    case True
    then have "sz = 2 ^ ilog2 sz" "size_class sz = ilog2 sz" using z by (simp_all add: size_class_def)
    with that show ?thesis by (metis diff_less one_less_numeral_iff power_strict_increasing semiring_norm(76) zero_less_one)
  next
    case False
    then have "sz \<noteq> 2 ^ ilog2 sz" using z by simp
    with b False show ?thesis by (simp add: size_class_def)
  qed
qed

text \<open>
  The end of a thread leaves the sums that \<open>printstat\<close> prints as they are, but for the calls of
  \<open>mmap\<close> and \<open>munmap\<close>, which \<open>exit_heap\<close> forgets to add.
\<close>

theorem ended_thread_counts:
  assumes ok: "table_ok p" and e: "exit_heap t p = Some p'" and t: "p_thrheap p t \<noteq> 0"
    and st: "p_stats p (p_thrheap p t) = Some (b, st)" and g: "p_stat p = Some g"
    and own: "\<And>i. i < MAX_THREADS \<Longrightarrow> i \<noteq> nat (p_tid p t) \<Longrightarrow> p_all p ! i \<noteq> p_thrheap p t"
  shows "\<forall>f\<in>{st_mcalls, st_fcalls, st_rcalls, st_acalls, st_mticks, st_fticks, st_interthrfree}.
      stat_total f p' = stat_total f p" "stat_total st_mmapcalls p' = stat_total st_mmapcalls p - st_mmapcalls st"
    "stat_total st_unmapcalls p' = stat_total st_unmapcalls p - st_unmapcalls st"
  using stat_total_exit [OF ok e t st g own] by (simp_all add: add_stat_def)

end
