(* ===== verification/BteTransfer.thy ===== *)
theory BteTransfer
  imports Prelude
begin

text \<open>
  The transfer engine of \<^verbatim>\<open>lib/libncbte.c\<close>: pinned regions as tables of physical page
  addresses, the translation of an offset, the descriptors of the block transfer engine and
  the loop that cuts a transfer into them. \<^verbatim>\<open>size_t\<close> and addresses are 64-bit words, the counts
  of double words 32-bit words as declared, \<^verbatim>\<open>off_t\<close> is an integer (its overflow is undefined).
\<close>

section \<open>Regions\<close>

record ncbte_mem =
  addr :: u64
  size :: u64
  phys_addr :: "u64 list"

record ncbte_region =
  mem :: ncbte_mem
  bmp :: "nat set"
  allocated :: bool

definition nr_pages :: "ncbte_region \<Rightarrow> nat" where
  "nr_pages r = length (phys_addr (mem r))"

text \<open>
  \<open>find_page n page offset\<close> is the first loop of \<^verbatim>\<open>_get_region_phys_addr\<close> with \<open>n\<close> pages to go.
\<close>

fun find_page :: "nat \<Rightarrow> nat \<Rightarrow> int \<Rightarrow> nat \<times> int" where
  "find_page 0 page offset = (page, offset)"
| "find_page (Suc n) page offset =
     (if \<not> 0 < offset then (page, offset)
      else if offset \<le> 4096 - 4 then (page, offset)
      else find_page n (Suc page) (offset - 4096))"

text \<open>The second loop: pages that continue the previous one.\<close>

fun contiguous :: "u64 \<Rightarrow> u64 list \<Rightarrow> u64 \<Rightarrow> u64" where
  "contiguous expected [] len = len"
| "contiguous expected (p # ps) len =
     (if p \<noteq> expected then len else contiguous (expected + 4096) ps (len + 4096))"

definition get_region_phys_addr :: "ncbte_region option \<Rightarrow> int \<Rightarrow> u64 \<times> u64" where
  "get_region_phys_addr region offset =
     (case region of
        None \<Rightarrow> (0, -1)
      | Some r \<Rightarrow>
          let (page, offset) = find_page (nr_pages r) 0 offset
          in if page = nr_pages r then (0, 0)
             else
               let start = phys_addr (mem r) ! page
               in (start + of_int offset,
                   contiguous (start + 4096) (drop (Suc page) (phys_addr (mem r))) (of_int (4096 - offset))))"

section \<open>Descriptors\<close>

datatype btce_op = REM_WRITE | REM_MOVE | REM_READ | REM_CLEAR

definition op_code :: "btce_op \<Rightarrow> nat" where
  "op_code opr = (case opr of REM_WRITE \<Rightarrow> 0 | REM_MOVE \<Rightarrow> 1 | REM_READ \<Rightarrow> 2 | REM_CLEAR \<Rightarrow> 3)"

record btce =
  local_dw :: nat
  remote_dw :: nat
  dw_cnt :: nat
  is_fence :: nat
  opc :: nat

text \<open>The widths of the bit fields of \<^verbatim>\<open>btce_t\<close>.\<close>

definition btce_fits :: "btce \<Rightarrow> bool" where
  "btce_fits b \<longleftrightarrow> local_dw b < 2 ^ 46 \<and> remote_dw b < 2 ^ 46 \<and> dw_cnt b < 2 ^ 19 \<and>
     is_fence b < 2 \<and> opc b < 4"

text \<open>Assignments to a bit field keep the low bits.\<close>

definition make_btce :: "btce_op \<Rightarrow> u64 \<Rightarrow> u64 \<Rightarrow> u32 \<Rightarrow> btce" where
  "make_btce opr la ra ndwords =
     \<lparr>local_dw = unat (take_bit 46 (drop_bit 2 la)), remote_dw = unat (take_bit 46 (drop_bit 2 ra)),
      dw_cnt = unat (take_bit 19 (ndwords - 1)), is_fence = 0, opc = op_code opr\<rparr>"

definition fence_btce :: "u64 \<Rightarrow> btce" where
  "fence_btce fence_paddr =
     \<lparr>local_dw = unat (take_bit 46 (drop_bit 2 fence_paddr)), remote_dw = 0, dw_cnt = 0,
      is_fence = 1, opc = 0\<rparr>"

text \<open>
  The loops over \<^verbatim>\<open>SETUP_BTCE\<close>: \<open>n\<close> descriptors to go, the \<open>i\<close>-th is stored at \<open>base + 16 i\<close>. The
  result is the list of stores and the two addresses afterwards.
\<close>

fun setup_btces ::
    "u64 \<Rightarrow> btce_op \<Rightarrow> nat \<Rightarrow> nat \<Rightarrow> u32 \<Rightarrow> u32 \<Rightarrow> u64 \<Rightarrow> u64 \<Rightarrow> (u64 \<times> btce) list \<times> u64 \<times> u64" where
  "setup_btces base opr i 0 cnt lim la ra = ([], la, ra)"
| "setup_btces base opr i (Suc n) cnt lim la ra =
     (if \<not> cnt > 0 then ([], la, ra)
      else
        let ndwords = (if cnt > lim then lim else cnt);
            step = ucast (push_bit 2 ndwords)
        in case setup_btces base opr (Suc i) n (cnt - ndwords) lim (la + step) (ra + step) of
             (rest, la', ra') \<Rightarrow> ((base + of_nat (16 * i), make_btce opr la ra ndwords) # rest, la', ra'))"

definition div_round_up :: "u32 \<Rightarrow> u32 \<Rightarrow> nat" where
  "div_round_up n d = unat ((n + d - 1) div d)"

section \<open>The transfer loop\<close>

record transfer =
  t_length :: u64
  t_local :: int
  t_remote :: int
  t_stores :: "(u64 \<times> btce) list"

text \<open>\<^verbatim>\<open>UPDATE_LENGTH_OFFSET(x)\<close>: the shift of \<open>x\<close> is done at 32 bits.\<close>

definition update_length_offset :: "u32 \<Rightarrow> transfer \<Rightarrow> transfer" where
  "update_length_offset x t =
     t\<lparr>t_length := t_length t - ucast (push_bit 2 x),
       t_local := t_local t + uint (push_bit 2 x), t_remote := t_remote t + uint (push_bit 2 x)\<rparr>"

text \<open>One phase (head, bulk or tail) of a turn of the loop.\<close>

definition phase ::
    "u64 \<Rightarrow> btce_op \<Rightarrow> u32 \<Rightarrow> u32 \<Rightarrow> u64 \<times> u64 \<times> transfer \<Rightarrow> u64 \<times> u64 \<times> transfer" where
  "phase base opr x lim s =
     (case s of (la, ra, t) \<Rightarrow>
        if x = 0 then s
        else case setup_btces base opr 0 (div_round_up x lim) x lim la ra of
               (stores, la', ra') \<Rightarrow>
                 (la', ra', (update_length_offset x t)\<lparr>t_stores := t_stores t @ stores\<rparr>))"

definition max_btce_dwords :: u32 where "max_btce_dwords = push_bit 19 1"

text \<open>A turn of the loop; \<open>None\<close> is the error return.\<close>

definition transfer_turn ::
    "u64 \<Rightarrow> ncbte_region option \<Rightarrow> ncbte_region option \<Rightarrow> btce_op \<Rightarrow> transfer \<Rightarrow> transfer option" where
  "transfer_turn base local_region remote_region opr t =
     (case get_region_phys_addr local_region (t_local t) of (la, llen) \<Rightarrow>
      case get_region_phys_addr remote_region (t_remote t) of (ra, rlen) \<Rightarrow>
      if llen = 0 \<or> rlen = 0 then None
      else
        let m = (if llen < rlen then llen else rlen);
            bulk = (ucast (drop_bit 2 (if m < t_length t then m else t_length t)) :: u32);
            head = (ucast (drop_bit 2 (la AND 0x3f)) :: u32);
            head = (if head \<noteq> 0 then 0x10 - head else 0);
            bulk = bulk - head;
            s = phase base opr head 4 (la, ra, t);
            tail = bulk AND 0xf;
            bulk = bulk - tail;
            s = phase base opr bulk max_btce_dwords s
        in Some (snd (snd (phase base opr tail 4 s))))"

text \<open>
  The \<^verbatim>\<open>do ... while (length > 0)\<close> loop, with fuel; \<open>None\<close> is a loop that did not end within it,
  \<open>Inl\<close> the error return, with the stores made before it.
\<close>

fun transfer_loop ::
    "nat \<Rightarrow> u64 \<Rightarrow> ncbte_region option \<Rightarrow> ncbte_region option \<Rightarrow> btce_op \<Rightarrow> transfer
     \<Rightarrow> (transfer + transfer) option" where
  "transfer_loop 0 base lr rr opr t = None"
| "transfer_loop (Suc n) base lr rr opr t =
     (case transfer_turn base lr rr opr t of
        None \<Rightarrow> Some (Inl t)
      | Some t' \<Rightarrow> if t_length t' > 0 then transfer_loop n base lr rr opr t' else Some (Inr t'))"

record ncbte_completion =
  fence_paddr :: u64
  fence_addr :: u64
  queue_num :: int
  chip_no :: int

text \<open>The result: 0 with the stores that were made, or -1.\<close>

definition ncbte_transfer_region ::
    "nat \<Rightarrow> u64 \<Rightarrow> ncbte_region option \<Rightarrow> int \<Rightarrow> ncbte_region option \<Rightarrow> int \<Rightarrow> u64 \<Rightarrow> btce_op
     \<Rightarrow> ncbte_completion option \<Rightarrow> (int \<times> (u64 \<times> btce) list) option" where
  "ncbte_transfer_region fuel bte_io lr loff rr roff len opr completion =
     (let comp_offset = (case completion of None \<Rightarrow> 0 | Some c \<Rightarrow> push_bit 12 (of_int (queue_num c)));
          base = bte_io + comp_offset
      in case transfer_loop fuel base lr rr opr
               \<lparr>t_length = len, t_local = loff, t_remote = roff, t_stores = []\<rparr> of
           None \<Rightarrow> None
         | Some (Inl t) \<Rightarrow> Some (-1, t_stores t)
         | Some (Inr t) \<Rightarrow>
             Some (0, t_stores t @
               (case completion of None \<Rightarrow> [] | Some c \<Rightarrow> [(base, fence_btce (fence_paddr c))])))"

text \<open>The guards of the three entry points; the sums are done in \<^verbatim>\<open>size_t\<close>.\<close>

definition in_region :: "ncbte_region \<Rightarrow> int \<Rightarrow> u64 \<Rightarrow> bool" where
  "in_region r off len \<longleftrightarrow> \<not> of_int off + len > size (mem r)"

definition copy_guard :: "ncbte_region \<Rightarrow> int \<Rightarrow> ncbte_region \<Rightarrow> int \<Rightarrow> u64 \<Rightarrow> bool" where
  "copy_guard lr loff rr roff len \<longleftrightarrow>
     in_region lr loff len \<and> in_region rr roff len \<and> loff mod 64 = roff mod 64 \<and>
     loff mod 4 = 0 \<and> len AND 3 = 0"

definition ncbte_write_region ::
    "nat \<Rightarrow> u64 \<Rightarrow> ncbte_region option \<Rightarrow> int \<Rightarrow> ncbte_region option \<Rightarrow> int \<Rightarrow> u64
     \<Rightarrow> ncbte_completion option \<Rightarrow> (int \<times> (u64 \<times> btce) list) option" where
  "ncbte_write_region fuel bte_io lr loff rr roff len completion =
     (case (lr, rr) of
        (Some l, Some r) \<Rightarrow>
          if \<not> copy_guard l loff r roff len then Some (-1, [])
          else ncbte_transfer_region fuel bte_io lr loff rr roff len REM_WRITE completion
      | _ \<Rightarrow> Some (-1, []))"

definition ncbte_read_region ::
    "nat \<Rightarrow> u64 \<Rightarrow> ncbte_region option \<Rightarrow> int \<Rightarrow> ncbte_region option \<Rightarrow> int \<Rightarrow> u64
     \<Rightarrow> ncbte_completion option \<Rightarrow> (int \<times> (u64 \<times> btce) list) option" where
  "ncbte_read_region fuel bte_io lr loff rr roff len completion =
     (case (lr, rr) of
        (Some l, Some r) \<Rightarrow>
          if \<not> copy_guard l loff r roff len then Some (-1, [])
          else ncbte_transfer_region fuel bte_io lr loff rr roff len REM_READ completion
      | _ \<Rightarrow> Some (-1, []))"

definition ncbte_clear_region ::
    "nat \<Rightarrow> u64 \<Rightarrow> ncbte_region option \<Rightarrow> int \<Rightarrow> u64 \<Rightarrow> ncbte_completion option
     \<Rightarrow> (int \<times> (u64 \<times> btce) list) option" where
  "ncbte_clear_region fuel bte_io rr roff len completion =
     (case rr of
        None \<Rightarrow> Some (-1, [])
      | Some r \<Rightarrow>
          if \<not> in_region r roff len \<or> roff mod 64 \<noteq> 0 \<or> len AND 0x3f \<noteq> 0 then Some (-1, [])
          else ncbte_transfer_region fuel bte_io None 0 rr roff len REM_CLEAR completion)"

section \<open>Address translation\<close>

text \<open>The physical address of a byte of a region, and what the driver fills the table with.\<close>

definition paddr :: "u64 list \<Rightarrow> nat \<Rightarrow> nat" where
  "paddr ps o' = unat (ps ! (o' div 4096)) + o' mod 4096"

definition pages_ok :: "u64 list \<Rightarrow> bool" where
  "pages_ok ps \<longleftrightarrow> (\<forall>p\<in>set ps. unat p mod 4096 = 0 \<and> unat p + 4096 \<le> 2 ^ 48) \<and> length ps * 4096 \<le> 2 ^ 47"

lemma find_page_spec:
  "o' < 4096 * n \<Longrightarrow> o' mod 4 = 0 \<Longrightarrow>
    find_page n page (int o') = (page + o' div 4096, int (o' mod 4096))"
proof (induction n arbitrary: page o')
  case (Suc n)
  show ?case
  proof (cases "o' \<le> 4092")
    case False
    with Suc.prems(2) have ge: "4096 \<le> o'" by presburger
    then obtain q where q: "o' = q + 4096" by (metis add.commute le_Suc_ex)
    have i: "int o' - 4096 = int q" by (simp add: q)
    have "q < 4096 * n" using Suc.prems(1) by (simp add: q)
    moreover have "q mod 4 = 0" using Suc.prems(2) unfolding q by presburger
    ultimately have "q < 4096 * n" "q mod 4 = 0" by simp_all
    from Suc.IH [OF this, of "Suc page"] False show ?thesis by (simp add: i) (simp add: q)
  qed auto
qed simp

lemma contiguous_spec:
  "\<exists>k \<le> length ps. contiguous e ps len = len + of_nat (4096 * k) \<and>
     (\<forall>i<k. ps ! i = e + of_nat (4096 * i))"
proof (induction ps arbitrary: e len)
  case (Cons p ps)
  show ?case
  proof (cases "p = e")
    case True
    from Cons [of "e + 4096" "len + 4096"] obtain k where
      k: "k \<le> length ps" "contiguous (e + 4096) ps (len + 4096) = len + 4096 + of_nat (4096 * k)"
        "\<forall>i<k. ps ! i = e + 4096 + of_nat (4096 * i)" by blast
    have "(p # ps) ! i = e + of_nat (4096 * i)" if "i < Suc k" for i
      using that k(3) True by (cases i) (auto simp: algebra_simps)
    with k True show ?thesis
      by (intro exI [of _ "Suc k"]) (simp add: algebra_simps)
  qed (rule exI [of _ 0], simp)
qed simp

lemma unat_add_of_nat:
  "unat (a :: u64) + n < 2 ^ 64 \<Longrightarrow> unat (a + of_nat n) = unat a + n"
  by (simp add: unat_word_ariths unsigned_of_nat take_bit_nat_eq_self)

lemma get_phys_spec:
  assumes "pages_ok (phys_addr (mem r))" "o' < 4096 * nr_pages r" "o' mod 4 = 0"
  obtains a c where "get_region_phys_addr (Some r) (int o') = (a, c)"
    "unat a = paddr (phys_addr (mem r)) o'" "0 < unat c" "(o' + unat c) mod 4096 = 0"
    "o' + unat c \<le> 4096 * nr_pages r"
    "\<forall>j < unat c. paddr (phys_addr (mem r)) (o' + j) = paddr (phys_addr (mem r)) o' + j"
    "paddr (phys_addr (mem r)) o' + unat c \<le> 2 ^ 48"
proof -
  let ?ps = "phys_addr (mem r)"
  define p m where "p = o' div 4096" and "m = o' mod 4096"
  have m: "m < 4096" by (simp add: m_def)
  have o': "o' = 4096 * p + m" by (simp add: p_def m_def)
  have p: "p < length ?ps" using assms(2) by (simp add: p_def nr_pages_def less_mult_imp_div_less)
  define start where "start = ?ps ! p"
  have start: "unat start mod 4096 = 0" "unat start + 4096 \<le> 2 ^ 48"
    using assms(1) p by (auto simp: pages_ok_def start_def)
  have len: "length ?ps * 4096 \<le> 2 ^ 47" using assms(1) by (simp add: pages_ok_def)
  obtain k where k: "k \<le> length ?ps - Suc p"
    "contiguous (start + 4096) (drop (Suc p) ?ps) (of_int (4096 - int m)) =
      of_int (4096 - int m) + of_nat (4096 * k)"
    "\<forall>i<k. drop (Suc p) ?ps ! i = start + 4096 + of_nat (4096 * i)"
    using contiguous_spec [of "drop (Suc p) ?ps" "start + 4096" "of_int (4096 - int m)"] by auto
  let ?c = "of_int (4096 - int m) + of_nat (4096 * k) :: u64"
  have "int (4096 - m) = 4096 - int m" using m by simp
  then have "?c = of_nat (4096 - m + 4096 * k)"
    by (metis of_int_of_nat_eq of_nat_add)
  moreover have k4: "4096 * k \<le> 2 ^ 47" using k(1) len p by linarith
  moreover have "4096 - m + 4096 * k < 2 ^ 64" using k4 by simp
  then have "unat (of_nat (4096 - m + 4096 * k) :: u64) = 4096 - m + 4096 * k"
    by (simp only: unsigned_of_nat of_nat_id) (rule take_bit_nat_eq_self, simp)
  ultimately have c: "unat ?c = 4096 - m + 4096 * k" by (simp only:)
  have nth: "unat (?ps ! (p + q)) = unat start + 4096 * q" if "q \<le> k" for q
  proof (cases q)
    case (Suc i)
    with that k(3) have "?ps ! (p + q) = start + of_nat (4096 * q)"
      using p by (simp add: Suc_le_eq algebra_simps)
    moreover have "4096 * q \<le> 2 ^ 47" using k4 that by linarith
    then have "unat start + 4096 * q < 2 ^ 64" using start(2) by simp
    ultimately show ?thesis by (simp only: unat_add_of_nat)
  qed (simp add: start_def)
  show thesis
  proof
    show "get_region_phys_addr (Some r) (int o') = (start + of_int (int m), ?c)"
      using find_page_spec [OF assms(2,3), of 0] p k(2)
      by (simp add: get_region_phys_addr_def nr_pages_def start_def p_def m_def Let_def)
    have "unat (start + of_nat m) = unat start + m" using start(2) m by (intro unat_add_of_nat) simp
    then show "unat (start + of_int (int m)) = paddr ?ps o'"
      by (simp add: paddr_def start_def p_def m_def)
    show "0 < unat ?c" using c m by linarith
    have oc: "o' + unat ?c = 4096 * (p + 1 + k)" using c m by (simp add: o' algebra_simps)
    show "(o' + unat ?c) mod 4096 = 0" unfolding oc by simp
    show "o' + unat ?c \<le> 4096 * nr_pages r" unfolding oc using k(1) p by (simp add: nr_pages_def)
    show "\<forall>j < unat ?c. paddr ?ps (o' + j) = paddr ?ps o' + j"
    proof (intro allI impI)
      fix j assume that: "j < unat ?c"
      define q where "q = (m + j) div 4096"
      have "q \<le> k" using that c m by (simp add: q_def div_le_mono less_Suc_eq_le [symmetric] less_mult_imp_div_less)
      have d: "(o' + j) div 4096 = p + q" "(o' + j) mod 4096 = (m + j) mod 4096"
        by (simp_all add: o' q_def add.assoc)
      have "paddr ?ps (o' + j) = unat start + 4096 * q + (m + j) mod 4096"
        unfolding paddr_def d by (simp only: nth [OF \<open>q \<le> k\<close>])
      also have "\<dots> = unat start + (m + j)"
        unfolding q_def by (simp only: add.assoc mult_div_mod_eq)
      finally show "paddr ?ps (o' + j) = paddr ?ps o' + j"
        by (simp add: paddr_def start_def p_def m_def)
    qed
    have "?ps ! (p + k) \<in> set ?ps" using k(1) p by simp
    then have "unat start + 4096 * k + 4096 \<le> 2 ^ 48"
      using assms(1) nth [of k] by (auto simp: pages_ok_def)
    then show "paddr ?ps o' + unat ?c \<le> 2 ^ 48"
      unfolding c using m by (simp add: paddr_def start_def p_def [symmetric] m_def [symmetric])
  qed
qed

section \<open>What the descriptors transfer\<close>

text \<open>
  A descriptor moves \<open>dw_cnt + 1\<close> double words; \<open>moves\<close> lists them as pairs of the local and
  the remote physical byte address.
\<close>

definition moves :: "btce \<Rightarrow> (nat \<times> nat) list" where
  "moves b = map (\<lambda>j. (4 * local_dw b + 4 * j, 4 * remote_dw b + 4 * j)) [0..<Suc (dw_cnt b)]"

definition all_moves :: "(u64 \<times> btce) list \<Rightarrow> (nat \<times> nat) list" where
  "all_moves st = concat (map (\<lambda>s. moves (snd s)) st)"

definition span :: "nat \<Rightarrow> nat \<Rightarrow> nat \<Rightarrow> (nat \<times> nat) list" where
  "span a b n = map (\<lambda>k. (a + 4 * k, b + 4 * k)) [0..<n]"

lemma all_moves_append [simp]: "all_moves (s @ t) = all_moves s @ all_moves t"
  by (simp add: all_moves_def)

lemma span_0 [simp]: "span a b 0 = []"
  by (simp add: span_def)

lemma span_append: "span a b (m + n) = span a b m @ span (a + 4 * m) (b + 4 * m) n"
proof -
  have "[m..<m + n] = map (\<lambda>k. k + m) [0..<n]" by (simp add: map_add_upt add.commute)
  then show ?thesis by (simp add: span_def upt_add_eq_append [of 0 m n] o_def algebra_simps)
qed

lemma unat_add_small:
  "unat (a :: u64) + unat b < 2 ^ 64 \<Longrightarrow> unat (a + b) = unat a + unat b"
  by (simp add: unat_word_ariths)

lemma unat_shift2: "unat (c :: u32) < 2 ^ 30 \<Longrightarrow> unat (push_bit 2 c) = 4 * unat c"
  by (simp add: push_bit_eq_mult unat_word_ariths)

lemma unat_shift2_64: "unat (c :: u32) < 2 ^ 30 \<Longrightarrow> unat (ucast (push_bit 2 c) :: u64) = 4 * unat c"
  by (simp add: unsigned_ucast_eq unat_shift2 take_bit_nat_eq_self)

lemma dw_address:
  assumes "unat (a :: u64) < 2 ^ 48" "unat a mod 4 = 0"
  shows "4 * unat (take_bit 46 (drop_bit 2 a)) = unat a" "unat (take_bit 46 (drop_bit 2 a)) < 2 ^ 46"
proof -
  have d: "unat (drop_bit 2 a) = unat a div 4" by (simp add: drop_bit_eq_div unat_div_distrib)
  have "unat a div 4 < 2 ^ 46" using assms(1) by simp
  then have "unat (take_bit 46 (drop_bit 2 a)) = unat a div 4"
    unfolding unsigned_take_bit_eq d by (rule take_bit_nat_eq_self)
  then show "4 * unat (take_bit 46 (drop_bit 2 a)) = unat a" "unat (take_bit 46 (drop_bit 2 a)) < 2 ^ 46"
    using assms by (auto simp: less_mult_imp_div_less)
qed

lemma make_btce_moves:
  assumes "unat la < 2 ^ 48" "unat la mod 4 = 0" "unat ra < 2 ^ 48" "unat ra mod 4 = 0"
    and "0 < unat n" "unat n \<le> 2 ^ 19"
  shows "moves (make_btce opr la ra n) = span (unat la) (unat ra) (unat n)"
    and "btce_fits (make_btce opr la ra n)" "opc (make_btce opr la ra n) = op_code opr"
    and "is_fence (make_btce opr la ra n) = 0"
proof -
  have "unat (n - 1) = unat n - 1" using assms(5) by (simp add: unat_minus_one unat_gt_0)
  then have "unat (take_bit 19 (n - 1)) = unat n - 1"
    using assms(6) by (simp add: unsigned_take_bit_eq take_bit_nat_eq_self)
  then have c: "Suc (dw_cnt (make_btce opr la ra n)) = unat n" "dw_cnt (make_btce opr la ra n) < 2 ^ 19"
    using assms(5,6) by (simp_all add: make_btce_def)
  show "moves (make_btce opr la ra n) = span (unat la) (unat ra) (unat n)"
    unfolding moves_def span_def c(1)
    by (simp add: make_btce_def dw_address [OF assms(1,2)] dw_address [OF assms(3,4)])
  show "btce_fits (make_btce opr la ra n)"
    using c(2) dw_address(2) [OF assms(1,2)] dw_address(2) [OF assms(3,4)]
    by (simp add: btce_fits_def make_btce_def op_code_def split: btce_op.split)
qed (simp_all add: make_btce_def)

definition plain_stores :: "btce_op \<Rightarrow> (u64 \<times> btce) list \<Rightarrow> bool" where
  "plain_stores opr st \<longleftrightarrow> (\<forall>s\<in>set st. btce_fits (snd s) \<and> opc (snd s) = op_code opr \<and> is_fence (snd s) = 0)"

lemma setup_covers:
  assumes "unat la mod 4 = 0" "unat ra mod 4 = 0" "unat la + 4 * unat c \<le> 2 ^ 48" "unat ra + 4 * unat c \<le> 2 ^ 48"
    and "0 < unat lim" "unat lim \<le> 2 ^ 19" "unat c \<le> n * unat lim"
  shows "case setup_btces base opr i n c lim la ra of (st, la', ra') \<Rightarrow>
    all_moves st = span (unat la) (unat ra) (unat c) \<and> unat la' = unat la + 4 * unat c \<and>
    unat ra' = unat ra + 4 * unat c \<and> plain_stores opr st"
  using assms
proof (induction n arbitrary: i c la ra)
  case 0
  then show ?case by (simp add: all_moves_def plain_stores_def)
next
  case (Suc n)
  show ?case
  proof (cases "c = 0")
    case False
    define nd where "nd = (if c > lim then lim else c)"
    have nd: "0 < unat nd" "unat nd \<le> 2 ^ 19" "unat nd \<le> unat c" "unat nd = min (unat c) (unat lim)"
      using False Suc.prems(5,6) by (auto simp: nd_def word_less_nat_alt unat_gt_0)
    have step: "unat (ucast (push_bit 2 nd) :: u64) = 4 * unat nd"
      using nd(2) by (intro unat_shift2_64) simp
    have la: "unat (la + ucast (push_bit 2 nd)) = unat la + 4 * unat nd"
      and ra: "unat (ra + ucast (push_bit 2 nd)) = unat ra + 4 * unat nd"
      using Suc.prems(3,4) nd(3) step by (simp_all add: unat_add_small)
    have cn: "unat (c - nd) = unat c - unat nd" using nd(3) by (simp add: unat_sub word_le_nat_alt)
    have "unat (c - nd) \<le> n * unat lim" using Suc.prems(7) unfolding cn nd(4) by (simp add: min_def) linarith
    note IH = Suc.IH [OF _ _ _ _ Suc.prems(5,6) this, of "la + ucast (push_bit 2 nd)" "ra + ucast (push_bit 2 nd)" "Suc i"]
    obtain st la' ra' where r: "setup_btces base opr (Suc i) n (c - nd) lim (la + ucast (push_bit 2 nd))
        (ra + ucast (push_bit 2 nd)) = (st, la', ra')" by (metis prod_cases3)
    have m4: "(unat la + 4 * unat nd) mod 4 = 0" "(unat ra + 4 * unat nd) mod 4 = 0"
      using Suc.prems(1,2) by simp_all
    have IH': "all_moves st = span (unat la + 4 * unat nd) (unat ra + 4 * unat nd) (unat c - unat nd)"
      "unat la' = unat la + 4 * unat c" "unat ra' = unat ra + 4 * unat c" "plain_stores opr st"
      using IH Suc.prems(3,4) nd(3) m4 unfolding r la ra cn by simp_all
    have b: "unat la < 2 ^ 48" "unat ra < 2 ^ 48" using Suc.prems(3,4) nd(1,3) by linarith+
    note mk = make_btce_moves [OF b(1) Suc.prems(1) b(2) Suc.prems(2) nd(1,2), of opr]
    have e: "setup_btces base opr i (Suc n) c lim la ra = ((base + of_nat (16 * i), make_btce opr la ra nd) # st, la', ra')"
      using False r by (simp add: nd_def [symmetric] Let_def word_gt_0)
    have "span (unat la) (unat ra) (unat c) = span (unat la) (unat ra) (unat nd) @
        span (unat la + 4 * unat nd) (unat ra + 4 * unat nd) (unat c - unat nd)"
      using span_append [of "unat la" "unat ra" "unat nd" "unat c - unat nd"] nd(3) by simp
    with IH' mk show ?thesis
      unfolding e by (simp add: all_moves_def plain_stores_def)
  qed (simp add: all_moves_def plain_stores_def)
qed

lemma div_round_up_enough:
  assumes "unat (c :: u32) + unat lim < 2 ^ 32" "0 < unat lim"
  shows "unat c \<le> div_round_up c lim * unat lim"
proof -
  have "unat (c + lim) = unat c + unat lim" using assms(1) by (simp add: unat_word_ariths)
  then have "unat (c + lim - 1) = unat c + unat lim - 1"
    using assms(2) by (subst unat_minus_one) (metis add_is_0 less_numeral_extra(3) unat_0, simp)
  then have "div_round_up c lim = (unat c + unat lim - 1) div unat lim"
    by (simp add: div_round_up_def unat_div_distrib)
  moreover have "unat c + unat lim - 1 < Suc ((unat c + unat lim - 1) div unat lim) * unat lim"
    using assms(2) by (metis dividend_less_div_times mult.commute mult_Suc add.commute)
  ultimately show ?thesis by simp
qed

definition covered :: "transfer \<Rightarrow> (nat \<times> nat) list" where
  "covered t = all_moves (t_stores t)"

lemma phase_covers:
  assumes "unat la mod 4 = 0" "unat ra mod 4 = 0" "unat la + 4 * unat x \<le> 2 ^ 48" "unat ra + 4 * unat x \<le> 2 ^ 48"
    and "0 < unat lim" "unat lim \<le> 2 ^ 19" "unat x < 2 ^ 30" "4 * unat x \<le> unat (t_length t)"
    and "plain_stores opr (t_stores t)"
  shows "\<exists>la' ra' t'. phase base opr x lim (la, ra, t) = (la', ra', t') \<and>
    unat la' = unat la + 4 * unat x \<and> unat ra' = unat ra + 4 * unat x \<and>
    covered t' = covered t @ span (unat la) (unat ra) (unat x) \<and>
    unat (t_length t') = unat (t_length t) - 4 * unat x \<and>
    t_local t' = t_local t + int (4 * unat x) \<and> t_remote t' = t_remote t + int (4 * unat x) \<and>
    plain_stores opr (t_stores t')"
proof (cases "x = 0")
  case True
  then show ?thesis using assms(9) by (simp add: phase_def)
next
  case False
  have "unat x + unat lim < 2 ^ 32" using assms(6,7) by simp
  then have n: "unat x \<le> div_round_up x lim * unat lim" using assms(5) by (rule div_round_up_enough)
  obtain st la' ra' where s: "setup_btces base opr 0 (div_round_up x lim) x lim la ra = (st, la', ra')"
    by (metis prod_cases3)
  have c: "all_moves st = span (unat la) (unat ra) (unat x)" "unat la' = unat la + 4 * unat x"
    "unat ra' = unat ra + 4 * unat x" "plain_stores opr st"
    using setup_covers [OF assms(1-6) n, where base = base and opr = opr and i = 0] by (simp_all add: s)
  have x: "unat (ucast (push_bit 2 x) :: u64) = 4 * unat x" using assms(7) by (rule unat_shift2_64)
  have "unat (t_length t - ucast (push_bit 2 x)) = unat (t_length t) - 4 * unat x"
    using assms(8) x by (simp add: unat_sub word_le_nat_alt)
  moreover have "uint (push_bit 2 x) = int (4 * unat x)"
    using unat_shift2 [OF assms(7)] by (metis uint_nat)
  ultimately show ?thesis
    using False c assms(9)
    by (simp add: phase_def s update_length_offset_def covered_def plain_stores_def) blast
qed

text \<open>What a phase does to the list of stores when nothing is known of the length that is left.\<close>

lemma phase_appends: "\<exists>la' ra' t' st. phase base opr x lim (la, ra, t) = (la', ra', t') \<and> covered t' = covered t @ st"
  by (cases "setup_btces base opr 0 (div_round_up x lim) x lim la ra")
    (auto simp: phase_def covered_def update_length_offset_def)

lemma phase_moves:
  assumes "unat la mod 4 = 0" "unat ra mod 4 = 0" "unat la + 4 * unat x \<le> 2 ^ 48" "unat ra + 4 * unat x \<le> 2 ^ 48"
    and "0 < unat lim" "unat lim \<le> 2 ^ 19" "unat x < 2 ^ 30"
  shows "\<exists>la' ra' t'. phase base opr x lim (la, ra, t) = (la', ra', t') \<and>
    covered t' = covered t @ span (unat la) (unat ra) (unat x)"
proof (cases "x = 0")
  case False
  have "unat x + unat lim < 2 ^ 32" using assms(6,7) by simp
  then have n: "unat x \<le> div_round_up x lim * unat lim" using assms(5) by (rule div_round_up_enough)
  show ?thesis
    using setup_covers [OF assms(1-6) n, where base = base and opr = opr and i = 0] False
    by (auto simp: phase_def covered_def update_length_offset_def split: prod.splits)
qed (simp add: phase_def)

section \<open>One turn and the whole loop\<close>

lemma unat_low_bits: "unat (a AND 0x3f :: u64) = unat a mod 64" "unat (b AND 0xf :: u32) = unat b mod 16"
proof -
  have "a AND 0x3f = take_bit 6 a" by (simp add: take_bit_eq_mask mask_eq_exp_minus_1)
  then show "unat (a AND 0x3f) = unat a mod 64" by (simp add: take_bit_eq_mod unat_mod_distrib)
  have "b AND 0xf = take_bit 4 b" by (simp add: take_bit_eq_mask mask_eq_exp_minus_1)
  then show "unat (b AND 0xf) = unat b mod 16" by (simp add: take_bit_eq_mod unat_mod_distrib)
qed

lemma mod_64_4: "(x :: nat) mod 64 mod 4 = x mod 4"
  by (rule mod_mod_cancel) simp

lemma mod_4096_64: "(x :: nat) mod 4096 mod 64 = x mod 64"
  by (rule mod_mod_cancel) simp

text \<open>What is left of a 64-byte block.\<close>

lemma up_to_boundary:
  fixes n c :: nat
  assumes "(n + c) mod 64 = 0" "n mod 64 \<noteq> 0"
  shows "64 - n mod 64 \<le> c"
proof (rule ccontr)
  assume "\<not> 64 - n mod 64 \<le> c"
  then have "(n mod 64 + c) mod 64 = n mod 64 + c" by simp
  with assms show False by (metis add_is_0 mod_add_left_eq)
qed

lemma unat_dwords: "unat (a :: u64) < 2 ^ 32 \<Longrightarrow> unat (ucast (drop_bit 2 a) :: u32) = unat a div 4"
  by (simp add: unsigned_ucast_eq drop_bit_eq_div unat_div_distrib take_bit_nat_eq_self)

text \<open>The number of double words before the next 64-byte boundary, as the code computes it.\<close>

definition head_of :: "u64 \<Rightarrow> u32" where
  "head_of la = (let head = (ucast (drop_bit 2 (la AND 0x3f)) :: u32) in if head \<noteq> 0 then 0x10 - head else 0)"

lemma unat_head_of:
  assumes "unat la mod 4 = 0"
  shows "4 * unat (head_of la) = (if unat la mod 64 = 0 then 0 else 64 - unat la mod 64)"
proof -
  define x where "x = unat la mod 64"
  have x: "x < 64" "x mod 4 = 0" using assms by (simp_all add: x_def mod_64_4)
  have lt: "unat (la AND 0x3f) < 2 ^ 32" unfolding unat_low_bits x_def [symmetric] using x(1) by simp
  have h: "unat (ucast (drop_bit 2 (la AND 0x3f)) :: u32) = x div 4"
    unfolding unat_dwords [OF lt] by (simp only: unat_low_bits x_def)
  define hd where "hd = (ucast (drop_bit 2 (la AND 0x3f)) :: u32)"
  have h: "unat hd = x div 4" unfolding hd_def by (rule h)
  have d: "head_of la = (if hd \<noteq> 0 then 0x10 - hd else 0)" by (simp add: head_of_def Let_def hd_def)
  show ?thesis
  proof (cases "x = 0")
    case True
    with h have "hd = 0" by (simp add: unat_eq_zero)
    with True show ?thesis by (simp add: d x_def)
  next
    case False
    with x have xs: "x div 4 \<noteq> 0" "x div 4 < 16" "4 * (16 - x div 4) = 64 - x" by presburger+
    then have "hd \<noteq> 0" using h by auto
    moreover have "unat (0x10 - hd) = 16 - x div 4"
      using xs(2) h by (subst unat_sub) (simp_all add: word_le_nat_alt)
    ultimately show ?thesis using False xs(3) unfolding x_def [symmetric] by (simp add: d)
  qed
qed

text \<open>\<open>xfer_at lr rr L lo ro t\<close>: \<open>L\<close> bytes are left to transfer, from local offset \<open>lo\<close> to remote offset \<open>ro\<close>.\<close>

definition xfer_at :: "ncbte_region \<Rightarrow> ncbte_region \<Rightarrow> nat \<Rightarrow> nat \<Rightarrow> nat \<Rightarrow> transfer \<Rightarrow> bool" where
  "xfer_at l r L lo ro t \<longleftrightarrow>
     pages_ok (phys_addr (mem l)) \<and> pages_ok (phys_addr (mem r)) \<and>
     t_local t = int lo \<and> t_remote t = int ro \<and> unat (t_length t) = L \<and>
     L < 2 ^ 32 \<and> L mod 4 = 0 \<and> lo mod 4 = 0 \<and> lo mod 64 = ro mod 64 \<and>
     lo + L \<le> 4096 * nr_pages l \<and> ro + L \<le> 4096 * nr_pages r \<and>
     (lo mod 64 = 0 \<or> 64 - lo mod 64 \<le> L)"

lemma xfer_atD:
  assumes "xfer_at l r L lo ro t"
  shows "pages_ok (phys_addr (mem l))" "pages_ok (phys_addr (mem r))" "t_local t = int lo" "t_remote t = int ro"
    "unat (t_length t) = L" "L < 2 ^ 32" "L mod 4 = 0" "lo mod 4 = 0" "lo mod 64 = ro mod 64"
    "lo + L \<le> 4096 * nr_pages l" "ro + L \<le> 4096 * nr_pages r" "lo mod 64 = 0 \<or> 64 - lo mod 64 \<le> L"
  using assms by (auto simp: xfer_at_def)

lemma paddr_mod:
  assumes "pages_ok ps" "o' < 4096 * length ps"
  shows "paddr ps o' mod 64 = o' mod 64" "paddr ps o' mod 4 = o' mod 4"
proof -
  have "ps ! (o' div 4096) \<in> set ps" using assms(2) by (simp add: less_mult_imp_div_less)
  then have "unat (ps ! (o' div 4096)) mod 4096 = 0" using assms(1) by (simp add: pages_ok_def)
  then obtain q where "unat (ps ! (o' div 4096)) = 4096 * q" by (metis mod_0_imp_dvd dvd_def)
  then have e: "paddr ps o' = 64 * (64 * q) + o' mod 4096" by (simp add: paddr_def)
  have "paddr ps o' mod 64 = o' mod 4096 mod 64" unfolding e by (rule mod_mult_self4)
  then show m: "paddr ps o' mod 64 = o' mod 64" by (simp add: mod_mod_cancel)
  show "paddr ps o' mod 4 = o' mod 4"
    using m mod_64_4 [of "paddr ps o'"] mod_64_4 [of o'] by simp
qed

lemma turn_covers:
  assumes "xfer_at l r L lo ro t" "0 < L" "plain_stores opr (t_stores t)"
  shows "\<exists>t' s. transfer_turn base (Some l) (Some r) opr t = Some t' \<and>
    0 < s \<and> s \<le> L \<and> s mod 4 = 0 \<and> (L = s \<or> (lo + s) mod 64 = 0) \<and>
    t_local t' = int (lo + s) \<and> t_remote t' = int (ro + s) \<and> unat (t_length t') = L - s \<and>
    covered t' = covered t @ span (paddr (phys_addr (mem l)) lo) (paddr (phys_addr (mem r)) ro) (s div 4) \<and>
    (\<forall>j < s. paddr (phys_addr (mem l)) (lo + j) = paddr (phys_addr (mem l)) lo + j) \<and>
    (\<forall>j < s. paddr (phys_addr (mem r)) (ro + j) = paddr (phys_addr (mem r)) ro + j) \<and>
    plain_stores opr (t_stores t')"
proof -
  note at = xfer_atD [OF assms(1)]
  have b: "lo < 4096 * nr_pages l" "ro < 4096 * nr_pages r" using at(10,11) assms(2) by linarith+
  have r4: "ro mod 4 = 0" using at(8,9) mod_64_4 [of lo] mod_64_4 [of ro] by simp
  obtain a c where a: "get_region_phys_addr (Some l) (int lo) = (a, c)"
    "unat a = paddr (phys_addr (mem l)) lo" "0 < unat c" "(lo + unat c) mod 4096 = 0"
    "lo + unat c \<le> 4096 * nr_pages l"
    "\<forall>j < unat c. paddr (phys_addr (mem l)) (lo + j) = paddr (phys_addr (mem l)) lo + j"
    "paddr (phys_addr (mem l)) lo + unat c \<le> 2 ^ 48"
    by (rule get_phys_spec [OF at(1) b(1) at(8)]) (rule that)
  obtain d e where d: "get_region_phys_addr (Some r) (int ro) = (d, e)"
    "unat d = paddr (phys_addr (mem r)) ro" "0 < unat e" "(ro + unat e) mod 4096 = 0"
    "ro + unat e \<le> 4096 * nr_pages r"
    "\<forall>j < unat e. paddr (phys_addr (mem r)) (ro + j) = paddr (phys_addr (mem r)) ro + j"
    "paddr (phys_addr (mem r)) ro + unat e \<le> 2 ^ 48"
    by (rule get_phys_spec [OF at(2) b(2) r4]) (rule that)
  define m where "m = (if c < e then c else e)"
  define sw where "sw = (if m < t_length t then m else t_length t)"
  define s where "s = unat sw"
  have s: "0 < s" "s \<le> L" "s \<le> unat c" "s \<le> unat e" "s = L \<or> s = unat c \<or> s = unat e"
    using a(3) d(3) assms(2) at(5) by (auto simp: s_def sw_def m_def word_less_nat_alt)
  have c64: "(lo + unat c) mod 64 = 0" "(ro + unat e) mod 64 = 0"
    using a(4) d(4) mod_4096_64 [of "lo + unat c"] mod_4096_64 [of "ro + unat e"] by simp_all
  then have e64: "(lo + unat e) mod 64 = 0" using at(9) by (metis mod_add_left_eq)
  have nxt: "L = s \<or> (lo + s) mod 64 = 0" using s(5) c64(1) e64 by auto
  have hs: "lo mod 64 \<noteq> 0 \<Longrightarrow> 64 - lo mod 64 \<le> s"
    using s(5) at(12) up_to_boundary [OF c64(1)] up_to_boundary [OF e64] by auto
  have "(lo + s) mod 4 = s mod 4" using at(8) by presburger
  then have s4: "s mod 4 = 0" using nxt at(7) mod_64_4 [of "lo + s"] by auto
  have bounds: "unat a + s \<le> 2 ^ 48" "unat d + s \<le> 2 ^ 48" using a(2,7) d(2,7) s(3,4) by linarith+
  have s32: "s < 2 ^ 32" using s(2) at(6) by linarith
  have am: "unat a mod 64 = lo mod 64" "unat a mod 4 = 0" and dm: "unat d mod 4 = 0"
    using paddr_mod [OF at(1), of lo] paddr_mod [OF at(2), of ro] b at(8) r4
    by (simp_all add: a(2) d(2) nr_pages_def)
  define x1 where "x1 = head_of a"
  have x1: "4 * unat x1 = (if lo mod 64 = 0 then 0 else 64 - lo mod 64)"
    using unat_head_of [OF am(2)] by (simp add: x1_def am(1))
  then have x1s: "4 * unat x1 \<le> s" using hs by auto
  define bulk0 where "bulk0 = (ucast (drop_bit 2 sw) :: u32)"
  have bulk0: "unat bulk0 = s div 4" using s32 by (simp add: bulk0_def s_def unat_dwords del: drop_bit_eq_div)
  define bulk1 where "bulk1 = bulk0 - x1"
  have bulk1: "unat bulk1 = s div 4 - unat x1"
    using x1s bulk0 by (simp add: bulk1_def unat_sub word_le_nat_alt)
  define x3 where "x3 = bulk1 AND 0xf"
  define x2 where "x2 = bulk1 - x3"
  have x3: "unat x3 = unat bulk1 mod 16" by (simp add: x3_def unat_low_bits)
  have x2: "unat x2 = unat bulk1 - unat x3"
    using x3 by (simp add: x2_def unat_sub word_le_nat_alt)
  have sum: "unat x1 + (unat x2 + unat x3) = s div 4" "4 * (s div 4) = s"
    using x1s bulk1 x2 x3 s4 by auto
  have small: "unat x1 < 2 ^ 30" "unat x2 < 2 ^ 30" "unat x3 < 2 ^ 30"
    using sum s32 by auto
  have sum4: "4 * unat x1 + (4 * unat x2 + 4 * unat x3) = s" using sum by linarith
  have lim: "0 < unat (4 :: u32)" "unat (4 :: u32) \<le> 2 ^ 19" "0 < unat max_btce_dwords" "unat max_btce_dwords \<le> 2 ^ 19"
    by (simp_all add: max_btce_dwords_def)
  have "unat a + 4 * unat x1 \<le> 2 ^ 48" "unat d + 4 * unat x1 \<le> 2 ^ 48" "4 * unat x1 \<le> unat (t_length t)"
    using bounds sum4 s(2) at(5) by linarith+
  from phase_covers [OF am(2) dm this(1,2) lim(1,2) small(1) this(3) assms(3), of base]
  obtain la1 ra1 t1 where p1: "phase base opr x1 4 (a, d, t) = (la1, ra1, t1)"
    "unat la1 = unat a + 4 * unat x1" "unat ra1 = unat d + 4 * unat x1"
    "covered t1 = covered t @ span (unat a) (unat d) (unat x1)" "unat (t_length t1) = L - 4 * unat x1"
    "t_local t1 = int (lo + 4 * unat x1)" "t_remote t1 = int (ro + 4 * unat x1)" "plain_stores opr (t_stores t1)"
    by (auto simp: at(3,4,5))
  have m1: "unat la1 mod 4 = 0" "unat ra1 mod 4 = 0" using am(2) dm by (simp_all add: p1(2,3))
  have "unat la1 + 4 * unat x2 \<le> 2 ^ 48" "unat ra1 + 4 * unat x2 \<le> 2 ^ 48" "4 * unat x2 \<le> unat (t_length t1)"
    using bounds sum4 s(2) p1(2,3,5) by linarith+
  from phase_covers [OF m1 this(1,2) lim(3,4) small(2) this(3) p1(8), of base]
  obtain la2 ra2 t2 where p2: "phase base opr x2 max_btce_dwords (la1, ra1, t1) = (la2, ra2, t2)"
    "unat la2 = unat la1 + 4 * unat x2" "unat ra2 = unat ra1 + 4 * unat x2"
    "covered t2 = covered t1 @ span (unat la1) (unat ra1) (unat x2)"
    "unat (t_length t2) = L - 4 * unat x1 - 4 * unat x2"
    "t_local t2 = int (lo + 4 * unat x1 + 4 * unat x2)" "t_remote t2 = int (ro + 4 * unat x1 + 4 * unat x2)"
    "plain_stores opr (t_stores t2)"
    by (auto simp: p1(5,6,7))
  have m2: "unat la2 mod 4 = 0" "unat ra2 mod 4 = 0" using m1 by (simp_all add: p2(2,3))
  have "unat la2 + 4 * unat x3 \<le> 2 ^ 48" "unat ra2 + 4 * unat x3 \<le> 2 ^ 48" "4 * unat x3 \<le> unat (t_length t2)"
    using bounds sum4 s(2) p1(2,3) p2(2,3,5) by linarith+
  from phase_covers [OF m2 this(1,2) lim(1,2) small(3) this(3) p2(8), of base]
  obtain la3 ra3 t3 where p3: "phase base opr x3 4 (la2, ra2, t2) = (la3, ra3, t3)"
    "covered t3 = covered t2 @ span (unat la2) (unat ra2) (unat x3)"
    "unat (t_length t3) = L - 4 * unat x1 - 4 * unat x2 - 4 * unat x3"
    "t_local t3 = int (lo + 4 * unat x1 + 4 * unat x2 + 4 * unat x3)"
    "t_remote t3 = int (ro + 4 * unat x1 + 4 * unat x2 + 4 * unat x3)" "plain_stores opr (t_stores t3)"
    by (auto simp: p2(5,6,7))
  have nz: "c \<noteq> 0" "e \<noteq> 0" using a(3) d(3) by auto
  have "transfer_turn base (Some l) (Some r) opr t =
      Some (snd (snd (phase base opr x3 4 (phase base opr x2 max_btce_dwords (phase base opr x1 4 (a, d, t))))))"
    unfolding transfer_turn_def at(3,4) a(1) d(1) x3_def x2_def bulk1_def bulk0_def sw_def m_def x1_def
      head_of_def using nz by (simp only: prod.case if_False Let_def disj_not1 simp_thms)
  then have turn: "transfer_turn base (Some l) (Some r) opr t = Some t3"
    by (simp add: p1(1) p2(1) p3(1))
  have cov: "covered t3 = covered t @ span (unat a) (unat d) (s div 4)"
    unfolding p3(2) p2(4) p1(4) sum(1) [symmetric] span_append p1(2,3) p2(2,3)
    by (simp add: add.assoc)
  have adv: "lo + 4 * unat x1 + 4 * unat x2 + 4 * unat x3 = lo + s"
    "ro + 4 * unat x1 + 4 * unat x2 + 4 * unat x3 = ro + s"
    "L - 4 * unat x1 - 4 * unat x2 - 4 * unat x3 = L - s"
    using sum4 by linarith+
  have c': "\<forall>j < s. paddr (phys_addr (mem l)) (lo + j) = paddr (phys_addr (mem l)) lo + j"
    "\<forall>j < s. paddr (phys_addr (mem r)) (ro + j) = paddr (phys_addr (mem r)) ro + j"
    using a(6) d(6) s(3,4) by auto
  show ?thesis
    using turn s(1,2) s4 nxt p3(3,4,5) cov c' p3(6)
    unfolding adv a(2) d(2) by (intro exI [of _ t3] exI [of _ s] conjI)
qed

text \<open>The whole transfer: the pairs of addresses the caller asked for, in order.\<close>

definition wanted :: "ncbte_region \<Rightarrow> ncbte_region \<Rightarrow> nat \<Rightarrow> nat \<Rightarrow> nat \<Rightarrow> (nat \<times> nat) list" where
  "wanted l r lo ro L =
     map (\<lambda>k. (paddr (phys_addr (mem l)) (lo + 4 * k), paddr (phys_addr (mem r)) (ro + 4 * k))) [0..<L div 4]"

lemma div_4_split:
  assumes "s mod 4 = 0" "s \<le> L" "L mod 4 = (0 :: nat)"
  shows "L div 4 = s div 4 + (L - s) div 4" "4 * (s div 4) = s" "(L - s) mod 4 = 0"
proof -
  from assms(1,3) obtain p q where "s = 4 * p" "L = 4 * q" by (metis mod_0_imp_dvd dvd_def)
  with assms(2) show "L div 4 = s div 4 + (L - s) div 4" "4 * (s div 4) = s" "(L - s) mod 4 = 0"
    by (simp_all add: right_diff_distrib' [symmetric])
qed

lemma wanted_split:
  assumes "s mod 4 = 0" "s \<le> L" "L mod 4 = 0"
    and "\<forall>j < s. paddr (phys_addr (mem l)) (lo + j) = paddr (phys_addr (mem l)) lo + j"
    and "\<forall>j < s. paddr (phys_addr (mem r)) (ro + j) = paddr (phys_addr (mem r)) ro + j"
  shows "wanted l r lo ro L =
    span (paddr (phys_addr (mem l)) lo) (paddr (phys_addr (mem r)) ro) (s div 4) @ wanted l r (lo + s) (ro + s) (L - s)"
proof -
  note d = div_4_split(1,2) [OF assms(1-3)]
  have "[0..<L div 4] = [0..<s div 4] @ map (\<lambda>k. k + s div 4) [0..<(L - s) div 4]"
    unfolding d(1) by (simp add: upt_add_eq_append [of 0] map_add_upt add.commute)
  moreover have "4 * k < s" if "k < s div 4" for k using that by linarith
  then have "\<forall>k < s div 4. paddr (phys_addr (mem l)) (lo + 4 * k) = paddr (phys_addr (mem l)) lo + 4 * k"
    "\<forall>k < s div 4. paddr (phys_addr (mem r)) (ro + 4 * k) = paddr (phys_addr (mem r)) ro + 4 * k"
    using assms(4,5) by blast+
  moreover have "x + 4 * (k + s div 4) = x + s + 4 * k" for x k using d(2) by simp
  ultimately show ?thesis
    unfolding wanted_def span_def by (simp only: map_append map_map o_def) simp
qed

lemma loop_covers:
  assumes "xfer_at l r L lo ro t" "0 < L" "plain_stores opr (t_stores t)" "L div 4 \<le> fuel"
  shows "\<exists>t'. transfer_loop fuel base (Some l) (Some r) opr t = Some (Inr t') \<and>
    covered t' = covered t @ wanted l r lo ro L \<and> plain_stores opr (t_stores t')"
  using assms
proof (induction fuel arbitrary: L lo ro t)
  case 0
  then have "L mod 4 = 0" by (rule_tac xfer_atD(7))
  with 0 show ?case by presburger
next
  case (Suc fuel)
  note at = xfer_atD [OF Suc.prems(1)]
  from turn_covers [OF Suc.prems(1-3), of base] obtain t1 s where
    t1: "transfer_turn base (Some l) (Some r) opr t = Some t1" "0 < s" "s \<le> L" "s mod 4 = 0"
      "L = s \<or> (lo + s) mod 64 = 0" "t_local t1 = int (lo + s)" "t_remote t1 = int (ro + s)"
      "unat (t_length t1) = L - s"
      "covered t1 = covered t @ span (paddr (phys_addr (mem l)) lo) (paddr (phys_addr (mem r)) ro) (s div 4)"
      "\<forall>j < s. paddr (phys_addr (mem l)) (lo + j) = paddr (phys_addr (mem l)) lo + j"
      "\<forall>j < s. paddr (phys_addr (mem r)) (ro + j) = paddr (phys_addr (mem r)) ro + j"
      "plain_stores opr (t_stores t1)" by (elim exE conjE) (rule that)
  note w = wanted_split [OF t1(4,3) at(7) t1(10,11)] and d4 = div_4_split [OF t1(4,3) at(7)]
  show ?case
  proof (cases "L = s")
    case True
    then have "t_length t1 = 0" using t1(8) by (simp add: unat_eq_zero)
    moreover have "wanted l r (lo + s) (ro + s) 0 = []" by (simp add: wanted_def)
    ultimately show ?thesis using t1(1,9,12) w True by simp
  next
    case False
    with t1(3) have pos: "0 < L - s" by simp
    then have len: "t_length t1 > 0" using t1(8) by (simp add: word_gt_0 unat_gt_0 [symmetric])
    have nxt: "(lo + s) mod 64 = 0" using t1(5) False by simp
    moreover have "(lo + s) mod 64 = (ro + s) mod 64" using at(9) by (metis mod_add_left_eq)
    ultimately have "xfer_at l r (L - s) (lo + s) (ro + s) t1"
      using at t1(3,4,6,7,8) mod_64_4 [of "lo + s"] d4(3) by (auto simp: xfer_at_def)
    moreover have "0 < s div 4" using t1(2) d4(2) by (cases "s div 4") auto
    then have "(L - s) div 4 \<le> fuel" using Suc.prems(4) d4(1) by linarith
    ultimately
    obtain t' where "transfer_loop fuel base (Some l) (Some r) opr t1 = Some (Inr t')"
      "covered t' = covered t1 @ wanted l r (lo + s) (ro + s) (L - s)" "plain_stores opr (t_stores t')"
      using Suc.IH [OF _ pos t1(12)] by blast
    then show ?thesis using t1(1,9) w len by simp
  qed
qed

section \<open>Properties\<close>

lemma guard_nat:
  assumes "copy_guard l (int lo) r (int ro) len" "lo + unat len < 2 ^ 63" "ro + unat len < 2 ^ 63"
    and "unat (size (mem l)) \<le> 4096 * nr_pages l" "unat (size (mem r)) \<le> 4096 * nr_pages r"
  shows "lo + unat len \<le> 4096 * nr_pages l" "ro + unat len \<le> 4096 * nr_pages r"
    "lo mod 64 = ro mod 64" "lo mod 4 = 0" "unat len mod 4 = 0"
proof -
  have add: "unat (of_int (int k) + len :: u64) = k + unat len" if "k + unat len < 2 ^ 63" for k
  proof -
    have "unat (len + of_nat k) = unat len + k" using that by (intro unat_add_of_nat) simp
    then show ?thesis by (simp add: add.commute)
  qed
  have g: "in_region l (int lo) len" "in_region r (int ro) len" "int lo mod 64 = int ro mod 64" "int lo mod 4 = 0"
    "len AND 3 = 0"
    using assms(1) by (simp_all only: copy_guard_def simp_thms)
  have "lo + unat len \<le> unat (size (mem l))" "ro + unat len \<le> unat (size (mem r))"
    using g(1,2) unfolding in_region_def not_less word_le_nat_alt add [OF assms(2)] add [OF assms(3)] .
  then show "lo + unat len \<le> 4096 * nr_pages l" "ro + unat len \<le> 4096 * nr_pages r"
    using assms(4,5) by linarith+
  have "int (lo mod 64) = int (ro mod 64)" "int (lo mod 4) = 0"
    using g(3,4) by (simp_all add: zmod_int)
  then show "lo mod 64 = ro mod 64" "lo mod 4 = 0" by simp_all
  have "len AND 3 = take_bit 2 len" by (simp add: take_bit_eq_mask mask_eq_exp_minus_1)
  then have "take_bit 2 len = 0" using g(5) by simp
  then have "unat (take_bit 2 len) = 0" by simp
  then show "unat len mod 4 = 0" by (simp add: take_bit_eq_mod unat_mod_distrib)
qed

lemma transfer_exact:
  assumes "copy_guard l (int lo) r (int ro) len" "0 < unat len" "unat len < 2 ^ 32" "lo < 2 ^ 62" "ro < 2 ^ 62"
    and "unat (size (mem l)) \<le> 4096 * nr_pages l" "unat (size (mem r)) \<le> 4096 * nr_pages r"
    and "pages_ok (phys_addr (mem l))" "pages_ok (phys_addr (mem r))"
    and "lo mod 64 = 0 \<or> 64 - lo mod 64 \<le> unat len" "unat len div 4 \<le> fuel"
  shows "\<exists>st. ncbte_transfer_region fuel io (Some l) (int lo) (Some r) (int ro) len opr completion =
      Some (0, st @ (case completion of None \<Rightarrow> []
                    | Some c \<Rightarrow> [(io + push_bit 12 (of_int (queue_num c)), fence_btce (fence_paddr c))])) \<and>
    all_moves st = wanted l r lo ro (unat len) \<and> plain_stores opr st"
proof -
  have "lo + unat len < 2 ^ 63" "ro + unat len < 2 ^ 63" using assms(3,4,5) by simp_all
  note g = guard_nat [OF assms(1) this assms(6,7)]
  let ?t = "\<lparr>t_length = len, t_local = int lo, t_remote = int ro, t_stores = []\<rparr>"
  have "xfer_at l r (unat len) lo ro ?t" using g assms(3,8,9,10) by (simp add: xfer_at_def)
  from loop_covers [OF this assms(2) _ assms(11), of opr
      "io + (case completion of None \<Rightarrow> 0 | Some c \<Rightarrow> push_bit 12 (of_int (queue_num c)))"]
  show ?thesis
    by (auto simp: ncbte_transfer_region_def plain_stores_def covered_def all_moves_def Let_def split: option.splits)
qed

text \<open>
  C1: a write or a read that passes the guards, is shorter than 4 GB and reaches the next
  64-byte boundary (or starts on one) returns 0, and the descriptors it queues move exactly
  the double words of the two ranges, each once and in order, from the physical pages of the
  local region to those of the remote one (or back), however the pages lie in memory;
  \<open>length / 4\<close> turns of the loop are enough. The fence comes last when a completion is given.
\<close>

theorem transfers_are_exact:
  assumes "copy_guard l (int lo) r (int ro) len" "0 < unat len" "unat len < 2 ^ 32" "lo < 2 ^ 62" "ro < 2 ^ 62"
    and "unat (size (mem l)) \<le> 4096 * nr_pages l" "unat (size (mem r)) \<le> 4096 * nr_pages r"
    and "pages_ok (phys_addr (mem l))" "pages_ok (phys_addr (mem r))"
    and "lo mod 64 = 0 \<or> 64 - lo mod 64 \<le> unat len" "unat len div 4 \<le> fuel"
  shows "\<exists>w rd.
    ncbte_write_region fuel io (Some l) (int lo) (Some r) (int ro) len (Some c) =
      Some (0, w @ [(io + push_bit 12 (of_int (queue_num c)), fence_btce (fence_paddr c))]) \<and>
    all_moves w = wanted l r lo ro (unat len) \<and> plain_stores REM_WRITE w \<and>
    ncbte_read_region fuel io (Some l) (int lo) (Some r) (int ro) len None = Some (0, rd) \<and>
    all_moves rd = wanted l r lo ro (unat len) \<and> plain_stores REM_READ rd"
  using transfer_exact [OF assms, of io REM_WRITE "Some c"] transfer_exact [OF assms, of io REM_READ None] assms(1)
  by (simp add: ncbte_write_region_def ncbte_read_region_def)

text \<open>Two pages of a local and a remote region, the remote ones not contiguous.\<close>

definition demo_local :: ncbte_region where
  "demo_local = \<lparr>mem = \<lparr>addr = 0x7f0000000000, size = 8192, phys_addr = [0x100000, 0x101000]\<rparr>, bmp = {0}, allocated = True\<rparr>"

definition demo_remote :: ncbte_region where
  "demo_remote = \<lparr>mem = \<lparr>addr = 0x7f0000100000, size = 8192, phys_addr = [0x900000, 0x500000]\<rparr>, bmp = {0}, allocated = True\<rparr>"

theorem transfers_are_exact_witness:
  "\<exists>w. ncbte_read_region 40 0x10000 (Some demo_local) 4060 (Some demo_remote) 4060 160 None = Some (0, w) \<and>
    all_moves w = wanted demo_local demo_remote 4060 4060 160"
proof -
  have g: "copy_guard demo_local (int 4060) demo_remote (int 4060) 160"
    by (simp add: copy_guard_def in_region_def demo_local_def demo_remote_def word_less_nat_alt)
  have p: "pages_ok (phys_addr (mem demo_local))" "pages_ok (phys_addr (mem demo_remote))"
    by (simp_all add: pages_ok_def demo_local_def demo_remote_def)
  have s: "unat (size (mem demo_local)) \<le> 4096 * nr_pages demo_local"
    "unat (size (mem demo_remote)) \<le> 4096 * nr_pages demo_remote"
    by (simp_all add: nr_pages_def demo_local_def demo_remote_def)
  from transfers_are_exact [OF g _ _ _ _ s p, of 40 "0x10000"] show ?thesis by auto
qed

text \<open>
  A transfer that ends before the next 64-byte boundary is not refused but overruns its
  range: the code subtracts the head from a smaller count, and the first descriptors it queues
  move all the double words up to the boundary, more than the \<open>L\<close> bytes that were asked for.
\<close>

theorem short_transfer_overruns:
  assumes "pages_ok (phys_addr (mem l))" "pages_ok (phys_addr (mem r))" "lo mod 4 = 0" "lo mod 64 = ro mod 64"
    and "lo < 4096 * nr_pages l" "ro < 4096 * nr_pages r" "L < 64 - lo mod 64" "lo mod 64 \<noteq> 0"
    and "t_local t = int lo" "t_remote t = int ro" "unat (t_length t) = L"
  shows "\<exists>t' rest. transfer_turn base (Some l) (Some r) opr t = Some t' \<and>
    covered t' = covered t @ span (paddr (phys_addr (mem l)) lo) (paddr (phys_addr (mem r)) ro)
      ((64 - lo mod 64) div 4) @ rest \<and> L < 4 * ((64 - lo mod 64) div 4)"
proof -
  have r4: "ro mod 4 = 0" using assms(3,4) mod_64_4 [of lo] mod_64_4 [of ro] by simp
  obtain a c where a: "get_region_phys_addr (Some l) (int lo) = (a, c)"
    "unat a = paddr (phys_addr (mem l)) lo" "0 < unat c" "(lo + unat c) mod 4096 = 0"
    "lo + unat c \<le> 4096 * nr_pages l"
    "\<forall>j < unat c. paddr (phys_addr (mem l)) (lo + j) = paddr (phys_addr (mem l)) lo + j"
    "paddr (phys_addr (mem l)) lo + unat c \<le> 2 ^ 48"
    by (rule get_phys_spec [OF assms(1,5,3)]) (rule that)
  obtain d e where d: "get_region_phys_addr (Some r) (int ro) = (d, e)"
    "unat d = paddr (phys_addr (mem r)) ro" "0 < unat e" "(ro + unat e) mod 4096 = 0"
    "ro + unat e \<le> 4096 * nr_pages r"
    "\<forall>j < unat e. paddr (phys_addr (mem r)) (ro + j) = paddr (phys_addr (mem r)) ro + j"
    "paddr (phys_addr (mem r)) ro + unat e \<le> 2 ^ 48"
    by (rule get_phys_spec [OF assms(2,6) r4]) (rule that)
  have am: "unat a mod 64 = lo mod 64" "unat a mod 4 = 0" and dm: "unat d mod 4 = 0"
    using paddr_mod [OF assms(1), of lo] paddr_mod [OF assms(2), of ro] assms(3,5,6) r4
    by (simp_all add: a(2) d(2) nr_pages_def)
  have x1: "4 * unat (head_of a) = 64 - lo mod 64"
    using unat_head_of [OF am(2)] assms(8) by (simp add: am(1))
  have "64 - lo mod 64 \<le> unat c" "64 - ro mod 64 \<le> unat e"
    using up_to_boundary [of lo "unat c"] up_to_boundary [of ro "unat e"] mod_4096_64 [of "lo + unat c"]
      mod_4096_64 [of "ro + unat e"] a(4) d(4) assms(4,8) by simp_all
  then have b: "unat a + 4 * unat (head_of a) \<le> 2 ^ 48" "unat d + 4 * unat (head_of a) \<le> 2 ^ 48"
    using a(2,7) d(2,7) assms(4) unfolding x1 by linarith+
  obtain bulk tail where turn: "transfer_turn base (Some l) (Some r) opr t =
      Some (snd (snd (phase base opr tail 4 (phase base opr bulk max_btce_dwords (phase base opr (head_of a) 4 (a, d, t))))))"
  proof
    have nz: "c \<noteq> 0" "e \<noteq> 0" using a(3) d(3) by auto
    show "transfer_turn base (Some l) (Some r) opr t =
      Some (snd (snd (phase base opr
        ((ucast (drop_bit 2 (if (if c < e then c else e) < t_length t then if c < e then c else e else t_length t)) - head_of a) AND 0xf) 4
        (phase base opr
        (ucast (drop_bit 2 (if (if c < e then c else e) < t_length t then if c < e then c else e else t_length t)) - head_of a -
         ((ucast (drop_bit 2 (if (if c < e then c else e) < t_length t then if c < e then c else e else t_length t)) - head_of a) AND 0xf))
        max_btce_dwords (phase base opr (head_of a) 4 (a, d, t))))))"
      unfolding transfer_turn_def assms(9,10) a(1) d(1) head_of_def
      using nz by (simp only: prod.case if_False Let_def disj_not1 simp_thms)
  qed
  have "4 * unat (head_of a) \<le> 64" unfolding x1 by simp
  then have small: "unat (head_of a) < 2 ^ 30" by simp
  obtain la1 ra1 t1 where p1: "phase base opr (head_of a) 4 (a, d, t) = (la1, ra1, t1)"
    "covered t1 = covered t @ span (unat a) (unat d) (unat (head_of a))"
    using phase_moves [OF am(2) dm b, of 4 base opr t] small by auto
  obtain la2 ra2 t2 s2 where p2: "phase base opr bulk max_btce_dwords (la1, ra1, t1) = (la2, ra2, t2)"
    "covered t2 = covered t1 @ s2"
    using phase_appends [of base opr bulk max_btce_dwords la1 ra1 t1] by blast
  obtain la3 ra3 t3 s3 where p3: "phase base opr tail 4 (la2, ra2, t2) = (la3, ra3, t3)"
    "covered t3 = covered t2 @ s3"
    using phase_appends [of base opr tail 4 la2 ra2 t2] by blast
  have h: "unat (head_of a) = (64 - lo mod 64) div 4" using x1 by linarith
  show ?thesis
  proof (intro exI conjI)
    show "transfer_turn base (Some l) (Some r) opr t = Some t3" by (simp add: turn p1(1) p2(1) p3(1))
    show "covered t3 = covered t @ span (paddr (phys_addr (mem l)) lo) (paddr (phys_addr (mem r)) ro)
        ((64 - lo mod 64) div 4) @ (s2 @ s3)"
      by (simp add: p3(2) p2(2) p1(2) h a(2) d(2))
    show "L < 4 * ((64 - lo mod 64) div 4)" using assms(7) x1 h by linarith
  qed
qed

theorem short_transfer_overruns_witness:
  "\<exists>t' rest. transfer_turn 0x10000 (Some demo_local) (Some demo_remote) REM_WRITE
      \<lparr>t_length = 4, t_local = 4, t_remote = 4, t_stores = []\<rparr> = Some t' \<and>
    covered t' = span 0x100004 0x900004 15 @ rest"
proof -
  have p: "pages_ok (phys_addr (mem demo_local))" "pages_ok (phys_addr (mem demo_remote))"
    by (simp_all add: pages_ok_def demo_local_def demo_remote_def)
  have n: "4 < 4096 * nr_pages demo_local" "4 < 4096 * nr_pages demo_remote"
    by (simp_all add: nr_pages_def demo_local_def demo_remote_def)
  have a: "paddr (phys_addr (mem demo_local)) 4 = 0x100004" "paddr (phys_addr (mem demo_remote)) 4 = 0x900004"
    by (simp_all add: paddr_def demo_local_def demo_remote_def)
  from short_transfer_overruns [OF p _ _ n, of 4 "\<lparr>t_length = 4, t_local = 4, t_remote = 4, t_stores = []\<rparr>" "0x10000" REM_WRITE]
  show ?thesis by (auto simp: a covered_def all_moves_def)
qed

text \<open>
  The guards of \<^verbatim>\<open>ncbte_write_region\<close> and \<^verbatim>\<open>ncbte_read_region\<close> accept a negative offset (the
  sum with the length wraps back into the region), and the address it is translated to lies
  before the first page of the region.
\<close>

theorem negative_offset_accepted:
  assumes "pages_ok (phys_addr (mem l))" "0 < nr_pages l" "0 < n" "n \<le> 4096" "n mod 64 = 0"
    and "4096 \<le> unat (phys_addr (mem l) ! 0)"
  shows "copy_guard l (- int n) l (- int n) (of_nat n) \<and>
    (let (a, c) = get_region_phys_addr (Some l) (- int n)
     in unat a = unat (phys_addr (mem l) ! 0) - n)"
proof
  have "of_nat n AND (3 :: u64) = take_bit 2 (of_nat n)"
    by (simp add: take_bit_eq_mask mask_eq_exp_minus_1)
  also have "\<dots> = of_nat (take_bit 2 n)" by (simp add: take_bit_of_nat)
  also have "take_bit 2 n = 0" using assms(5) mod_64_4 [of n] by (simp add: take_bit_eq_mod)
  finally have l3: "of_nat n AND (3 :: u64) = 0" by simp
  have "64 dvd n" using assms(5) by (simp add: dvd_eq_mod_eq_0)
  then obtain q where "n = 64 * q" by (rule dvdE)
  then have "- int n = 4 * (- (16 * int q))" by simp
  then have m4: "- int n mod 4 = 0" by (simp only: mod_mult_self1_is_0)
  have "in_region l (- int n) (of_nat n)" by (simp add: in_region_def)
  then show "copy_guard l (- int n) l (- int n) (of_nat n)"
    unfolding copy_guard_def using l3 m4 by (intro conjI refl)
next
  have f: "find_page (nr_pages l) 0 (- int n) = (0, - int n)" by (cases "nr_pages l") simp_all
  have "unat (phys_addr (mem l) ! 0 + of_int (- int n)) = unat (phys_addr (mem l) ! 0) - n"
  proof -
    have "unat (of_nat n :: u64) = n" using assms(4) by (simp add: unsigned_of_nat take_bit_nat_eq_self)
    then show ?thesis using assms(4,6) by (simp add: unat_sub word_le_nat_alt)
  qed
  then show "let (a, c) = get_region_phys_addr (Some l) (- int n)
     in unat a = unat (phys_addr (mem l) ! 0) - n"
    using assms(2) by (simp add: get_region_phys_addr_def f Let_def)
qed

theorem negative_offset_accepted_witness: "copy_guard demo_local (- 64) demo_local (- 64) 64"
proof -
  have p: "pages_ok (phys_addr (mem demo_local))" "0 < nr_pages demo_local"
    by (simp_all add: pages_ok_def demo_local_def nr_pages_def)
  have "4096 \<le> unat (phys_addr (mem demo_local) ! 0)" by (simp add: demo_local_def)
  from negative_offset_accepted [OF p, of 64, OF _ _ _ this] show ?thesis by simp
qed

end
