(* ===== verification/BteClear.thy ===== *)
theory BteClear
  imports BteTransfer
begin

text \<open>
  What \<^verbatim>\<open>ncbte_clear_region\<close> of \<open>lib/libncbte.c\<close> queues. A clearing transfer has no local
  region: each turn of the loop starts at local address 0 again and only the remote addresses
  say what is cleared.
\<close>

lemma unat_and_f: "unat (b AND 0xf :: u32) = unat b mod 16"
  by (rule unat_low_bits)

lemma clear_turn:
  assumes pages: "pages_ok (phys_addr (mem r))"
    and t: "t_remote t = int ro" "unat (t_length t) = L" "plain_stores opr (t_stores t)"
    and L: "0 < L" "L < 2 ^ 32" "L mod 4 = 0" "ro mod 4 = 0" "ro + L \<le> 4096 * nr_pages r"
  shows "\<exists>t' s. transfer_turn base None (Some r) opr t = Some t' \<and>
    0 < s \<and> s \<le> L \<and> s mod 4 = 0 \<and> t_remote t' = int (ro + s) \<and> unat (t_length t') = L - s \<and>
    covered t' = covered t @ span 0 (paddr (phys_addr (mem r)) ro) (s div 4) \<and>
    (\<forall>j < s. paddr (phys_addr (mem r)) (ro + j) = paddr (phys_addr (mem r)) ro + j) \<and>
    plain_stores opr (t_stores t')"
proof -
  have b: "ro < 4096 * nr_pages r" using L(1,5) by linarith
  obtain d e where d: "get_region_phys_addr (Some r) (int ro) = (d, e)"
    "unat d = paddr (phys_addr (mem r)) ro" "0 < unat e" "(ro + unat e) mod 4096 = 0"
    "ro + unat e \<le> 4096 * nr_pages r"
    "\<forall>j < unat e. paddr (phys_addr (mem r)) (ro + j) = paddr (phys_addr (mem r)) ro + j"
    "paddr (phys_addr (mem r)) ro + unat e \<le> 2 ^ 48"
    by (rule get_phys_spec [OF pages b L(4)]) (rule that)
  define sw where "sw = (if e < t_length t then e else t_length t)"
  define s where "s = unat sw"
  have s: "0 < s" "s \<le> L" "s \<le> unat e" "s = L \<or> s = unat e"
    using d(3) L(1) t(2) by (auto simp: s_def sw_def word_less_nat_alt)
  have "unat e mod 4 = 0"
  proof -
    have "(ro + unat e) mod 4096 mod 4 = (ro + unat e) mod 4" by (rule mod_mod_cancel) simp
    then have "(ro + unat e) mod 4 = 0" using d(4) by simp
    then show ?thesis using L(4) by presburger
  qed
  then have s4: "s mod 4 = 0" using s(4) L(3) by auto
  have s32: "s < 2 ^ 32" using s(2) L(2) by linarith
  have dm: "unat d mod 4 = 0" using paddr_mod(2) [OF pages, of ro] b L(4) by (simp add: d(2) nr_pages_def)
  have db: "unat d + s \<le> 2 ^ 48" using d(2,7) s(3) by linarith
  define bulk where "bulk = (ucast (drop_bit 2 sw) :: u32)"
  have bulk: "unat bulk = s div 4" using s32 by (simp add: bulk_def s_def unat_dwords del: drop_bit_eq_div)
  define x3 where "x3 = bulk AND 0xf"
  define x2 where "x2 = bulk - x3"
  have x3: "unat x3 = unat bulk mod 16" by (simp add: x3_def unat_and_f)
  have x2: "unat x2 = unat bulk - unat x3" using x3 by (simp add: x2_def unat_sub word_le_nat_alt)
  have sum: "unat x2 + unat x3 = s div 4" "4 * (s div 4) = s" using bulk x2 x3 s4 by auto
  have sum4: "4 * unat x2 + 4 * unat x3 = s" using sum by linarith
  have small: "unat x2 < 2 ^ 30" "unat x3 < 2 ^ 30" using sum s32 by auto
  have lim: "0 < unat (4 :: u32)" "unat (4 :: u32) \<le> 2 ^ 19" "0 < unat max_btce_dwords" "unat max_btce_dwords \<le> 2 ^ 19"
    by (simp_all add: max_btce_dwords_def)
  have z: "unat (0 :: u64) mod 4 = 0" by simp
  have "unat (0 :: u64) + 4 * unat x2 \<le> 2 ^ 48" "unat d + 4 * unat x2 \<le> 2 ^ 48" "4 * unat x2 \<le> unat (t_length t)"
    using db sum4 s(2) s32 t(2) by simp_all
  from phase_covers [OF z dm this(1,2) lim(3,4) small(1) this(3) t(3), of base]
  obtain la2 ra2 t2 where p2: "phase base opr x2 max_btce_dwords (0, d, t) = (la2, ra2, t2)"
    "unat la2 = 4 * unat x2" "unat ra2 = unat d + 4 * unat x2"
    "covered t2 = covered t @ span 0 (unat d) (unat x2)" "unat (t_length t2) = L - 4 * unat x2"
    "t_remote t2 = int (ro + 4 * unat x2)" "plain_stores opr (t_stores t2)"
    by (auto simp: t(1,2))
  have m2: "unat la2 mod 4 = 0" "unat ra2 mod 4 = 0" using dm by (simp_all add: p2(2,3))
  have "unat la2 + 4 * unat x3 \<le> 2 ^ 48" "unat ra2 + 4 * unat x3 \<le> 2 ^ 48" "4 * unat x3 \<le> unat (t_length t2)"
    using db sum4 s(2) s32 p2(2,3,5) by simp_all
  from phase_covers [OF m2 this(1,2) lim(1,2) small(2) this(3) p2(7), of base]
  obtain la3 ra3 t3 where p3: "phase base opr x3 4 (la2, ra2, t2) = (la3, ra3, t3)"
    "covered t3 = covered t2 @ span (unat la2) (unat ra2) (unat x3)"
    "unat (t_length t3) = L - 4 * unat x2 - 4 * unat x3"
    "t_remote t3 = int (ro + 4 * unat x2 + 4 * unat x3)" "plain_stores opr (t_stores t3)"
    by (auto simp: p2(5,6))
  have nz: "e \<noteq> 0" using d(3) by auto
  have max: "\<not> (- 1 :: u64) < e" by (simp add: not_less)
  have none: "get_region_phys_addr None (t_local t) = (0, - 1)" by (simp add: get_region_phys_addr_def)
  have head: "(ucast (drop_bit 2 ((0 :: u64) AND 0x3f)) :: u32) = 0" by simp
  have "transfer_turn base None (Some r) opr t =
      Some (snd (snd (phase base opr x3 4 (phase base opr x2 max_btce_dwords (0, d, t)))))"
    unfolding transfer_turn_def none t(1) d(1) x3_def x2_def bulk_def sw_def
    using nz max by (simp only: prod.case Let_def head) (simp add: phase_def)
  then have turn: "transfer_turn base None (Some r) opr t = Some t3" by (simp add: p2(1) p3(1))
  have cov: "covered t3 = covered t @ span 0 (unat d) (s div 4)"
    unfolding p3(2) p2(4) sum(1) [symmetric] span_append p2(2,3) by simp
  have adv: "ro + 4 * unat x2 + 4 * unat x3 = ro + s" "L - 4 * unat x2 - 4 * unat x3 = L - s"
    using sum4 by linarith+
  have c': "\<forall>j < s. paddr (phys_addr (mem r)) (ro + j) = paddr (phys_addr (mem r)) ro + j"
    using d(6) s(3) by auto
  show ?thesis
    using turn s(1,2) s4 p3(3,4) cov c' p3(5) unfolding adv d(2) by (intro exI [of _ t3] exI [of _ s] conjI)
qed

text \<open>The double words of the remote range, in order.\<close>

definition remote_dwords :: "ncbte_region \<Rightarrow> nat \<Rightarrow> nat \<Rightarrow> nat list" where
  "remote_dwords r ro L = map (\<lambda>k. paddr (phys_addr (mem r)) (ro + 4 * k)) [0..<L div 4]"

lemma remote_dwords_split:
  assumes "s mod 4 = 0" "s \<le> L" "L mod 4 = 0"
    and "\<forall>j < s. paddr (phys_addr (mem r)) (ro + j) = paddr (phys_addr (mem r)) ro + j"
  shows "remote_dwords r ro L =
    map snd (span 0 (paddr (phys_addr (mem r)) ro) (s div 4)) @ remote_dwords r (ro + s) (L - s)"
  using arg_cong [OF wanted_split [OF assms(1-3) assms(4) assms(4)], of "map snd"]
  by (simp add: remote_dwords_def wanted_def span_def o_def)

lemma clear_loop:
  assumes "pages_ok (phys_addr (mem r))" "t_remote t = int ro" "unat (t_length t) = L" "plain_stores opr (t_stores t)"
    and "0 < L" "L < 2 ^ 32" "L mod 4 = 0" "ro mod 4 = 0" "ro + L \<le> 4096 * nr_pages r" "L div 4 \<le> fuel"
  shows "\<exists>t'. transfer_loop fuel base None (Some r) opr t = Some (Inr t') \<and>
    map snd (covered t') = map snd (covered t) @ remote_dwords r ro L \<and> plain_stores opr (t_stores t')"
  using assms
proof (induction fuel arbitrary: L ro t)
  case 0
  then have "0 < L" "L mod 4 = 0" "L div 4 \<le> 0" by (simp_all only:)
  then show ?case by presburger
next
  case (Suc fuel)
  from clear_turn [OF Suc.prems(1-9), of base] obtain t1 s where
    t1: "transfer_turn base None (Some r) opr t = Some t1" "0 < s" "s \<le> L" "s mod 4 = 0"
      "t_remote t1 = int (ro + s)" "unat (t_length t1) = L - s"
      "covered t1 = covered t @ span 0 (paddr (phys_addr (mem r)) ro) (s div 4)"
      "\<forall>j < s. paddr (phys_addr (mem r)) (ro + j) = paddr (phys_addr (mem r)) ro + j"
      "plain_stores opr (t_stores t1)" by (elim exE conjE) (rule that)
  note w = remote_dwords_split [OF t1(4,3) Suc.prems(7) t1(8)] and d4 = div_4_split [OF t1(4,3) Suc.prems(7)]
  show ?case
  proof (cases "L = s")
    case True
    then have "t_length t1 = 0" using t1(6) by (simp add: unat_eq_zero)
    moreover have "remote_dwords r (ro + s) 0 = []" by (simp add: remote_dwords_def)
    ultimately show ?thesis using t1(1,7,9) w True by simp
  next
    case False
    with t1(3) have pos: "0 < L - s" by simp
    then have len: "t_length t1 > 0" using t1(6) by (simp add: word_gt_0 unat_gt_0 [symmetric])
    have "0 < s div 4" using t1(2) d4(2) by (cases "s div 4") auto
    then have f: "(L - s) div 4 \<le> fuel" using Suc.prems(10) d4(1) by linarith
    have b: "L - s < 2 ^ 32" "ro + s + (L - s) \<le> 4096 * nr_pages r" using Suc.prems(6,9) t1(3) by linarith+
    have "(ro + s) mod 4 = 0" using Suc.prems(8) t1(4) by (metis add_0 mod_add_eq mod_0)
    from Suc.IH [OF Suc.prems(1) t1(5,6,9) pos b(1) d4(3) this b(2) f]
    obtain t' where "transfer_loop fuel base None (Some r) opr t1 = Some (Inr t')"
      "map snd (covered t') = map snd (covered t1) @ remote_dwords r (ro + s) (L - s)" "plain_stores opr (t_stores t')"
      by blast
    then show ?thesis using t1(1,7) w len by simp
  qed
qed

lemma clear_exact:
  assumes pages: "pages_ok (phys_addr (mem r))" and n: "unat (size (mem r)) \<le> 4096 * nr_pages r"
    and g: "in_region r (int ro) len" "ro mod 64 = 0" "unat len mod 64 = 0" "0 < unat len" "unat len < 2 ^ 32" "ro < 2 ^ 62"
    and f: "unat len div 4 \<le> fuel"
  shows "\<exists>st. ncbte_clear_region fuel io (Some r) (int ro) len completion =
      Some (0, st @ (case completion of None \<Rightarrow> []
                    | Some c \<Rightarrow> [(io + push_bit 12 (of_int (queue_num c)), fence_btce (fence_paddr c))])) \<and>
    map snd (all_moves st) = remote_dwords r ro (unat len) \<and> plain_stores REM_CLEAR st"
proof -
  let ?t = "\<lparr>t_length = len, t_local = 0, t_remote = int ro, t_stores = []\<rparr>"
  have "unat (len + of_nat ro) = unat len + ro" using g(5,6) by (intro unat_add_of_nat) simp
  then have "unat (of_int (int ro) + len) = ro + unat len" by (simp add: add.commute)
  then have b: "ro + unat len \<le> 4096 * nr_pages r"
    using g(1) n unfolding in_region_def not_less word_le_nat_alt by linarith
  have "len AND 0x3f = 0" unfolding word_unat_eq_iff unat_low_bits using g(3) by simp
  moreover have "int ro mod 64 = 0" using g(2) by presburger
  ultimately have c: "ncbte_clear_region fuel io (Some r) (int ro) len completion =
      ncbte_transfer_region fuel io None 0 (Some r) (int ro) len REM_CLEAR completion"
    using g(1) by (simp add: ncbte_clear_region_def)
  have m: "unat len mod 4 = 0" "ro mod 4 = 0" using g(2,3) mod_64_4 [of "unat len"] mod_64_4 [of ro] by simp_all
  have "plain_stores REM_CLEAR (t_stores ?t)" by (simp add: plain_stores_def)
  from clear_loop [OF pages _ _ this g(4,5) m b f, where ?base = "io + (case completion of None \<Rightarrow> 0 | Some c \<Rightarrow> push_bit 12 (of_int (queue_num c)))"]
  show ?thesis
    unfolding c by (auto simp: ncbte_transfer_region_def plain_stores_def covered_def all_moves_def Let_def split: option.splits)
qed

text \<open>
  C37: A clear that passes the guards and is shorter than 4 GB returns 0, and the descriptors it
  queues clear exactly the double words of the remote range, each once and in order; then comes
  the fence.
\<close>

theorem clears_are_exact:
  assumes "pages_ok (phys_addr (mem r))" "unat (size (mem r)) \<le> 4096 * nr_pages r"
    and "in_region r (int ro) len" "ro mod 64 = 0" "unat len mod 64 = 0" "0 < unat len" "unat len < 2 ^ 32" "ro < 2 ^ 62"
    and "unat len div 4 \<le> fuel"
  shows "\<exists>st. ncbte_clear_region fuel io (Some r) (int ro) len (Some c) =
      Some (0, st @ [(io + push_bit 12 (of_int (queue_num c)), fence_btce (fence_paddr c))]) \<and>
    map snd (all_moves st) = remote_dwords r ro (unat len) \<and> plain_stores REM_CLEAR st"
  using clear_exact [OF assms, where completion = "Some c"] by simp

lemma clears_are_exact_witness:
  "\<exists>st. ncbte_clear_region 2000 0x10000 (Some demo_remote) 64 4160 (Some \<lparr>fence_paddr = 0, fence_addr = 0, queue_num = 1, chip_no = 0\<rparr>) =
      Some (0, st @ [(0x11000, fence_btce 0)]) \<and> map snd (all_moves st) = remote_dwords demo_remote 64 4160"
proof -
  have "pages_ok (phys_addr (mem demo_remote))" "unat (size (mem demo_remote)) \<le> 4096 * nr_pages demo_remote"
    "in_region demo_remote (int 64) 4160"
    by (simp_all add: pages_ok_def nr_pages_def in_region_def demo_remote_def word_less_nat_alt)
  from clears_are_exact [OF this, of 2000 "0x10000" "\<lparr>fence_paddr = 0, fence_addr = 0, queue_num = 1, chip_no = 0\<rparr>"]
  show ?thesis by (auto simp: push_bit_eq_mult)
qed

end
