(* ===== verification/BtePerf.thy ===== *)
theory BtePerf
  imports BteClear CStrings
begin

text \<open>
  The benchmark of the block transfer engine (\<open>bte_test/bte_perf.c\<close>): its options, the lengths
  it runs through and what its transfers queue. The times it measures are not modelled; the
  number of iterations of a benchmark is a parameter.
\<close>

section \<open>Options\<close>

datatype bench = Libc_memcpy | Sge_copy | Bte_write | Bte_read | Libc_memset | Memset_nt | Bte_clear

text \<open>The table \<open>bench\<close> in its order, with the masks.\<close>

fun bench_mask :: "bench \<Rightarrow> nat" where
  "bench_mask Libc_memcpy = 1"
| "bench_mask Sge_copy = 2"
| "bench_mask Bte_write = 4"
| "bench_mask Bte_read = 8"
| "bench_mask Libc_memset = 16"
| "bench_mask Memset_nt = 32"
| "bench_mask Bte_clear = 64"

definition bench_table :: "bench list" where
  "bench_table = [Libc_memcpy, Sge_copy, Bte_write, Bte_read, Libc_memset, Memset_nt, Bte_clear]"

record perf_opts =
  po_mask :: nat
  msg_min :: int
  msg_max :: int
  po_reverse :: bool

definition perf_defaults :: perf_opts where
  "perf_defaults = \<lparr>po_mask = 0, msg_min = 128, msg_max = 64 * 1024 * 1024, po_reverse = False\<rparr>"

text \<open>The letter of \<open>-b\<close>; \<open>None\<close> is the call of \<open>usage\<close>. Other letters are ignored.\<close>

definition bench_letter :: "char \<Rightarrow> nat option" where
  "bench_letter c =
     (if c = CHR ''m'' then Some (bench_mask Libc_memcpy)
      else if c = CHR ''g'' then Some (bench_mask Sge_copy)
      else if c = CHR ''w'' then Some (bench_mask Bte_write)
      else if c = CHR ''r'' then Some (bench_mask Bte_read)
      else if c = CHR ''s'' then Some (bench_mask Libc_memset)
      else if c = CHR ''n'' then Some (bench_mask Memset_nt)
      else if c = CHR ''c'' then Some (bench_mask Bte_clear)
      else if c = CHR ''?'' then None
      else Some 0)"

text \<open>
  The options as \<open>getopt_long\<close> hands them out with their arguments; \<open>Inl\<close> is the exit code of
  \<open>usage\<close>. The goal of the time (\<open>-t\<close>) is left out.
\<close>

fun perf_options :: "(char \<times> string) list \<Rightarrow> perf_opts \<Rightarrow> int + perf_opts" where
  "perf_options [] po = Inr po"
| "perf_options ((c, optarg) # os) po =
     (if c = CHR ''b''
      then case (if optarg = [] then Some 0 else bench_letter (hd optarg)) of
             None \<Rightarrow> Inl 1
           | Some m \<Rightarrow> perf_options os (po\<lparr>po_mask := po_mask po OR m\<rparr>)
      else if c = CHR ''m'' then perf_options os (po\<lparr>msg_min := atoi_int optarg\<rparr>)
      else if c = CHR ''M'' then perf_options os (po\<lparr>msg_max := atoi_int optarg\<rparr>)
      else if c = CHR ''r'' then perf_options os (po\<lparr>po_reverse := True\<rparr>)
      else if c = CHR ''t'' then perf_options os po
      else Inl 1)"

text \<open>The benchmarks that run, in order.\<close>

definition chosen :: "perf_opts \<Rightarrow> bench list" where
  "chosen po =
     (let mask = (if po_mask po = 0
                  then bench_mask Bte_write OR bench_mask Bte_read OR bench_mask Libc_memcpy OR bench_mask Sge_copy
                  else po_mask po)
      in filter (\<lambda>b. mask AND bench_mask b \<noteq> 0) bench_table)"

section \<open>The lengths\<close>

text \<open>
  The loop over \<open>sz\<close>, from the value of \<open>inc\<close> before the turn: the lengths that are measured,
  each with the \<open>inc\<close> that is added (or subtracted) afterwards. \<open>None\<close> is a loop that does not
  end.
\<close>

definition next_inc :: "bool \<Rightarrow> int \<Rightarrow> int \<Rightarrow> int" where
  "next_inc rv inc sz =
     (if sz < 4 then 1
      else if sz AND inc = 0 then inc + (if rv then - (inc div 2) else inc)
      else inc)"

partial_function (option) sweep :: "bool \<Rightarrow> int \<Rightarrow> int \<Rightarrow> int \<Rightarrow> int \<Rightarrow> (int \<times> int) list option" where
  "sweep rv lo hi inc sz =
     (if (if rv then sz \<ge> lo else sz \<le> hi)
      then let inc = next_inc rv inc sz
           in Option.bind (sweep rv lo hi inc (if rv then sz - inc else sz + inc)) (\<lambda>xs. Some ((sz, inc) # xs))
      else Some [])"

declare sweep.simps [code]

definition perf_sizes :: "perf_opts \<Rightarrow> (int \<times> int) list option" where
  "perf_sizes po =
     (if po_reverse po then sweep True (msg_min po) (msg_max po) (msg_max po div 2) (msg_max po)
      else sweep False (msg_min po) (msg_max po) (msg_min po div 4) (msg_min po))"

section \<open>The transfers\<close>

text \<open>
  The benchmarks \<open>bte_write\<close> and \<open>bte_read\<close>: \<open>iter\<close> transfers of \<open>len\<close> bytes between the starts of
  the two regions, whose results are not looked at. The model lists what the calls return and
  queue; the wait for the completion after each is \<open>ncbte_wait_completion\<close> of \<open>BteContext\<close>.
\<close>

definition bte_write ::
    "nat \<Rightarrow> u64 \<Rightarrow> ncbte_region \<Rightarrow> ncbte_region \<Rightarrow> ncbte_completion \<Rightarrow> nat \<Rightarrow> int \<Rightarrow> (int \<times> (u64 \<times> btce) list) option list" where
  "bte_write fuel io l r c iter len =
     replicate iter (ncbte_write_region fuel io (Some l) 0 (Some r) 0 (of_int len) (Some c))"

definition bte_read ::
    "nat \<Rightarrow> u64 \<Rightarrow> ncbte_region \<Rightarrow> ncbte_region \<Rightarrow> ncbte_completion \<Rightarrow> nat \<Rightarrow> int \<Rightarrow> (int \<times> (u64 \<times> btce) list) option list" where
  "bte_read fuel io l r c iter len =
     replicate iter (ncbte_read_region fuel io (Some l) 0 (Some r) 0 (of_int len) (Some c))"

definition bte_clear ::
    "nat \<Rightarrow> u64 \<Rightarrow> ncbte_region \<Rightarrow> ncbte_completion \<Rightarrow> nat \<Rightarrow> int \<Rightarrow> (int \<times> (u64 \<times> btce) list) option list" where
  "bte_clear fuel io r c iter len =
     replicate iter (ncbte_clear_region fuel io (Some r) 0 (of_int len) (Some c))"

text \<open>The descriptor that follows the transfer and clears the word the completion waits for.\<close>

definition bench_fence :: "u64 \<Rightarrow> ncbte_completion \<Rightarrow> u64 \<times> btce" where
  "bench_fence io c = (io + push_bit 12 (of_int (queue_num c)), fence_btce (fence_paddr c))"

section \<open>The loop ends\<close>

lemma next_inc_pos:
  assumes "sz < 4 \<or> 0 < inc"
  shows "0 < next_inc rv inc sz"
  using assms by (auto simp: next_inc_def)

text \<open>Upwards the increment stays below the length, so the sum stays below twice the maximum.\<close>

lemma sweep_up:
  assumes "0 \<le> sz" "sz < 4 \<or> 0 < inc" "sz < 4 \<or> 2 * inc \<le> sz"
  shows "\<exists>xs. sweep False lo hi inc sz = Some xs \<and> sorted_wrt (<) (map fst xs) \<and>
    (\<forall>x\<in>set xs. sz \<le> fst x \<and> fst x \<le> hi \<and> 0 < snd x \<and> snd x \<le> max 1 (fst x))"
  using assms
proof (induction "nat (hi + 1 - sz)" arbitrary: sz inc rule: less_induct)
  case less
  show ?case
  proof (cases "sz \<le> hi")
    case True
    let ?i = "next_inc False inc sz"
    have p: "0 < ?i" using less.prems by (intro next_inc_pos) auto
    have b: "?i \<le> max 1 sz" "4 \<le> sz \<Longrightarrow> ?i \<le> sz" using less.prems by (auto simp: next_inc_def)
    have "nat (hi + 1 - (sz + ?i)) < nat (hi + 1 - sz)" using p True by simp
    moreover have "0 \<le> sz + ?i" "sz + ?i < 4 \<or> 0 < ?i" "sz + ?i < 4 \<or> 2 * ?i \<le> sz + ?i"
      using p b less.prems(1) by (cases "sz < 4"; auto simp: next_inc_def)+
    ultimately obtain xs where
      xs: "sweep False lo hi ?i (sz + ?i) = Some xs" "sorted_wrt (<) (map fst xs)"
        "\<forall>x\<in>set xs. sz + ?i \<le> fst x \<and> fst x \<le> hi \<and> 0 < snd x \<and> snd x \<le> max 1 (fst x)"
      using less.hyps [of "sz + ?i" ?i] by blast
    have "sweep False lo hi inc sz = Some ((sz, ?i) # xs)"
      using True xs(1) by (subst sweep.simps) (simp add: Let_def)
    moreover have "sorted_wrt (<) (map fst ((sz, ?i) # xs))" using xs(2,3) p by auto
    moreover have "\<forall>x\<in>set ((sz, ?i) # xs). sz \<le> fst x \<and> fst x \<le> hi \<and> 0 < snd x \<and> snd x \<le> max 1 (fst x)"
      using xs(3) p b(1) True by auto
    ultimately show ?thesis by blast
  next
    case False
    then have "sweep False lo hi inc sz = Some []" by (subst sweep.simps) simp
    then show ?thesis by simp
  qed
qed

lemma sweep_down:
  assumes "sz < 4 \<or> 0 < inc" "inc \<le> max 1 B" "0 \<le> lo"
  shows "\<exists>xs. sweep True lo hi inc sz = Some xs \<and> sorted_wrt (>) (map fst xs) \<and>
    (\<forall>x\<in>set xs. lo \<le> fst x \<and> fst x \<le> sz \<and> 0 < snd x \<and> snd x \<le> max 1 B)"
  using assms
proof (induction "nat (sz + 1 - lo)" arbitrary: sz inc rule: less_induct)
  case less
  show ?case
  proof (cases "lo \<le> sz")
    case True
    let ?i = "next_inc True inc sz"
    have p: "0 < ?i" using less.prems by (intro next_inc_pos) auto
    have b: "?i \<le> max 1 B" using less.prems by (auto simp: next_inc_def)
    have "nat (sz - ?i + 1 - lo) < nat (sz + 1 - lo)" using p True by simp
    from less.hyps [OF this, of ?i] p b less.prems obtain xs where
      xs: "sweep True lo hi ?i (sz - ?i) = Some xs" "sorted_wrt (>) (map fst xs)"
        "\<forall>x\<in>set xs. lo \<le> fst x \<and> fst x \<le> sz - ?i \<and> 0 < snd x \<and> snd x \<le> max 1 B"
      by auto
    have "sweep True lo hi inc sz = Some ((sz, ?i) # xs)"
      using True xs(1) by (subst sweep.simps) (simp add: Let_def)
    moreover have "sorted_wrt (>) (map fst ((sz, ?i) # xs))" using xs(2,3) p by fastforce
    moreover have "\<forall>x\<in>set ((sz, ?i) # xs). lo \<le> fst x \<and> fst x \<le> sz \<and> 0 < snd x \<and> snd x \<le> max 1 B"
      using xs(3) p b True by auto
    ultimately show ?thesis by blast
  next
    case False
    then have "sweep True lo hi inc sz = Some []" by (subst sweep.simps) simp
    then show ?thesis by simp
  qed
qed

section \<open>Powers of two\<close>

lemma and_power [simp]:
  "4 * 2 ^ m AND 2 ^ m = (0 :: int)" "2 * 2 ^ m AND 2 ^ m = (0 :: int)" "3 * 2 ^ m AND 2 ^ m = (2 ^ m :: int)"
proof -
  have "push_bit m a AND push_bit m 1 = push_bit m (a AND 1 :: int)" for a by simp
  from this [of 4] this [of 2] this [of 3]
  show "4 * 2 ^ m AND 2 ^ m = (0 :: int)" "2 * 2 ^ m AND 2 ^ m = (0 :: int)" "3 * 2 ^ m AND 2 ^ m = (2 ^ m :: int)"
    by (simp_all add: push_bit_eq_mult del: push_bit_and)
qed

text \<open>The lengths from \<open>2 ^ i\<close> to \<open>2 ^ k\<close>: the powers of two and those times one and a half.\<close>

definition steps :: "nat \<Rightarrow> nat \<Rightarrow> int list" where
  "steps i k = concat (map (\<lambda>j. [2 ^ j, 3 * 2 ^ (j - 1)]) [i..<k]) @ [2 ^ k]"

lemma steps_rec: "i < k \<Longrightarrow> steps i k = 2 ^ i # 3 * 2 ^ (i - 1) # steps (Suc i) k"
  by (simp add: steps_def upt_conv_Cons)

lemma steps_snoc: "i \<le> k \<Longrightarrow> steps i (Suc k) = steps i k @ [3 * 2 ^ (k - 1), 2 ^ Suc k]"
  by (simp add: steps_def)

lemma sweep_turn:
  assumes "if rv then lo \<le> sz else sz \<le> hi" "next_inc rv inc sz = j"
    and "sweep rv lo hi j (if rv then sz - j else sz + j) = Some xs"
  shows "sweep rv lo hi inc sz = Some ((sz, j) # xs)"
  using assms by (subst sweep.simps) (simp add: Let_def)

lemma sweep_end:
  assumes "\<not> (if rv then lo \<le> sz else sz \<le> hi)"
  shows "sweep rv lo hi inc sz = Some []"
  using assms by (subst sweep.simps) simp

lemma power2_not_less [simp]:
  "((2 :: int) ^ m < 1) = False" "(numeral k * (2 :: int) ^ m < 1) = False"
  "numeral c \<le> (numeral k :: int) \<Longrightarrow> (numeral k * (2 :: int) ^ m < numeral c) = False"
proof -
  have one: "(1 :: int) \<le> 2 ^ m" "(1 :: int) \<le> numeral k" by simp_all
  have "numeral k * 1 \<le> (numeral k * 2 ^ m :: int)" using one(1) by (intro mult_left_mono) simp_all
  then have k: "numeral k \<le> (numeral k * 2 ^ m :: int)" by simp
  show "((2 :: int) ^ m < 1) = False" using one(1) by (simp add: not_less)
  show "(numeral k * (2 :: int) ^ m < 1) = False"
    using order_trans [OF one(2) k] by (simp only: not_less eq_False)
  show "(numeral k * (2 :: int) ^ m < numeral c) = False" if "numeral c \<le> (numeral k :: int)"
    using order_trans [OF that k] by (simp only: not_less eq_False)
qed

lemma up_powers:
  "\<exists>xs. sweep False lo (2 ^ (m + 2 + d)) (2 ^ m) (4 * 2 ^ m) = Some xs \<and> map fst xs = steps (m + 2) (m + 2 + d)"
proof (induction d arbitrary: m)
  case 0
  have n: "next_inc False (2 ^ m) (4 * 2 ^ m) = 2 * 2 ^ m"
    by (simp add: next_inc_def)
  have e: "sweep False lo (2 ^ (m + 2 + 0)) (2 * 2 ^ m) (if False then 4 * 2 ^ m - 2 * 2 ^ m else 4 * 2 ^ m + 2 * 2 ^ m) = Some []"
    by (rule sweep_end) simp
  have "sweep False lo (2 ^ (m + 2 + 0)) (2 ^ m) (4 * 2 ^ m) = Some [(4 * 2 ^ m, 2 * 2 ^ m)]"
    by (rule sweep_turn [OF _ n e]) simp
  then show ?case by (intro exI conjI) (auto simp: steps_def)
next
  case (Suc d)
  let ?hi = "2 ^ (m + 2 + Suc d) :: int"
  have hi: "8 * 2 ^ m \<le> ?hi" by (simp add: power_add)
  have "3 * 2 ^ Suc m \<le> ?hi" "4 * 2 ^ m \<le> ?hi"
    using order_trans [OF _ hi] one_le_power [of "2 :: int" m] by simp_all
  note hi = this
  from Suc [of "Suc m"] obtain xs where
    xs: "sweep False lo ?hi (2 ^ Suc m) (4 * 2 ^ Suc m) = Some xs" "map fst xs = steps (m + 3) (m + 3 + d)"
    by (auto simp: numeral_3_eq_3)
  have n1: "next_inc False (2 ^ m) (4 * 2 ^ m) = 2 ^ Suc m" "next_inc False (2 ^ Suc m) (3 * 2 ^ Suc m) = 2 ^ Suc m"
    using and_power(3) [of "Suc m"] by (simp_all add: next_inc_def)
  have "sweep False lo ?hi (2 ^ Suc m) (3 * 2 ^ Suc m) = Some ((3 * 2 ^ Suc m, 2 ^ Suc m) # xs)"
    by (rule sweep_turn [OF _ n1(2)]) (use xs(1) hi(1) in \<open>simp_all only: if_False, simp\<close>)
  then have "sweep False lo ?hi (2 ^ m) (4 * 2 ^ m) = Some ((4 * 2 ^ m, 2 ^ Suc m) # (3 * 2 ^ Suc m, 2 ^ Suc m) # xs)"
    by (intro sweep_turn [OF _ n1(1)]) (use hi(2) in \<open>simp_all only: if_False, simp\<close>)
  moreover have "steps (m + 2) (m + 2 + Suc d) = 4 * 2 ^ m # 3 * 2 ^ Suc m # steps (m + 3) (m + 3 + d)"
    by (subst steps_rec) (simp_all add: power_add numeral_3_eq_3)
  ultimately show ?case using xs(2) by simp
qed

lemma down_powers:
  "2 \<le> i \<Longrightarrow> \<exists>xs. sweep True (2 ^ i) hi (2 * 2 ^ (i + d - 2)) (4 * 2 ^ (i + d - 2)) = Some xs \<and>
    map fst xs = rev (steps i (i + d))"
proof (induction d)
  case 0
  then obtain m where m: "i = m + 2" by (metis add.commute le_Suc_ex)
  have n: "next_inc True (2 * 2 ^ m) (4 * 2 ^ m) = 2 ^ m"
    using and_power(2) [of "Suc m"] by (simp add: next_inc_def)
  have e: "sweep True (2 ^ i) hi (2 ^ m) (if True then 4 * 2 ^ m - 2 ^ m else 4 * 2 ^ m + 2 ^ m) = Some []"
    by (rule sweep_end) (simp add: m)
  have "sweep True (2 ^ i) hi (2 * 2 ^ m) (4 * 2 ^ m) = Some [(4 * 2 ^ m, 2 ^ m)]"
    by (rule sweep_turn [OF _ n e]) (simp add: m)
  then show ?case by (simp add: m steps_def)
next
  case (Suc d)
  obtain m where m: "i + d = m + 2" using Suc.prems by (metis add.commute le_Suc_ex trans_le_add1)
  have lo: "(2 :: int) ^ i \<le> 4 * 2 ^ m"
  proof -
    have "(2 :: int) ^ i \<le> 2 ^ (m + 2)" using m by (intro power_increasing) simp_all
    then show ?thesis by simp
  qed
  then have lo: "(2 :: int) ^ i \<le> 3 * 2 ^ Suc m" "(2 :: int) ^ i \<le> 4 * 2 ^ Suc m"
    using zero_le_power [of "2 :: int" m] unfolding power_Suc by linarith+
  from Suc m obtain xs where
    xs: "sweep True (2 ^ i) hi (2 * 2 ^ m) (4 * 2 ^ m) = Some xs" "map fst xs = rev (steps i (i + d))"
    by auto
  have n1: "next_inc True (2 * 2 ^ Suc m) (4 * 2 ^ Suc m) = 2 ^ Suc m"
    "next_inc True (2 ^ Suc m) (3 * 2 ^ Suc m) = 2 ^ Suc m"
    using and_power(2) [of "Suc (Suc m)"] and_power(3) [of "Suc m"]
    by (simp_all add: next_inc_def)
  have "sweep True (2 ^ i) hi (2 ^ Suc m) (3 * 2 ^ Suc m) = Some ((3 * 2 ^ Suc m, 2 ^ Suc m) # xs)"
    by (rule sweep_turn [OF _ n1(2)]) (use xs(1) lo(1) in \<open>simp_all only: if_True, simp\<close>)
  then have "sweep True (2 ^ i) hi (2 * 2 ^ Suc m) (4 * 2 ^ Suc m) =
      Some ((4 * 2 ^ Suc m, 2 ^ Suc m) # (3 * 2 ^ Suc m, 2 ^ Suc m) # xs)"
    by (intro sweep_turn [OF _ n1(1)]) (use lo(2) in \<open>simp_all only: if_True, simp\<close>)
  moreover have "i + Suc d - 2 = Suc m" "i + Suc d = Suc (m + 2)" using m by simp_all
  moreover have "rev (steps i (Suc (m + 2))) = 4 * 2 ^ Suc m # 3 * 2 ^ Suc m # rev (steps i (m + 2))"
    using m by (subst steps_snoc) (simp_all add: power_add)
  ultimately show ?case using xs(2) m by simp
qed

section \<open>Properties\<close>

text \<open>
  The loop over the lengths ends for all bounds from 0 to 1 GB, upwards and downwards, and
  the lengths are within the bounds, none twice, with increments that keep the next length
  within an \<open>int\<close>.
\<close>

theorem perf_sweep_returns:
  assumes "0 \<le> msg_min po" "msg_max po \<le> 2 ^ 30"
  shows "\<exists>xs. perf_sizes po = Some xs \<and> distinct (map fst xs) \<and>
    (\<forall>x\<in>set xs. msg_min po \<le> fst x \<and> fst x \<le> msg_max po \<and> 0 < snd x \<and> snd x \<le> 2 ^ 30)"
proof (cases "po_reverse po")
  case True
  have "msg_max po < 4 \<or> 0 < msg_max po div 2" "msg_max po div 2 \<le> max 1 (2 ^ 30)"
    using assms(2) by auto
  from sweep_down [OF this assms(1), of "msg_max po"] obtain xs where
    "perf_sizes po = Some xs" "sorted_wrt (>) (map fst xs)"
    "\<forall>x\<in>set xs. msg_min po \<le> fst x \<and> fst x \<le> msg_max po \<and> 0 < snd x \<and> snd x \<le> max 1 (2 ^ 30)"
    using True by (auto simp: perf_sizes_def)
  moreover from this(2) have "distinct (map fst xs)" by (induction xs) auto
  ultimately show ?thesis by (intro exI [of _ xs]) simp
next
  case False
  have "msg_min po < 4 \<or> 0 < msg_min po div 4" "msg_min po < 4 \<or> 2 * (msg_min po div 4) \<le> msg_min po"
    using assms(1) by auto
  from sweep_up [OF assms(1) this, of "msg_min po" "msg_max po"] obtain xs where
    xs: "perf_sizes po = Some xs" "sorted_wrt (<) (map fst xs)"
    "\<forall>x\<in>set xs. msg_min po \<le> fst x \<and> fst x \<le> msg_max po \<and> 0 < snd x \<and> snd x \<le> max 1 (fst x)"
    using False by (auto simp: perf_sizes_def)
  from xs(2) have "distinct (map fst xs)" by (induction xs) auto
  moreover have "snd x \<le> 2 ^ 30" if "x \<in> set xs" for x
    using xs(3) that assms(2) by fastforce
  ultimately show ?thesis using xs(1,3) by (intro exI [of _ xs]) blast
qed

lemma perf_sweep_returns_witness:
  "\<exists>xs. perf_sizes (perf_defaults\<lparr>po_reverse := True, msg_min := 0\<rparr>) = Some xs \<and> distinct (map fst xs)"
  using perf_sweep_returns [of "perf_defaults\<lparr>po_reverse := True, msg_min := 0\<rparr>"]
  by (auto simp: perf_defaults_def)

text \<open>
  C35: between powers of two the benchmark measures exactly the powers of two and the lengths
  half way between them, upwards or (with \<open>-r\<close>) the same downwards.
\<close>

theorem perf_lengths:
  assumes "2 \<le> i" "i \<le> k" "msg_min po = 2 ^ i" "msg_max po = 2 ^ k"
  shows "map_option (map fst) (perf_sizes po) = Some (if po_reverse po then rev (steps i k) else steps i k)"
proof (cases "po_reverse po")
  case True
  obtain m where m: "k = m + 2" using assms(1,2) by (metis add.commute le_Suc_ex le_trans)
  have "i + (k - i) = k" using assms(2) by simp
  then have "\<exists>xs. sweep True (2 ^ i) (2 ^ k) (2 * 2 ^ m) (4 * 2 ^ m) = Some xs \<and> map fst xs = rev (steps i k)"
    using down_powers [OF assms(1), of "2 ^ k" "k - i"] m by simp
  then show ?thesis using True assms(3,4) m by (auto simp: perf_sizes_def power_add mult.commute)
next
  case False
  obtain m where m: "i = m + 2" using assms(1) by (metis add.commute le_Suc_ex)
  have k: "m + 2 + (k - i) = k" using assms(2) m by simp
  have "\<exists>xs. sweep False (2 ^ i) (2 ^ k) (2 ^ m) (4 * 2 ^ m) = Some xs \<and> map fst xs = steps i k"
    using up_powers [of "2 ^ i" m "k - i"] by (simp only: k) (simp only: m)
  then show ?thesis using False assms(3,4) m by (auto simp: perf_sizes_def power_add mult.commute)
qed

text \<open>Without options there are 39 lengths from 128 bytes to 64 MB.\<close>

lemma perf_lengths_witness:
  "map_option (map fst) (perf_sizes perf_defaults) = Some (steps 7 26) \<and> length (steps 7 26) = 39 \<and>
   hd (steps 7 26) = 128 \<and> last (steps 7 26) = 64 * 1024 * 1024"
proof -
  have "map_option (map fst) (perf_sizes perf_defaults) = Some (steps 7 26)"
    using perf_lengths [of 7 26 perf_defaults] by (simp add: perf_defaults_def)
  moreover have "steps 7 26 = 128 # tl (steps 7 26)" by (simp add: steps_rec)
  moreover have "length (steps 7 26) = 39"
    by (simp add: steps_def length_concat o_def sum_list_triv)
  ultimately show ?thesis by (simp add: steps_def)
qed

lemma unat_len:
  assumes "0 \<le> len" "len < 2 ^ 32"
  shows "unat (of_int len :: u64) = nat len"
proof -
  have "nat len < 2 ^ 64" using assms by (simp add: nat_less_iff)
  then have "unat (of_nat (nat len) :: u64) = nat len"
    by (simp add: unsigned_of_nat take_bit_nat_eq_self)
  then show ?thesis using of_int_of_nat_eq [of "nat len", where 'a = u64] assms(1) by simp
qed

text \<open>The guard of a transfer between the starts of two regions that are long enough.\<close>

lemma bench_guard:
  assumes "0 \<le> len" "len < 2 ^ 32" "nat len \<le> unat (size (mem l))" "nat len \<le> unat (size (mem r))"
  shows "copy_guard l (int 0) r (int 0) (of_int len) \<longleftrightarrow> len mod 4 = 0"
proof -
  let ?n = "of_int len :: u64"
  have u: "unat ?n = nat len" using assms(1,2) by (rule unat_len)
  have "?n AND 3 = take_bit 2 ?n" by (simp add: take_bit_eq_mask mask_eq_exp_minus_1)
  moreover have "take_bit 2 ?n = 0 \<longleftrightarrow> nat len mod 4 = 0"
    unfolding word_unat_eq_iff by (simp add: unsigned_take_bit_eq u take_bit_nat_def)
  moreover have "nat len mod 4 = 0 \<longleftrightarrow> len mod 4 = 0"
  proof -
    from assms(1) obtain n where "len = int n" by (metis zero_le_imp_eq_int)
    then show ?thesis by (simp only: nat_int) presburger
  qed
  ultimately have "?n AND 3 = 0 \<longleftrightarrow> len mod 4 = 0" by simp
  then show ?thesis
    using assms(3,4) by (simp add: copy_guard_def in_region_def word_less_nat_alt u not_less)
qed

text \<open>
  For lengths up to 1 GB that are multiples of 4, every iteration of the write and of the
  read benchmark queues the moves of exactly the first \<open>len\<close> bytes between the two regions and
  then the fence. For the other lengths (1 to 3 bytes with \<open>-m 0\<close>) every iteration is refused
  and queues nothing.
\<close>

theorem bench_transfers:
  assumes "0 < len" "len \<le> 2 ^ 30" "nat len div 4 \<le> fuel"
    and "nat len \<le> unat (size (mem l))" "nat len \<le> unat (size (mem r))"
    and "unat (size (mem l)) \<le> 4096 * nr_pages l" "unat (size (mem r)) \<le> 4096 * nr_pages r"
    and "pages_ok (phys_addr (mem l))" "pages_ok (phys_addr (mem r))"
  shows "if len mod 4 = 0
    then \<exists>w rd. bte_write fuel io l r c iter len = replicate iter (Some (0, w @ [bench_fence io c])) \<and>
      bte_read fuel io l r c iter len = replicate iter (Some (0, rd @ [bench_fence io c])) \<and>
      all_moves w = wanted l r 0 0 (nat len) \<and> plain_stores REM_WRITE w \<and>
      all_moves rd = wanted l r 0 0 (nat len) \<and> plain_stores REM_READ rd
    else bte_write fuel io l r c iter len = replicate iter (Some (-1, [])) \<and>
      bte_read fuel io l r c iter len = replicate iter (Some (-1, []))"
proof -
  let ?n = "of_int len :: u64"
  have u: "unat ?n = nat len" using assms(1,2) by (intro unat_len) simp_all
  have g: "copy_guard l (int 0) r (int 0) ?n \<longleftrightarrow> len mod 4 = 0"
    using assms(1,2,4,5) by (intro bench_guard) simp_all
  show ?thesis
  proof (cases "len mod 4 = 0")
    case False
    with g show ?thesis by (simp add: bte_write_def bte_read_def ncbte_write_region_def ncbte_read_region_def)
  next
    case True
    with g have g': "copy_guard l (int 0) r (int 0) ?n" by simp
    have n: "0 < unat ?n" "unat ?n < 2 ^ 32" "unat ?n div 4 \<le> fuel"
      using assms(1,2,3) unfolding u by (simp_all add: nat_less_iff)
    have z: "(0 :: nat) < 2 ^ 62" "(0 :: nat) mod 64 = 0 \<or> 64 - 0 mod 64 \<le> unat ?n" by simp_all
    note ex = transfer_exact [OF g' n(1,2) z(1) z(1) assms(6-9) z(2) n(3), of io _ "Some c"]
    obtain w rd where
      w: "ncbte_transfer_region fuel io (Some l) (int 0) (Some r) (int 0) ?n REM_WRITE (Some c) =
            Some (0, w @ [bench_fence io c])" "all_moves w = wanted l r 0 0 (nat len)" "plain_stores REM_WRITE w"
      and rd: "ncbte_transfer_region fuel io (Some l) (int 0) (Some r) (int 0) ?n REM_READ (Some c) =
            Some (0, rd @ [bench_fence io c])" "all_moves rd = wanted l r 0 0 (nat len)" "plain_stores REM_READ rd"
      using ex [of REM_WRITE] ex [of REM_READ] unfolding u bench_fence_def option.case by blast
    have "bte_write fuel io l r c iter len = replicate iter (Some (0, w @ [bench_fence io c]))"
      "bte_read fuel io l r c iter len = replicate iter (Some (0, rd @ [bench_fence io c]))"
      using w(1) rd(1) g' by (simp_all add: bte_write_def bte_read_def ncbte_write_region_def ncbte_read_region_def)
    with w(2,3) rd(2,3) True show ?thesis by auto
  qed
qed

text \<open>
  The clears are refused for all lengths that are not multiples of 64, such as those half way
  between two powers of two below 128.
\<close>

lemma bench_clears:
  assumes "0 < len" "len \<le> 2 ^ 30" "nat len div 4 \<le> fuel"
    and "nat len \<le> unat (size (mem r))" "unat (size (mem r)) \<le> 4096 * nr_pages r" "pages_ok (phys_addr (mem r))"
  shows "if len mod 64 = 0
    then \<exists>w. bte_clear fuel io r c iter len = replicate iter (Some (0, w @ [bench_fence io c])) \<and>
      map snd (all_moves w) = remote_dwords r 0 (nat len) \<and> plain_stores REM_CLEAR w
    else bte_clear fuel io r c iter len = replicate iter (Some (-1, []))"
proof -
  let ?n = "of_int len :: u64"
  have u: "unat ?n = nat len" using assms(1,2) by (intro unat_len) simp_all
  have m: "unat ?n mod 64 = 0 \<longleftrightarrow> len mod 64 = 0"
  proof -
    from assms(1) obtain n where "len = int n" by (metis zero_le_imp_eq_int less_imp_le)
    then show ?thesis unfolding u by (simp only: nat_int) presburger
  qed
  have i: "in_region r (int 0) ?n" using assms(4) by (simp add: in_region_def word_less_nat_alt u not_less)
  show ?thesis
  proof (cases "len mod 64 = 0")
    case True
    have n: "0 < unat ?n" "unat ?n < 2 ^ 32" "unat ?n div 4 \<le> fuel"
      using assms(1,2,3) unfolding u by (simp_all add: nat_less_iff)
    have z: "(0 :: nat) mod 64 = 0" "unat ?n mod 64 = 0" "(0 :: nat) < 2 ^ 62" using True m by simp_all
    from clear_exact [OF assms(6,5) i z(1,2) n(1,2) z(3) n(3), of io "Some c"] obtain w where
      w: "ncbte_clear_region fuel io (Some r) (int 0) ?n (Some c) = Some (0, w @ [bench_fence io c])"
        "map snd (all_moves w) = remote_dwords r 0 (nat len)" "plain_stores REM_CLEAR w"
      unfolding u bench_fence_def option.case by blast
    then show ?thesis using True by (auto simp: bte_clear_def)
  next
    case False
    have "?n AND 0x3f \<noteq> 0" using False m unat_low_bits(1) [of ?n] by (metis unat_0)
    then have "ncbte_clear_region fuel io (Some r) 0 ?n (Some c) = Some (-1, [])"
      by (simp add: ncbte_clear_region_def)
    with False show ?thesis by (simp add: bte_clear_def)
  qed
qed

definition demo_done :: ncbte_completion where
  "demo_done = \<lparr>fence_paddr = 0x200000, fence_addr = 0, queue_num = 1, chip_no = 0\<rparr>"

lemma bench_transfers_witness:
  "(\<exists>w st. bte_write 40 0x10000 demo_local demo_remote demo_done 2 160 = replicate 2 (Some (0, w @ st)) \<and>
     all_moves w = wanted demo_local demo_remote 0 0 160) \<and>
   bte_write 40 0x10000 demo_local demo_remote demo_done 2 3 = replicate 2 (Some (-1, []))"
proof -
  have p: "pages_ok (phys_addr (mem demo_local))" "pages_ok (phys_addr (mem demo_remote))"
    by (simp_all add: pages_ok_def demo_local_def demo_remote_def)
  have s: "unat (size (mem demo_local)) \<le> 4096 * nr_pages demo_local"
    "unat (size (mem demo_remote)) \<le> 4096 * nr_pages demo_remote"
    by (simp_all add: nr_pages_def demo_local_def demo_remote_def)
  have n: "nat 160 \<le> unat (size (mem demo_local))" "nat 160 \<le> unat (size (mem demo_remote))"
    "nat 3 \<le> unat (size (mem demo_local))" "nat 3 \<le> unat (size (mem demo_remote))"
    by (simp_all add: demo_local_def demo_remote_def)
  have "(0 :: int) < 160" "(160 :: int) \<le> 2 ^ 30" "nat 160 div 4 \<le> 40"
    "(0 :: int) < 3" "(3 :: int) \<le> 2 ^ 30" "nat 3 div 4 \<le> 40" by simp_all
  note b = bench_transfers [OF this(1-3) n(1,2) s p, of "0x10000" demo_done 2]
    bench_transfers [OF this(4-6) n(3,4) s p, of "0x10000" demo_done 2]
  have "(160 :: int) mod 4 = 0" "(3 :: int) mod 4 \<noteq> 0" "nat 160 = 160" by simp_all
  with b(1) have "\<exists>w st. bte_write 40 0x10000 demo_local demo_remote demo_done 2 160 = replicate 2 (Some (0, w @ st)) \<and>
     all_moves w = wanted demo_local demo_remote 0 0 160"
    by (simp only: refl if_True) blast
  moreover have "bte_write 40 0x10000 demo_local demo_remote demo_done 2 3 = replicate 2 (Some (-1, []))"
    using b(2) \<open>3 mod 4 \<noteq> 0\<close> by (simp only: if_not_P if_False refl)
  ultimately show ?thesis by (rule conjI)
qed

end
