(* ===== verification/BteTest.thy ===== *)
theory BteTest
  imports BteClear
begin

text \<open>
  The test of the block transfer engine (\<open>bte_test/bte_test.c\<close>): one turn of its loop over a
  memory of double words at physical addresses. What the engine does with the descriptors it is
  given is a parameter; the laws state what \<open>libncbte.h\<close> says of a write, a read and a clear.
\<close>

section \<open>One turn of the test\<close>

type_synonym memory = "nat \<Rightarrow> u32"

definition ALLOC_SIZE :: nat where "ALLOC_SIZE = 100 * 1024 * 1024"

definition TRANS_SIZE :: nat where "TRANS_SIZE = 90 * 1024 * 1024"

text \<open>\<open>memset_movnti\<close> on the buffer of a region: \<open>c\<close> is stored as a whole \<open>int\<close>.\<close>

definition memset_movnti :: "ncbte_region \<Rightarrow> u32 \<Rightarrow> nat \<Rightarrow> memory \<Rightarrow> memory" where
  "memset_movnti r c n m = foldl (\<lambda>m i. m(paddr (phys_addr (mem r)) (4 * i) := c)) m [0..<n div 4]"

text \<open>\<open>memcmp\<close> of the first \<open>n\<close> bytes of both buffers.\<close>

definition same_content :: "ncbte_region \<Rightarrow> ncbte_region \<Rightarrow> nat \<Rightarrow> memory \<Rightarrow> bool" where
  "same_content l r n m \<longleftrightarrow>
     list_all (\<lambda>k. m (paddr (phys_addr (mem l)) (4 * k)) = m (paddr (phys_addr (mem r)) (4 * k))) [0..<n div 4]"

text \<open>
  A transfer and the wait for its completion: the engine runs what was queued. \<open>Inl\<close> is the exit
  of the program; a loop without end is \<open>None\<close>.
\<close>

type_synonym engine = "(u64 \<times> btce) list \<Rightarrow> memory \<Rightarrow> memory"

definition run_queued :: "engine \<Rightarrow> (int \<times> (u64 \<times> btce) list) option \<Rightarrow> memory \<Rightarrow> (int + memory) option" where
  "run_queued engine res m =
     (case res of
        None \<Rightarrow> None
      | Some (sts, st) \<Rightarrow> Some (if sts < 0 then Inl (-1) else Inr (engine st m)))"

text \<open>A turn: what is printed at its end (OK or ERROR) and the memory.\<close>

definition test_turn ::
    "engine \<Rightarrow> nat \<Rightarrow> u64 \<Rightarrow> ncbte_region \<Rightarrow> ncbte_region \<Rightarrow> ncbte_completion \<Rightarrow> memory \<Rightarrow> (int + bool \<times> memory) option" where
  "test_turn engine fuel io l r c m =
     (let m = memset_movnti l 0xaa ALLOC_SIZE m;
          m = memset_movnti r 0x55 ALLOC_SIZE m
      in case run_queued engine (ncbte_clear_region fuel io (Some r) 0 (of_nat ALLOC_SIZE) (Some c)) m of
           None \<Rightarrow> None
         | Some (Inl e) \<Rightarrow> Some (Inl e)
         | Some (Inr m) \<Rightarrow>
      (case run_queued engine (ncbte_write_region fuel io (Some l) 0 (Some r) 0 (of_nat TRANS_SIZE) (Some c)) m of
           None \<Rightarrow> None
         | Some (Inl e) \<Rightarrow> Some (Inl e)
         | Some (Inr m) \<Rightarrow>
      (case run_queued engine (ncbte_read_region fuel io (Some l) 0 (Some r) 0 (of_nat TRANS_SIZE) (Some c)) m of
           None \<Rightarrow> None
         | Some (Inl e) \<Rightarrow> Some (Inl e)
         | Some (Inr m) \<Rightarrow> Some (Inr (same_content l r TRANS_SIZE m, m)))))"

section \<open>The laws of the engine\<close>

text \<open>Descriptors of one operation and a fence after them.\<close>

definition fenced :: "btce_op \<Rightarrow> (u64 \<times> btce) list \<Rightarrow> u64 \<times> btce \<Rightarrow> bool" where
  "fenced opr st f \<longleftrightarrow> plain_stores opr st \<and> is_fence (snd f) = 1"

text \<open>Moves of double words, one after the other: \<open>(to, from)\<close>.\<close>

definition copies :: "(nat \<times> nat) list \<Rightarrow> memory \<Rightarrow> memory" where
  "copies xs m = foldl (\<lambda>m x. m(fst x := m (snd x))) m xs"

definition reads :: "engine \<Rightarrow> bool" where
  "reads engine \<longleftrightarrow> (\<forall>st f m. fenced REM_READ st f \<longrightarrow> engine (st @ [f]) m = copies (all_moves st) m)"

definition writes :: "engine \<Rightarrow> bool" where
  "writes engine \<longleftrightarrow> (\<forall>st f m. fenced REM_WRITE st f \<longrightarrow>
     engine (st @ [f]) m = copies (map prod.swap (all_moves st)) m)"

definition clears :: "engine \<Rightarrow> bool" where
  "clears engine \<longleftrightarrow> (\<forall>st f m. fenced REM_CLEAR st f \<longrightarrow>
     engine (st @ [f]) m = foldl (\<lambda>m a. m(a := 0)) m (map snd (all_moves st)))"

lemma lawsD:
  "reads engine \<Longrightarrow> fenced REM_READ st f \<Longrightarrow> engine (st @ [f]) m = copies (all_moves st) m"
  "writes engine \<Longrightarrow> fenced REM_WRITE st f \<Longrightarrow> engine (st @ [f]) m = copies (map prod.swap (all_moves st)) m"
  "clears engine \<Longrightarrow> fenced REM_CLEAR st f \<Longrightarrow> engine (st @ [f]) m = foldl (\<lambda>m a. m(a := 0)) m (map snd (all_moves st))"
  unfolding reads_def writes_def clears_def by blast+

text \<open>An engine with these laws, which looks at the operation of the first descriptor.\<close>

definition demo_engine :: engine where
  "demo_engine st m =
     (let xs = all_moves (butlast st)
      in case map (opc \<circ> snd) (butlast st) of
           [] \<Rightarrow> m
         | c # _ \<Rightarrow> if c = op_code REM_READ then copies xs m
                    else if c = op_code REM_WRITE then copies (map prod.swap xs) m
                    else foldl (\<lambda>m a. m(a := 0)) m (map snd xs))"

text \<open>An engine that loses writes and clears.\<close>

definition deaf_engine :: engine where
  "deaf_engine st m = (if \<forall>s\<in>set (butlast st). opc (snd s) = op_code REM_READ then demo_engine st m else m)"

lemma demo_engine_laws: "reads demo_engine" "writes demo_engine" "clears demo_engine"
proof -
  have "\<exists>s st'. st = s # st' \<and> opc (snd s) = op_code opr" if "fenced opr st f" "st \<noteq> []" for opr st f
    using that by (cases st) (auto simp: fenced_def plain_stores_def)
  then have e: "demo_engine (st @ [f]) m =
      (if st = [] then m else if opr = REM_READ then copies (all_moves st) m
       else if opr = REM_WRITE then copies (map prod.swap (all_moves st)) m
       else foldl (\<lambda>m a. m(a := 0)) m (map snd (all_moves st)))"
    if "fenced opr st f" "opr \<noteq> REM_MOVE" for opr st f m
    using that by (cases "st = []"; cases opr) (fastforce simp: demo_engine_def op_code_def)+
  show "reads demo_engine" "writes demo_engine" "clears demo_engine"
    using e by (auto simp: reads_def writes_def clears_def copies_def all_moves_def)
qed

lemma deaf_engine_reads: "reads deaf_engine"
  using demo_engine_laws(1) by (auto simp: reads_def deaf_engine_def fenced_def plain_stores_def)

section \<open>Addresses and copies\<close>

lemma paddr_eq:
  assumes "pages_ok ps" "pages_ok qs" "x < 4096 * length ps" "y < 4096 * length qs" "paddr ps x = paddr qs y"
  shows "ps ! (x div 4096) = qs ! (y div 4096)" "x mod 4096 = y mod 4096"
proof -
  have "ps ! (x div 4096) \<in> set ps" "qs ! (y div 4096) \<in> set qs"
    using assms(3,4) by (simp_all add: less_mult_imp_div_less)
  with assms(1,2) obtain a b where
    ab: "unat (ps ! (x div 4096)) = 4096 * a" "unat (qs ! (y div 4096)) = 4096 * b"
    unfolding pages_ok_def by (metis mod_0_imp_dvd dvd_def)
  have e: "4096 * a + x mod 4096 = 4096 * b + y mod 4096" using assms(5) by (simp add: paddr_def ab)
  have "a = b"
    using arg_cong [OF e, of "\<lambda>n. n div 4096"] by simp
  with ab e show "ps ! (x div 4096) = qs ! (y div 4096)" "x mod 4096 = y mod 4096"
    by (simp_all add: word_unat_eq_iff)
qed

text \<open>The frames of two regions: none twice.\<close>

definition apart :: "ncbte_region \<Rightarrow> ncbte_region \<Rightarrow> bool" where
  "apart l r \<longleftrightarrow> pages_ok (phys_addr (mem l)) \<and> pages_ok (phys_addr (mem r)) \<and>
     distinct (phys_addr (mem l) @ phys_addr (mem r))"

definition dwords :: "ncbte_region \<Rightarrow> nat \<Rightarrow> nat list" where
  "dwords r n = map (\<lambda>k. paddr (phys_addr (mem r)) (4 * k)) [0..<n div 4]"

lemma distinct_dwords:
  assumes "pages_ok (phys_addr (mem r))" "distinct (phys_addr (mem r))" "n \<le> 4096 * nr_pages r"
  shows "distinct (dwords r n)"
proof -
  let ?ps = "phys_addr (mem r)"
  have "i = j" if ij: "i < n div 4" "j < n div 4" "paddr ?ps (4 * i) = paddr ?ps (4 * j)" for i j
  proof -
    have b: "4 * i < 4096 * length ?ps" "4 * j < 4096 * length ?ps"
      using ij(1,2) assms(3) by (auto simp: nr_pages_def)
    note p = paddr_eq [OF assms(1,1) b ij(3)]
    from p(1) have "4 * i div 4096 = 4 * j div 4096"
      using b by (subst (asm) nth_eq_iff_index_eq [OF assms(2)]) (simp_all only: less_mult_imp_div_less mult.commute)
    with p(2) show ?thesis by (metis div_mult_mod_eq mult_cancel1 zero_neq_numeral)
  qed
  then show ?thesis by (auto simp: dwords_def distinct_map inj_on_def)
qed

lemma disjoint_dwords:
  assumes "apart l r" "n \<le> 4096 * nr_pages l" "k \<le> 4096 * nr_pages r"
  shows "set (dwords l n) \<inter> set (dwords r k) = {}"
proof -
  let ?ps = "phys_addr (mem l)" and ?qs = "phys_addr (mem r)"
  have "paddr ?ps (4 * i) \<noteq> paddr ?qs (4 * j)" if ij: "i < n div 4" "j < k div 4" for i j
  proof
    assume e: "paddr ?ps (4 * i) = paddr ?qs (4 * j)"
    have b: "4 * i < 4096 * length ?ps" "4 * j < 4096 * length ?qs"
      using ij assms(2,3) by (auto simp: nr_pages_def)
    have "?ps ! (4 * i div 4096) = ?qs ! (4 * j div 4096)"
      using assms(1) unfolding apart_def by (intro paddr_eq(1) [OF _ _ b e]) simp_all
    moreover have "?ps ! (4 * i div 4096) \<in> set ?ps" "?qs ! (4 * j div 4096) \<in> set ?qs"
      using b by (simp_all add: less_mult_imp_div_less)
    ultimately show False using assms(1) unfolding apart_def distinct_append by (metis disjoint_iff)
  qed
  then show ?thesis by (auto simp: dwords_def)
qed

lemma copies_outside: "a \<notin> fst ` set xs \<Longrightarrow> copies xs m a = m a"
  by (induction xs arbitrary: m) (simp_all add: copies_def)

lemma copies_inside:
  "distinct (map fst xs) \<Longrightarrow> set (map fst xs) \<inter> set (map snd xs) = {} \<Longrightarrow> (a, b) \<in> set xs \<Longrightarrow> copies xs m a = m b"
proof (induction xs arbitrary: m)
  case (Cons x xs)
  have c: "copies (x # xs) m = copies xs (m(fst x := m (snd x)))" by (simp add: copies_def)
  show ?case
  proof (cases "x = (a, b)")
    case True
    with Cons.prems(1) have "a \<notin> fst ` set xs" by simp
    with True show ?thesis unfolding c by (simp add: copies_outside)
  next
    case False
    with Cons.prems(3) have i: "(a, b) \<in> set xs" by auto
    then have "b \<noteq> fst x" using Cons.prems(2) by (force simp: image_iff)
    with Cons.IH [OF _ _ i] Cons.prems(1,2) show ?thesis unfolding c by auto
  qed
qed simp

lemma wanted_zip: "wanted l r 0 0 n = zip (dwords l n) (dwords r n)"
  by (simp add: wanted_def dwords_def zip_map_map map_zip_map2 zip_same_conv_map o_def)

text \<open>After a copy between two regions that are apart they agree, and nothing else has changed.\<close>

lemma copies_regions:
  assumes "apart l r" "n \<le> 4096 * nr_pages l" "n \<le> 4096 * nr_pages r"
  shows "k < n div 4 \<Longrightarrow> copies (wanted l r 0 0 n) m (dwords l n ! k) = m (dwords r n ! k)"
    and "k < n div 4 \<Longrightarrow> copies (map prod.swap (wanted l r 0 0 n)) m (dwords r n ! k) = m (dwords l n ! k)"
    and "a \<notin> set (dwords l n) \<Longrightarrow> copies (wanted l r 0 0 n) m a = m a"
    and "a \<notin> set (dwords r n) \<Longrightarrow> copies (map prod.swap (wanted l r 0 0 n)) m a = m a"
proof -
  have len: "length (dwords l n) = n div 4" "length (dwords r n) = n div 4" by (simp_all add: dwords_def)
  have d: "distinct (dwords l n)" "distinct (dwords r n)"
    using assms by (auto simp: apart_def intro!: distinct_dwords)
  have i: "set (dwords l n) \<inter> set (dwords r n) = {}" by (rule disjoint_dwords [OF assms])
  have m: "map fst (wanted l r 0 0 n) = dwords l n" "map snd (wanted l r 0 0 n) = dwords r n"
    by (simp_all add: wanted_zip len)
  have s: "map fst (map prod.swap (wanted l r 0 0 n)) = dwords r n" "map snd (map prod.swap (wanted l r 0 0 n)) = dwords l n"
    by (simp_all add: wanted_zip len zip_commute [of "dwords l n"] o_def case_prod_beta)
  have z: "(dwords l n ! k, dwords r n ! k) \<in> set (wanted l r 0 0 n)" if "k < n div 4" for k
    using that by (auto simp: wanted_zip len set_zip)
  then have z': "(dwords r n ! k, dwords l n ! k) \<in> set (map prod.swap (wanted l r 0 0 n))" if "k < n div 4" for k
    using that by force
  show "k < n div 4 \<Longrightarrow> copies (wanted l r 0 0 n) m (dwords l n ! k) = m (dwords r n ! k)"
    using d i z by (intro copies_inside) (simp_all only: m)
  show "k < n div 4 \<Longrightarrow> copies (map prod.swap (wanted l r 0 0 n)) m (dwords r n ! k) = m (dwords l n ! k)"
    using d i z' by (intro copies_inside) (simp_all only: s Int_commute)
  show "a \<notin> set (dwords l n) \<Longrightarrow> copies (wanted l r 0 0 n) m a = m a"
    using m(1) [symmetric] by (simp add: copies_outside)
  show "a \<notin> set (dwords r n) \<Longrightarrow> copies (map prod.swap (wanted l r 0 0 n)) m a = m a"
    using s(1) [symmetric] by (simp add: copies_outside del: map_map)
qed

lemma fill: "foldl (\<lambda>m a. m(a := c)) m xs b = (if b \<in> set xs then c else m b)"
  by (induction xs arbitrary: m) auto

lemma memset_fill: "memset_movnti r c n m b = (if b \<in> set (dwords r n) then c else m b)"
proof -
  have "memset_movnti r c n m = foldl (\<lambda>m a. m(a := c)) m (dwords r n)"
    by (simp add: memset_movnti_def dwords_def foldl_map)
  then show ?thesis by (simp add: fill)
qed

lemma same_dwords: "same_content l r n m \<longleftrightarrow> (\<forall>k < n div 4. m (dwords l n ! k) = m (dwords r n ! k))"
  by (auto simp: same_content_def dwords_def list_all_iff)

section \<open>Properties\<close>

text \<open>The set-up of the program: two buffers of 100 MB whose page frames are apart.\<close>

definition buffers_ok :: "ncbte_region \<Rightarrow> ncbte_region \<Rightarrow> bool" where
  "buffers_ok l r \<longleftrightarrow> apart l r \<and>
     ALLOC_SIZE \<le> unat (size (mem l)) \<and> unat (size (mem l)) \<le> 4096 * nr_pages l \<and>
     ALLOC_SIZE \<le> unat (size (mem r)) \<and> unat (size (mem r)) \<le> 4096 * nr_pages r"

lemma test_queues:
  assumes "buffers_ok l r" "ALLOC_SIZE div 4 \<le> fuel"
  obtains cl w rd f where
    "ncbte_clear_region fuel io (Some r) 0 (of_nat ALLOC_SIZE) (Some c) = Some (0, cl @ [f])"
    "ncbte_write_region fuel io (Some l) 0 (Some r) 0 (of_nat TRANS_SIZE) (Some c) = Some (0, w @ [f])"
    "ncbte_read_region fuel io (Some l) 0 (Some r) 0 (of_nat TRANS_SIZE) (Some c) = Some (0, rd @ [f])"
    "fenced REM_CLEAR cl f" "fenced REM_WRITE w f" "fenced REM_READ rd f"
    "map snd (all_moves cl) = dwords r ALLOC_SIZE" "all_moves w = wanted l r 0 0 TRANS_SIZE"
    "all_moves rd = wanted l r 0 0 TRANS_SIZE"
proof -
  let ?A = "of_nat ALLOC_SIZE :: u64" and ?T = "of_nat TRANS_SIZE :: u64"
  have u: "unat ?A = ALLOC_SIZE" "unat ?T = TRANS_SIZE" by (simp_all add: ALLOC_SIZE_def TRANS_SIZE_def)
  have b: "pages_ok (phys_addr (mem l))" "pages_ok (phys_addr (mem r))"
    "ALLOC_SIZE \<le> unat (size (mem l))" "unat (size (mem l)) \<le> 4096 * nr_pages l"
    "ALLOC_SIZE \<le> unat (size (mem r))" "unat (size (mem r)) \<le> 4096 * nr_pages r"
    using assms(1) by (simp_all add: buffers_ok_def apart_def)
  let ?f = "(io + push_bit 12 (of_int (queue_num c)), fence_btce (fence_paddr c))"
  have TA: "TRANS_SIZE \<le> ALLOC_SIZE" "TRANS_SIZE div 4 \<le> ALLOC_SIZE div 4" "0 < TRANS_SIZE" "TRANS_SIZE < 2 ^ 32"
    "0 < ALLOC_SIZE" "ALLOC_SIZE < 2 ^ 32" "ALLOC_SIZE mod 64 = 0"
    by (simp_all add: TRANS_SIZE_def ALLOC_SIZE_def)
  have "in_region r (int 0) ?A" using b(5) u(1) by (simp add: in_region_def word_less_nat_alt)
  from clear_exact [OF b(2,6) this, unfolded u, OF _ TA(7,5,6) _ assms(2), of io "Some c"] obtain cl where
    cl: "ncbte_clear_region fuel io (Some r) (int 0) ?A (Some c) = Some (0, cl @ [?f])"
      "map snd (all_moves cl) = remote_dwords r 0 ALLOC_SIZE" "plain_stores REM_CLEAR cl" by auto
  have "?T AND 3 = 0" by (simp add: TRANS_SIZE_def)
  then have g: "copy_guard l (int 0) r (int 0) ?T"
    using b(3,5) TA(1) u(2) by (simp add: copy_guard_def in_region_def word_less_nat_alt)
  have z: "(0 :: nat) < 2 ^ 62" "(0 :: nat) mod 64 = 0 \<or> 64 - 0 mod 64 \<le> TRANS_SIZE" by simp_all
  have f: "TRANS_SIZE div 4 \<le> fuel" using TA(2) assms(2) by linarith
  note ex = transfer_exact [OF g, unfolded u, OF TA(3,4) z(1) z(1) b(4,6,1,2) z(2) f, of io _ "Some c", unfolded option.case]
  obtain w where w: "ncbte_transfer_region fuel io (Some l) (int 0) (Some r) (int 0) ?T REM_WRITE (Some c) = Some (0, w @ [?f])"
    "all_moves w = wanted l r 0 0 TRANS_SIZE" "plain_stores REM_WRITE w" using ex [of REM_WRITE] by blast
  obtain rd where rd: "ncbte_transfer_region fuel io (Some l) (int 0) (Some r) (int 0) ?T REM_READ (Some c) = Some (0, rd @ [?f])"
    "all_moves rd = wanted l r 0 0 TRANS_SIZE" "plain_stores REM_READ rd" using ex [of REM_READ] by blast
  have fence: "fenced opr st ?f" if "plain_stores opr st" for opr st
    using that by (simp add: fenced_def fence_btce_def)
  show ?thesis
  proof (rule that)
    show "ncbte_clear_region fuel io (Some r) 0 ?A (Some c) = Some (0, cl @ [?f])" using cl(1) by simp
    show "ncbte_write_region fuel io (Some l) 0 (Some r) 0 ?T (Some c) = Some (0, w @ [?f])"
      using w(1) g by (simp add: ncbte_write_region_def)
    show "ncbte_read_region fuel io (Some l) 0 (Some r) 0 ?T (Some c) = Some (0, rd @ [?f])"
      using rd(1) g by (simp add: ncbte_read_region_def)
    show "map snd (all_moves cl) = dwords r ALLOC_SIZE" using cl(2) by (simp add: remote_dwords_def dwords_def)
  qed (use w rd cl fence in simp_all)
qed

text \<open>The turn with the memory after each of its steps.\<close>

lemma turn_runs:
  assumes "buffers_ok l r" "ALLOC_SIZE div 4 \<le> fuel" "reads engine"
  obtains m1 m2 where "test_turn engine fuel io l r c m =
      Some (Inr (True, copies (wanted l r 0 0 TRANS_SIZE) m2))"
    and "clears engine \<Longrightarrow> m1 = foldl (\<lambda>m a. m(a := 0))
      (memset_movnti r 0x55 ALLOC_SIZE (memset_movnti l 0xaa ALLOC_SIZE m)) (dwords r ALLOC_SIZE)"
    and "writes engine \<Longrightarrow> m2 = copies (map prod.swap (wanted l r 0 0 TRANS_SIZE)) m1"
proof -
  obtain cl w rd f where q:
    "ncbte_clear_region fuel io (Some r) 0 (of_nat ALLOC_SIZE) (Some c) = Some (0, cl @ [f])"
    "ncbte_write_region fuel io (Some l) 0 (Some r) 0 (of_nat TRANS_SIZE) (Some c) = Some (0, w @ [f])"
    "ncbte_read_region fuel io (Some l) 0 (Some r) 0 (of_nat TRANS_SIZE) (Some c) = Some (0, rd @ [f])"
    "fenced REM_CLEAR cl f" "fenced REM_WRITE w f" "fenced REM_READ rd f"
    "map snd (all_moves cl) = dwords r ALLOC_SIZE" "all_moves w = wanted l r 0 0 TRANS_SIZE"
    "all_moves rd = wanted l r 0 0 TRANS_SIZE"
    by (rule test_queues [OF assms(1,2)]) (rule that)
  define m0 where "m0 = memset_movnti r 0x55 ALLOC_SIZE (memset_movnti l 0xaa ALLOC_SIZE m)"
  define m1 where "m1 = engine (cl @ [f]) m0"
  define m2 where "m2 = engine (w @ [f]) m1"
  have a: "apart l r" "TRANS_SIZE \<le> 4096 * nr_pages l" "TRANS_SIZE \<le> 4096 * nr_pages r"
    using assms(1) by (simp_all add: buffers_ok_def ALLOC_SIZE_def TRANS_SIZE_def)
  have m3: "engine (rd @ [f]) m2 = copies (wanted l r 0 0 TRANS_SIZE) m2"
    using lawsD(1) [OF assms(3) q(6)] by (simp only: q(9))
  have k: "dwords r TRANS_SIZE ! k \<notin> set (dwords l TRANS_SIZE)" if "k < TRANS_SIZE div 4" for k
    using disjoint_dwords [OF a] nth_mem [of k "dwords r TRANS_SIZE"] that by (auto simp: dwords_def [of r TRANS_SIZE])
  have "same_content l r TRANS_SIZE (copies (wanted l r 0 0 TRANS_SIZE) m2)"
    unfolding same_dwords using copies_regions(1,3) [OF a] k by simp
  then have "test_turn engine fuel io l r c m = Some (Inr (True, copies (wanted l r 0 0 TRANS_SIZE) m2))"
    by (simp add: test_turn_def run_queued_def q(1,2,3) Let_def m3
        flip: m0_def) (simp add: m1_def m2_def m3 [unfolded m1_def m2_def])
  moreover have "m1 = foldl (\<lambda>m a. m(a := 0)) m0 (dwords r ALLOC_SIZE)" if "clears engine"
    using lawsD(3) [OF that q(4)] by (simp only: q(7) m1_def)
  moreover have "m2 = copies (map prod.swap (wanted l r 0 0 TRANS_SIZE)) m1" if "writes engine"
    using lawsD(2) [OF that q(5)] by (simp only: q(8) m2_def)
  ultimately show ?thesis unfolding m0_def by (rule that)
qed

text \<open>
  C30: with an engine that carries out the descriptors as documented a turn of the test prints OK
  and leaves the pattern of the local buffer in the first 90 MB of both buffers and zeros in the
  rest of the remote one: the three transfers do all they should and nothing more.
\<close>

theorem bte_test_passes:
  assumes "buffers_ok l r" "ALLOC_SIZE div 4 \<le> fuel" "reads engine" "writes engine" "clears engine"
  shows "\<exists>m'. test_turn engine fuel io l r c m = Some (Inr (True, m')) \<and>
    (\<forall>a. m' a = (if a \<in> set (dwords l ALLOC_SIZE) \<or> a \<in> set (dwords r TRANS_SIZE) then 0xaa
                else if a \<in> set (dwords r ALLOC_SIZE) then 0 else m a))"
proof -
  have a: "apart l r" "TRANS_SIZE \<le> 4096 * nr_pages l" "TRANS_SIZE \<le> 4096 * nr_pages r"
    "ALLOC_SIZE \<le> 4096 * nr_pages l" "ALLOC_SIZE \<le> 4096 * nr_pages r"
    using assms(1) by (simp_all add: buffers_ok_def ALLOC_SIZE_def TRANS_SIZE_def)
  have sub: "set (dwords q TRANS_SIZE) \<subseteq> set (dwords q ALLOC_SIZE)" for q
    by (auto simp: dwords_def TRANS_SIZE_def ALLOC_SIZE_def)
  have dis: "set (dwords l ALLOC_SIZE) \<inter> set (dwords r ALLOC_SIZE) = {}"
    by (rule disjoint_dwords [OF a(1,4,5)])
  have len: "length (dwords q TRANS_SIZE) = TRANS_SIZE div 4" for q by (simp add: dwords_def)
  obtain m1 m2 where t: "test_turn engine fuel io l r c m = Some (Inr (True, copies (wanted l r 0 0 TRANS_SIZE) m2))"
    and m1: "m1 = foldl (\<lambda>m a. m(a := 0))
      (memset_movnti r 0x55 ALLOC_SIZE (memset_movnti l 0xaa ALLOC_SIZE m)) (dwords r ALLOC_SIZE)"
    and m2: "m2 = copies (map prod.swap (wanted l r 0 0 TRANS_SIZE)) m1"
    using assms(4,5) by (metis turn_runs [OF assms(1-3), of io c m])
  have v1: "m1 b = (if b \<in> set (dwords r ALLOC_SIZE) then 0 else if b \<in> set (dwords l ALLOC_SIZE) then 0xaa else m b)" for b
    by (simp add: m1 fill memset_fill)
  have at_l: "m1 (dwords l TRANS_SIZE ! k) = 0xaa" if "k < TRANS_SIZE div 4" for k
  proof -
    have "dwords l TRANS_SIZE ! k \<in> set (dwords l ALLOC_SIZE)"
      by (rule subsetD [OF sub]) (use that len in simp)
    moreover from this have "dwords l TRANS_SIZE ! k \<notin> set (dwords r ALLOC_SIZE)" using dis by blast
    ultimately show ?thesis by (simp add: v1)
  qed
  have v2: "m2 b = (if b \<in> set (dwords r TRANS_SIZE) then 0xaa else m1 b)" for b
  proof (cases "b \<in> set (dwords r TRANS_SIZE)")
    case True
    then obtain k where "k < TRANS_SIZE div 4" "b = dwords r TRANS_SIZE ! k" by (auto simp: in_set_conv_nth len)
    then show ?thesis using copies_regions(2) [OF a(1-3), of k m1] at_l True by (simp add: m2)
  qed (use copies_regions(4) [OF a(1-3), of b m1] in \<open>simp add: m2\<close>)
  have v3: "copies (wanted l r 0 0 TRANS_SIZE) m2 b = (if b \<in> set (dwords l TRANS_SIZE) then 0xaa else m2 b)" for b
  proof (cases "b \<in> set (dwords l TRANS_SIZE)")
    case True
    then obtain k where k: "k < TRANS_SIZE div 4" "b = dwords l TRANS_SIZE ! k" by (auto simp: in_set_conv_nth len)
    then have "m2 (dwords r TRANS_SIZE ! k) = 0xaa" using v2 nth_mem [of k "dwords r TRANS_SIZE"] by (simp add: len)
    then show ?thesis using copies_regions(1) [OF a(1-3) k(1), of m2] k(2) True by simp
  qed (use copies_regions(3) [OF a(1-3), of b m2] in simp)
  have "copies (wanted l r 0 0 TRANS_SIZE) m2 b =
      (if b \<in> set (dwords l ALLOC_SIZE) \<or> b \<in> set (dwords r TRANS_SIZE) then 0xaa
       else if b \<in> set (dwords r ALLOC_SIZE) then 0 else m b)" for b
    using sub [of l] sub [of r] dis by (auto simp: v3 v2 v1)
  then show ?thesis using t by blast
qed

text \<open>Buffers of 25600 pages each, at physical addresses from 4 GB and from 8 GB.\<close>

definition demo_buffer :: "u64 \<Rightarrow> ncbte_region" where
  "demo_buffer base =
     \<lparr>mem = \<lparr>addr = 0x7f0000000000, size = of_nat ALLOC_SIZE,
             phys_addr = map (\<lambda>i. base + of_nat (4096 * i)) [0..<25600]\<rparr>, bmp = {}, allocated = True\<rparr>"

lemma demo_page: "unat b \<le> 2 ^ 34 \<Longrightarrow> i < 25600 \<Longrightarrow> unat (b + of_nat (4096 * i) :: u64) = unat b + 4096 * i"
  by (intro unat_add_of_nat) simp

lemma demo_pages: "phys_addr (mem (demo_buffer b)) = map (\<lambda>i. b + of_nat (4096 * i)) [0..<25600]"
  by (simp add: demo_buffer_def)

lemma demo_pages_ok:
  assumes "unat b \<le> 2 ^ 34" "unat b mod 4096 = 0"
  shows "pages_ok (phys_addr (mem (demo_buffer b)))" "distinct (phys_addr (mem (demo_buffer b)))"
proof -
  have "unat p mod 4096 = 0 \<and> unat p + 4096 \<le> 2 ^ 48" if p: "p \<in> set (phys_addr (mem (demo_buffer b)))" for p
  proof -
    from p obtain i where i: "i < 25600" "p = b + of_nat (4096 * i)" unfolding demo_pages by auto
    have "unat p = unat b + 4096 * i" unfolding i(2) by (rule demo_page [OF assms(1) i(1)])
    then show ?thesis using assms i(1) by simp
  qed
  then show "pages_ok (phys_addr (mem (demo_buffer b)))" by (simp add: pages_ok_def demo_pages)
  have "inj_on (\<lambda>i. b + of_nat (4096 * i)) {0..<25600}"
  proof (rule inj_onI)
    fix i j :: nat assume ij: "i \<in> {0..<25600}" "j \<in> {0..<25600}" and e: "b + of_nat (4096 * i) = b + of_nat (4096 * j)"
    then have "unat b + 4096 * i = unat b + 4096 * j"
      using arg_cong [OF e, of unat] demo_page [OF assms(1), of i] demo_page [OF assms(1), of j]
      unfolding atLeastLessThan_iff by metis
    then show "i = j" by simp
  qed
  then show "distinct (phys_addr (mem (demo_buffer b)))" unfolding demo_pages distinct_map by simp
qed

lemma demo_buffers_ok: "buffers_ok (demo_buffer 0x100000000) (demo_buffer 0x200000000)"
proof -
  let ?l = "0x100000000 :: u64" and ?r = "0x200000000 :: u64"
  have u: "unat ?l = 0x100000000" "unat ?r = 0x200000000" by simp_all
  have b: "unat ?l \<le> 2 ^ 34" "unat ?l mod 4096 = 0" "unat ?r \<le> 2 ^ 34" "unat ?r mod 4096 = 0"
    unfolding u by simp_all
  have n: "nr_pages (demo_buffer x) = 25600" "unat (size (mem (demo_buffer x))) = ALLOC_SIZE" for x
    by (simp_all add: nr_pages_def demo_buffer_def ALLOC_SIZE_def)
  have "p \<notin> set (phys_addr (mem (demo_buffer ?r)))" if p: "p \<in> set (phys_addr (mem (demo_buffer ?l)))" for p
  proof
    assume q: "p \<in> set (phys_addr (mem (demo_buffer ?r)))"
    from p obtain i where i: "i < 25600" "p = ?l + of_nat (4096 * i)" unfolding demo_pages by auto
    from q obtain j where j: "j < 25600" "p = ?r + of_nat (4096 * j)" unfolding demo_pages by auto
    have "unat p = 0x100000000 + 4096 * i" using demo_page [OF b(1) i(1)] unfolding i(2) u .
    moreover have "unat p = 0x200000000 + 4096 * j" using demo_page [OF b(3) j(1)] unfolding j(2) u .
    ultimately show False using i(1) by linarith
  qed
  then have "apart (demo_buffer ?l) (demo_buffer ?r)"
    using demo_pages_ok [OF b(1,2)] demo_pages_ok [OF b(3,4)] by (auto simp only: apart_def distinct_append simp_thms)
  then show ?thesis by (simp add: buffers_ok_def n) (simp add: ALLOC_SIZE_def)
qed

lemma bte_test_passes_witness:
  "\<exists>m'. test_turn demo_engine 26214400 0x10000 (demo_buffer 0x100000000) (demo_buffer 0x200000000)
      \<lparr>fence_paddr = 0x5000, fence_addr = 0, queue_num = 0, chip_no = 0\<rparr> (\<lambda>_. 7) = Some (Inr (True, m'))"
proof -
  have "ALLOC_SIZE div 4 \<le> 26214400" by (simp add: ALLOC_SIZE_def)
  from bte_test_passes [OF demo_buffers_ok this demo_engine_laws] show ?thesis by blast
qed

text \<open>
  The comparison says nothing about the writes and clears: since the read copies the remote
  buffer over the local one, the test prints OK for every engine that reads correctly, even for
  one that loses all writes and clears.
\<close>

theorem lost_writes_unnoticed:
  assumes "buffers_ok l r" "ALLOC_SIZE div 4 \<le> fuel"
  shows "\<exists>m'. test_turn deaf_engine fuel io l r c m = Some (Inr (True, m'))"
  by (rule turn_runs [OF assms deaf_engine_reads, of io c m]) blast

end
