(* ===== verification/NodeOrder.thy ===== *)
theory NodeOrder
  imports CStrings
begin

text \<open>
  \<open>numaplace/libnumaplace.c\<close>: the first half of \<open>core_allocate\<close>: the distances of a node, as
  the kernel lists them in a line of text, are parsed into an array and sorted in place by
  insertion. The sort is the stable sort by distance, so nodes of equal distance keep their
  order.
\<close>

section \<open>The array of distances\<close>

record distance =
  node :: nat
  dist :: nat

definition MAX_NUMA :: nat where "MAX_NUMA = 1024"

text \<open>\<open>atoi\<close> into a byte.\<close>

definition byte_of :: "string \<Rightarrow> nat" where
  "byte_of p = nat (strtol10 p mod 256)"

lemma dropWhile_shorter: "dropWhile P p = x # q \<Longrightarrow> length q < length p"
  using length_dropWhile_le [of P p] by simp

function parse_dists :: "nat \<Rightarrow> string \<Rightarrow> distance list" where
  "parse_dists n p =
     \<lparr>node = n, dist = byte_of p\<rparr> #
     (case dropWhile (\<lambda>c. c \<noteq> CHR '' '') p of [] \<Rightarrow> [] | _ # q \<Rightarrow> parse_dists (n + 1) q)"
  by pat_completeness auto

termination parse_dists
  by (relation "measure (\<lambda>(n, p). length p)") (simp_all add: dropWhile_shorter)

declare parse_dists.simps [simp del]

text \<open>
  The loops of the sort: \<open>slide\<close> moves the entries above \<open>tmp\<close> up by one, from index \<open>j\<close>
  down, and puts \<open>tmp\<close> into the gap.
\<close>

fun slide :: "distance \<Rightarrow> nat \<Rightarrow> distance list \<Rightarrow> distance list" where
  "slide tmp 0 ds = ds[0 := tmp]"
| "slide tmp (Suc j) ds =
     (if dist tmp < dist (ds ! j) then slide tmp j (ds[Suc j := ds ! j]) else ds[Suc j := tmp])"

definition sort_dists :: "distance list \<Rightarrow> distance list" where
  "sort_dists ds = fold (\<lambda>i ds. slide (ds ! i) i ds) [1..<length ds] ds"

section \<open>The sort\<close>

text \<open>Insertion behind the entries that are not larger.\<close>

fun put :: "distance \<Rightarrow> distance list \<Rightarrow> distance list" where
  "put x [] = [x]"
| "put x (y # ys) = (if dist x < dist y then x # y # ys else y # put x ys)"

lemma put_snoc:
  assumes "sorted (map dist (ys @ [y]))"
  shows "put x (ys @ [y]) = (if dist x < dist y then put x ys @ [y] else ys @ [y, x])"
  using assms by (induction ys) (auto simp: sorted_append)

lemma slide_put:
  assumes "sorted (map dist xs)"
  shows "slide x (length xs) (xs @ y # zs) = put x xs @ zs"
  using assms
proof (induction xs arbitrary: y zs rule: rev_induct)
  case Nil
  then show ?case by simp
next
  case (snoc a xs)
  then have s: "sorted (map dist xs)" by (simp add: sorted_append)
  have "(xs @ a # y # zs)[Suc (length xs) := a] = xs @ a # a # zs"
    "(xs @ a # y # zs)[Suc (length xs) := x] = xs @ a # x # zs"
    by (simp_all add: list_update_append)
  with snoc.IH [OF s, of a "a # zs"] put_snoc [OF snoc.prems] show ?case by simp
qed

lemma put_sorted: "sorted (map dist xs) \<Longrightarrow> sorted (map dist (put x xs))"
proof (induction xs)
  case (Cons y ys)
  have "set (put x ys) = insert x (set ys)" by (induction ys) auto
  with Cons show ?case by auto
qed simp

text \<open>Putting the last of a list into the sorted rest sorts the list, stably.\<close>

lemma insort_put:
  assumes "sorted (map dist xs)"
  shows "insort_key dist a (put x xs) = put x (insort_key dist a xs)"
  using assms by (induction xs) auto

lemma put_sort_key: "put x (sort_key dist xs) = sort_key dist (xs @ [x])"
proof (induction xs)
  case (Cons a xs)
  have "put x (sort_key dist (a # xs)) = insort_key dist a (put x (sort_key dist xs))"
    by (simp add: insort_put)
  with Cons show ?case by simp
qed simp

lemma sort_dists_upto:
  assumes "n \<le> length ds" "0 < n"
  shows "fold (\<lambda>i ds. slide (ds ! i) i ds) [1..<n] ds = sort_key dist (take n ds) @ drop n ds"
  using assms
proof (induction n)
  case (Suc n)
  show ?case
  proof (cases "n = 0")
    case True
    then show ?thesis using Suc.prems by (cases ds) simp_all
  next
    case False
    then have n: "n \<le> length ds" "0 < n" "n < length ds" using Suc.prems by simp_all
    let ?s = "sort_key dist (take n ds)"
    have d: "drop n ds = ds ! n # drop (Suc n) ds" using n by (simp add: Cons_nth_drop_Suc)
    have l: "length ?s = n" using n by simp
    have "fold (\<lambda>i ds. slide (ds ! i) i ds) [1..<Suc n] ds = slide ((?s @ drop n ds) ! n) n (?s @ drop n ds)"
      using Suc.IH n by (simp add: less_Suc_eq_le)
    also have "\<dots> = slide (ds ! n) (length ?s) (?s @ ds ! n # drop (Suc n) ds)" using n by (simp add: d nth_append min_absorb2)
    also have "\<dots> = sort_key dist (take (Suc n) ds) @ drop (Suc n) ds"
      using n by (simp only: slide_put sorted_sort_key put_sort_key take_Suc_conv_app_nth)
    finally show ?thesis .
  qed
qed simp

lemma sort_dists_sort: "sort_dists ds = sort_key dist ds"
proof (cases "ds = []")
  case False
  then show ?thesis using sort_dists_upto [of "length ds" ds] by (simp add: sort_dists_def)
qed (simp add: sort_dists_def)

end
