(* ===== verification/CpuLists.thy ===== *)
theory CpuLists
  imports CStrings
begin

text \<open>
  \<open>numaplace/numaplace.cc\<close>: sets of cores and their text form in the files of the cpuset
  file system. \<open>List\<close> writes a set as ranges, \<open>string_to_mask\<close> reads them. The allocated
  buffer of a \<open>cpu_set_t\<close> has a size in bytes; the macros of the C library ignore cores
  beyond it.
\<close>

section \<open>Sets of cores\<close>

type_synonym cpu_set = "nat set"

definition CPU_SET_S :: "nat \<Rightarrow> nat \<Rightarrow> cpu_set \<Rightarrow> cpu_set" where
  "CPU_SET_S i sz A = (if i div 8 < sz then insert i A else A)"

definition CPU_CLR_S :: "nat \<Rightarrow> nat \<Rightarrow> cpu_set \<Rightarrow> cpu_set" where
  "CPU_CLR_S i sz A = (if i div 8 < sz then A - {i} else A)"

definition CPU_ISSET_S :: "nat \<Rightarrow> nat \<Rightarrow> cpu_set \<Rightarrow> bool" where
  "CPU_ISSET_S i sz A \<longleftrightarrow> i div 8 < sz \<and> i \<in> A"

definition CPU_ALLOC_SIZE :: "nat \<Rightarrow> nat" where
  "CPU_ALLOC_SIZE n = (n + 63) div 64 * 8"

section \<open>Reading\<close>

datatype op_t = op_set | op_clear

definition mask_op :: "op_t \<Rightarrow> nat \<Rightarrow> nat \<Rightarrow> cpu_set \<Rightarrow> cpu_set" where
  "mask_op op sz i A = (case op of op_set \<Rightarrow> CPU_SET_S i sz A | op_clear \<Rightarrow> CPU_CLR_S i sz A)"

text \<open>\<open>~0U\<close>\<close>

definition UMAX :: nat where "UMAX = 2 ^ 32 - 1"

text \<open>
  \<open>None\<close> is the loop \<open>for (i = a; i <= b; i++)\<close> that does not end when \<open>b\<close> is the largest
  unsigned number.
\<close>

function string_to_mask :: "op_t \<Rightarrow> nat \<Rightarrow> string \<Rightarrow> cpu_set \<Rightarrow> cpu_set option" where
  "string_to_mask op sz str m =
     (let (a, str) = strtoul str; a = a mod 2 ^ 32
      in case (if str \<noteq> [] \<and> hd str = CHR ''-''
               then let (b, str) = strtoul (tl str); b = b mod 2 ^ 32
                    in if b = UMAX then None else Some (fold (mask_op op sz) [a..<Suc b] m, str)
               else Some (mask_op op sz a m, str)) of
           None \<Rightarrow> None
         | Some (m, str) \<Rightarrow>
             if str \<noteq> [] \<and> hd str = CHR '','' then string_to_mask op sz (tl str) m else Some m)"
  by pat_completeness auto

lemma strtoul_shrinks:
  assumes "(a, r) = strtoul s" "r \<noteq> []"
  shows "length r - Suc 0 < length s"
    "strtoul (tl r) = (b, r') \<Longrightarrow> r' \<noteq> [] \<Longrightarrow> length r' - Suc 0 < length s"
proof -
  have "length r \<le> length s" using strtoul_length [OF assms(1) [symmetric]] .
  with assms(2) show l: "length r - Suc 0 < length s" by (cases r) simp_all
  show "length r' - Suc 0 < length s" if "strtoul (tl r) = (b, r')" "r' \<noteq> []"
    using strtoul_length [OF that(1)] l by simp
qed

termination string_to_mask
  by (relation "measure (\<lambda>(op, sz, s, m). length s)")
    (auto simp: Let_def strtoul_shrinks split: if_splits prod.splits)

declare string_to_mask.simps [simp del]

section \<open>Writing\<close>

record clist =
  c_str :: string
  range_start :: nat
  range_end :: nat
  first_elem :: bool

definition empty_list :: clist where
  "empty_list = \<lparr>c_str = [], range_start = UMAX, range_end = UMAX, first_elem = True\<rparr>"

definition range_str :: "nat \<times> nat \<Rightarrow> string" where
  "range_str r = (if fst r = snd r then show_u (fst r) else show_u (fst r) @ ''-'' @ show_u (snd r))"

text \<open>\<open>List::add\<close>; \<open>None\<close> is the failing assertion on the length of the text.\<close>

definition list_add :: "nat \<Rightarrow> clist \<Rightarrow> clist option" where
  "list_add next l =
     (if range_start l = UMAX then Some (l\<lparr>range_start := next, range_end := next\<rparr>)
      else if next = (range_end l + 1) mod 2 ^ 32 then Some (l\<lparr>range_end := next\<rparr>)
      else let l = l\<lparr>c_str := c_str l @ (if first_elem l then [] else '','') @
                     range_str (range_start l, range_end l), first_elem := False\<rparr>
           in if length (c_str l) < 20480 then Some (l\<lparr>range_start := next, range_end := next\<rparr>) else None)"

fun list_adds :: "nat list \<Rightarrow> clist \<Rightarrow> clist option" where
  "list_adds [] l = Some l"
| "list_adds (x # xs) l = (case list_add x l of None \<Rightarrow> None | Some l \<Rightarrow> list_adds xs l)"

definition list_add_cpus :: "nat \<Rightarrow> cpu_set \<Rightarrow> nat \<Rightarrow> clist \<Rightarrow> clist option" where
  "list_add_cpus sz A lim l = list_adds (filter (\<lambda>i. CPU_ISSET_S i sz A) [0..<lim]) l"

definition list_str :: "clist \<Rightarrow> string option" where
  "list_str l = map_option c_str (list_add UMAX l)"

section \<open>What a list of ranges means\<close>

definition covers :: "(nat \<times> nat) list \<Rightarrow> nat set" where
  "covers rs = (\<Union>r\<in>set rs. {fst r..snd r})"

fun render :: "(nat \<times> nat) list \<Rightarrow> string" where
  "render [] = []"
| "render [r] = range_str r"
| "render (r # rs) = range_str r @ '','' @ render rs"

lemma covers_simps [simp]: "covers [] = {}" "covers (r # rs) = {fst r..snd r} \<union> covers rs"
  "covers (rs @ qs) = covers rs \<union> covers qs"
  by (auto simp: covers_def)

lemma render_snoc: "render (rs @ [r]) = render rs @ (if rs = [] then [] else '','') @ range_str r"
  by (induction rs rule: render.induct) simp_all

lemma render_Cons: "rs \<noteq> [] \<Longrightarrow> render (r # rs) = range_str r @ '','' @ render rs"
  by (cases rs) simp_all

section \<open>Reading what was written\<close>

definition mask_ops :: "op_t \<Rightarrow> nat \<Rightarrow> nat set \<Rightarrow> cpu_set \<Rightarrow> cpu_set" where
  "mask_ops op sz X A = (case op of
     op_set \<Rightarrow> A \<union> {i \<in> X. i div 8 < sz} | op_clear \<Rightarrow> A - {i \<in> X. i div 8 < sz})"

lemma mask_ops_compose: "mask_ops op sz Y (mask_ops op sz X A) = mask_ops op sz (X \<union> Y) A"
  by (cases op) (auto simp: mask_ops_def)

lemma mask_op_ops: "mask_op op sz i A = mask_ops op sz {i} A"
  by (cases op) (auto simp: mask_op_def mask_ops_def CPU_SET_S_def CPU_CLR_S_def)

lemma fold_mask_op: "fold (mask_op op sz) xs A = mask_ops op sz (set xs) A"
proof (induction xs arbitrary: A)
  case Nil
  then show ?case by (cases op) (auto simp: mask_ops_def)
next
  case (Cons x xs)
  then show ?case by (simp add: mask_op_ops mask_ops_compose)
qed

text \<open>What may follow a number in a list.\<close>

definition ends :: "string \<Rightarrow> bool" where
  "ends r \<longleftrightarrow> r = [] \<or> \<not> isdigit (hd r) \<and> hd r \<noteq> CHR ''-''"

lemma read_range:
  assumes r: "fst r \<le> snd r" "snd r < UMAX" and e: "ends rest"
  shows "string_to_mask op sz (range_str r @ rest) A =
    (if rest \<noteq> [] \<and> hd rest = CHR '','' then string_to_mask op sz (tl rest) (mask_ops op sz {fst r..snd r} A)
     else Some (mask_ops op sz {fst r..snd r} A))"
proof -
  have lt: "fst r < 2 ^ 64" "snd r < 2 ^ 64" "fst r mod 2 ^ 32 = fst r" "snd r mod 2 ^ 32 = snd r"
    using r by (simp_all add: UMAX_def)
  have nd: "\<not> isdigit CHR ''-''" by (simp add: isdigit_def)
  show ?thesis
  proof (cases "fst r = snd r")
    case True
    have "rest = [] \<or> \<not> isdigit (hd rest)" using e by (auto simp: ends_def)
    note rd = strtoul_show_u [OF lt(1) this]
    have h: "(rest \<noteq> [] \<and> hd rest = CHR ''-'') = False" using e by (auto simp: ends_def)
    have eq: "range_str r @ rest = show_u (fst r) @ rest" using True by (simp add: range_str_def)
    have m: "mask_op op sz (fst r) A = mask_ops op sz {fst r..snd r} A" by (simp add: mask_op_ops True)
    show ?thesis
      unfolding eq string_to_mask.simps [of op sz "show_u (fst r) @ rest"]
      by (simp only: rd prod.case Let_def lt h m if_False option.case)
  next
    case False
    have "rest = [] \<or> \<not> isdigit (hd rest)" using e by (auto simp: ends_def)
    note rd2 = strtoul_show_u [OF lt(2) this]
    have rd1: "strtoul (show_u (fst r) @ CHR ''-'' # show_u (snd r) @ rest) = (fst r, CHR ''-'' # show_u (snd r) @ rest)"
      by (rule strtoul_show_u [OF lt(1)]) (simp add: nd)
    have m: "fold (mask_op op sz) [fst r..<Suc (snd r)] A = mask_ops op sz {fst r..snd r} A"
      unfolding fold_mask_op by (simp only: set_upt atLeastLessThanSuc_atLeastAtMost)
    have eq: "range_str r @ rest = show_u (fst r) @ CHR ''-'' # show_u (snd r) @ rest"
      using False by (simp add: range_str_def)
    have u: "(snd r = UMAX) = False" using r(2) by simp
    show ?thesis
      unfolding eq string_to_mask.simps [of op sz "show_u (fst r) @ CHR ''-'' # show_u (snd r) @ rest"]
      by (simp only: u rd1 prod.case Let_def lt m append_Cons append_Nil list.sel rd2 list.simps simp_thms if_True
        if_False option.case)
  qed
qed

lemma read_render:
  assumes "rs \<noteq> []" "\<forall>r\<in>set rs. fst r \<le> snd r \<and> snd r < UMAX" "ends rest" "rest = [] \<or> hd rest \<noteq> CHR '',''"
  shows "string_to_mask op sz (render rs @ rest) A = Some (mask_ops op sz (covers rs) A)"
  using assms
proof (induction rs arbitrary: A rule: render.induct)
  case 1
  then show ?case by simp
next
  case (2 r)
  then show ?case using read_range [of r rest op sz A] by auto
next
  case (3 r q rs)
  have e: "ends ('','' @ render (q # rs) @ rest)" by (simp add: ends_def isdigit_def)
  have "string_to_mask op sz (range_str r @ '','' @ render (q # rs) @ rest) A =
      string_to_mask op sz (render (q # rs) @ rest) (mask_ops op sz {fst r..snd r} A)"
    using read_range [OF _ _ e, of r op sz A] 3(3) by simp
  with 3 show ?case by (simp add: mask_ops_compose)
qed

section \<open>What is written\<close>

text \<open>
  The text so far and the open range stand for the numbers added. Every number takes at most
  10/3 characters: the worst case are ranges of two numbers of four digits, one number apart.
\<close>

definition list_inv :: "clist \<Rightarrow> (nat \<times> nat) list \<Rightarrow> nat set \<Rightarrow> bool" where
  "list_inv l rs X \<longleftrightarrow> c_str l = render rs \<and> first_elem l = (rs = []) \<and>
     range_start l \<le> range_end l \<and> range_end l < 6141 \<and>
     (\<forall>r\<in>set rs. fst r \<le> snd r \<and> snd r < UMAX) \<and>
     covers rs \<union> {range_start l..range_end l} = X \<and> 3 * length (c_str l) \<le> 10 * range_start l"

lemma range_str_length:
  assumes "a \<le> b" "b < 6141"
  shows "length (range_str (a, b)) \<le> (if a = b then 4 else 9)"
  using show_u_length [of a 4] show_u_length [of b 4] assms by (simp add: range_str_def)

lemma flush_length:
  assumes inv: "list_inv l rs X"
  defines "t \<equiv> c_str l @ (if first_elem l then [] else '','') @ range_str (range_start l, range_end l)"
  shows "t = render (rs @ [(range_start l, range_end l)])" "3 * length t \<le> 10 * (range_end l + 2)" "length t < 20480"
proof -
  from inv have i: "c_str l = render rs" "first_elem l = (rs = [])" "range_start l \<le> range_end l"
    "range_end l < 6141" "3 * length (c_str l) \<le> 10 * range_start l" unfolding list_inv_def by blast+
  show "t = render (rs @ [(range_start l, range_end l)])" by (simp add: t_def i render_snoc)
  have "length t \<le> length (c_str l) + 1 + length (range_str (range_start l, range_end l))"
    by (simp add: t_def)
  also have "\<dots> \<le> length (c_str l) + (if range_start l = range_end l then 5 else 10)"
    using range_str_length [OF i(3,4)] by (simp split: if_splits)
  finally have "3 * length t \<le> 3 * length (c_str l) + (if range_start l = range_end l then 15 else 30)"
    by (simp split: if_splits)
  with i(3,5) show "3 * length t \<le> 10 * (range_end l + 2)" by (simp split: if_splits)
  with i(4) show "length t < 20480" by simp
qed

lemma list_add_inv:
  assumes inv: "list_inv l rs X" and x: "range_end l < x" "x < 6141"
  obtains l' rs' where "list_add x l = Some l'" "list_inv l' rs' (insert x X)" "range_end l' = x"
proof -
  from inv have i: "range_start l \<le> range_end l" "range_end l < 6141"
    "\<forall>r\<in>set rs. fst r \<le> snd r \<and> snd r < UMAX" "covers rs \<union> {range_start l..range_end l} = X"
    by (simp_all add: list_inv_def)
  have u: "range_start l \<noteq> UMAX" "(range_end l + 1) mod 2 ^ 32 = range_end l + 1" "range_end l < UMAX"
    using i(1,2) by (simp_all add: UMAX_def)
  show ?thesis
  proof (cases "x = range_end l + 1")
    case True
    have "insert x X = covers rs \<union> {range_start l..x}" using i(1,4) True by auto
    with True inv u x show ?thesis
      by (intro that [of "l\<lparr>range_end := x\<rparr>" rs]) (auto simp: list_add_def list_inv_def)
  next
    case False
    let ?t = "c_str l @ (if first_elem l then [] else '','') @ range_str (range_start l, range_end l)"
    let ?l = "l\<lparr>c_str := ?t, first_elem := False, range_start := x, range_end := x\<rparr>"
    note fl = flush_length [OF inv]
    have "list_add x l = Some ?l" using u False fl(3) by (simp add: list_add_def Let_def)
    moreover have "list_inv ?l (rs @ [(range_start l, range_end l)]) (insert x X)"
      using fl(1,2) i u(3) x False unfolding list_inv_def by auto
    ultimately show ?thesis by (rule that) simp
  qed
qed

lemma list_adds_inv:
  assumes "list_inv l rs X" "sorted_wrt (<) (range_end l # xs)" "\<forall>x\<in>set xs. x < 6141"
  obtains l' rs' where "list_adds xs l = Some l'" "list_inv l' rs' (X \<union> set xs)"
  using assms
proof (induction xs arbitrary: l rs X thesis)
  case Nil
  then show ?case by simp
next
  case (Cons x xs)
  from Cons.prems(3,4) have x: "range_end l < x" "x < 6141" by auto
  from list_add_inv [OF Cons.prems(2) x] obtain l' rs' where
    l': "list_add x l = Some l'" "list_inv l' rs' (insert x X)" "range_end l' = x" .
  have "sorted_wrt (<) (range_end l' # xs)" "\<forall>x\<in>set xs. x < 6141" using Cons.prems(3,4) l'(3) by auto
  from Cons.IH [OF _ l'(2) this] obtain l2 rs2 where
    "list_adds xs l' = Some l2" "list_inv l2 rs2 (insert x X \<union> set xs)" by blast
  then show ?case using l'(1) by (intro Cons.prems(1) [of l2 rs2]) simp_all
qed

text \<open>The text of a set of cores; of the empty set it is empty.\<close>

lemma list_of_cpus:
  fixes A :: cpu_set and sz lim :: nat
  assumes "lim \<le> 6141"
  defines "X \<equiv> {i \<in> A. i < lim \<and> i div 8 < sz}"
  obtains l s rs where "list_add_cpus sz A lim empty_list = Some l" "list_str l = Some s" "s = render rs"
    "\<forall>r\<in>set rs. fst r \<le> snd r \<and> snd r < UMAX" "covers rs = X" "rs = [] \<longleftrightarrow> X = {}"
proof -
  let ?xs = "filter (\<lambda>i. CPU_ISSET_S i sz A) [0..<lim]"
  have X: "set ?xs = X" by (auto simp: X_def CPU_ISSET_S_def)
  show ?thesis
  proof (cases ?xs)
    case Nil
    with X show ?thesis
      by (intro that [of empty_list "[]" "[]"])
        (simp_all add: list_add_cpus_def list_str_def list_add_def empty_list_def)
  next
    case (Cons x xs)
    have s: "sorted_wrt (<) (x # xs)" unfolding Cons [symmetric] by (rule sorted_wrt_filter) simp
    have b: "\<forall>y\<in>set (x # xs). y < 6141" unfolding Cons [symmetric] using assms(1) by auto
    let ?l0 = "empty_list\<lparr>range_start := x, range_end := x\<rparr>"
    have "list_inv ?l0 [] {x}" using b by (simp add: list_inv_def empty_list_def)
    from list_adds_inv [OF this, of xs] s b obtain l rs where
      l: "list_adds xs ?l0 = Some l" "list_inv l rs ({x} \<union> set xs)" by auto
    have "list_add_cpus sz A lim empty_list = Some l"
      unfolding list_add_cpus_def Cons using l(1) by (simp add: list_add_def empty_list_def)
    moreover note fl = flush_length [OF l(2)]
    from l(2) have i: "range_start l \<le> range_end l" "range_end l < 6141"
      "\<forall>r\<in>set rs. fst r \<le> snd r \<and> snd r < UMAX" "covers rs \<union> {range_start l..range_end l} = X"
      unfolding list_inv_def X [symmetric] Cons by auto
    have "list_str l = Some (render (rs @ [(range_start l, range_end l)]))"
      using i(1,2) fl(1,3) by (simp add: list_str_def list_add_def UMAX_def Let_def)
    ultimately show ?thesis
      by (rule that [OF _ _ refl]) (use i in \<open>auto simp: UMAX_def\<close>)
  qed
qed

section \<open>The text of a set is read as that set\<close>

lemma strtoul_blank: "rest = [] \<or> rest = [CHR 0x0A] \<Longrightarrow> strtoul rest = (0, rest)"
  by (auto simp: strtoul_def sign_of_def isspace_def)

lemma read_blank:
  assumes "rest = [] \<or> rest = [CHR 0x0A]"
  shows "string_to_mask op sz rest M = Some (mask_ops op sz {0} M)"
  using assms strtoul_blank [OF assms]
  by (auto simp: string_to_mask.simps [of op sz rest] mask_op_ops)

lemma cpuset_text_reads:
  fixes A M :: cpu_set and sz lim :: nat
  assumes lim: "lim \<le> 6141" and rest: "rest = [] \<or> rest = [CHR 0x0A]"
  defines "X \<equiv> {i \<in> A. i < lim \<and> i div 8 < sz}"
  shows "\<exists>l s. list_add_cpus sz A lim empty_list = Some l \<and> list_str l = Some s \<and>
    string_to_mask op sz (s @ rest) M = Some (mask_ops op sz (if X = {} then {0} else X) M)"
proof -
  obtain l s rs where l: "list_add_cpus sz A lim empty_list = Some l" "list_str l = Some s" "s = render rs"
    and rs: "\<forall>r\<in>set rs. fst r \<le> snd r \<and> snd r < UMAX" "covers rs = X" "rs = [] \<longleftrightarrow> X = {}"
    unfolding X_def by (rule list_of_cpus [where A = A and sz = sz, OF lim])
  have e: "ends rest" "rest = [] \<or> hd rest \<noteq> CHR '',''" using rest by (auto simp: ends_def isdigit_def)
  have "string_to_mask op sz (s @ rest) M = Some (mask_ops op sz (if X = {} then {0} else X) M)"
  proof (cases "rs = []")
    case True
    then show ?thesis using read_blank [OF rest] l(3) rs(3) by simp
  next
    case False
    then show ?thesis using read_render [OF False rs(1) e] l(3) rs(2,3) by simp
  qed
  with l show ?thesis by blast
qed

section \<open>Properties\<close>

text \<open>
  C23: The text \<open>List\<close> makes of the cores below \<open>lim\<close> in a set is accepted by the length
  check when \<open>lim\<close> is at most 6141, and \<open>string_to_mask\<close>, reading it back with or without the
  newline of the kernel, sets or clears exactly these cores. The text of no core at all is the
  exception: it is read as core 0.
\<close>

theorem cpuset_list_roundtrip:
  fixes A M :: cpu_set and sz lim :: nat
  assumes "lim \<le> 6141" and "rest = [] \<or> rest = [CHR 0x0A]"
  defines "X \<equiv> {i \<in> A. i < lim \<and> i div 8 < sz}"
  shows "\<exists>l s. list_add_cpus sz A lim empty_list = Some l \<and> list_str l = Some s \<and>
    string_to_mask op sz (s @ rest) M = Some (mask_ops op sz (if X = {} then {0} else X) M)"
  using cpuset_text_reads [OF assms(1,2)] unfolding X_def .

lemma cpuset_list_roundtrip_witness:
  "\<exists>l s. list_add_cpus 8 {1, 2, 3, 7} 64 empty_list = Some l \<and> list_str l = Some s \<and>
    string_to_mask op_clear 8 (s @ [CHR 0x0A]) {0..9} = Some {0, 4, 5, 6, 8, 9}"
proof -
  have X: "{i \<in> {1, 2, 3, 7 :: nat}. i < 64 \<and> i div 8 < 8} = {1, 2, 3, 7}" by auto
  have m: "mask_ops op_clear 8 {1, 2, 3, 7} {0..9} = {0, 4, 5, 6, 8, 9}" by (auto simp: mask_ops_def)
  show ?thesis
    using cpuset_list_roundtrip [where lim = 64 and rest = "[CHR 0x0A]" and A = "{1, 2, 3, 7}" and sz = 8
        and op = op_clear and M = "{0..9}"]
    unfolding X by (simp add: m del: One_nat_def)
qed

end
