(* ===== verification/CorePlace.thy ===== *)
theory CorePlace
  imports NodeOrder CpuLists
begin

text \<open>
  \<open>numaplace/libnumaplace.c\<close>: placing threads on cores. A core is taken by binding a socket to
  a name made of its number, which only one socket of the machine can have; each process also
  keeps a set of the cores it occupies. The state holds all processes with their open
  descriptors; the NUMA library and the distance files are parameters.
\<close>

section \<open>Processes and descriptors\<close>

text \<open>An entry of the table of open files: closed, a socket bound to a core, or something else.\<close>

datatype fd_entry = Closed | Sock nat | Other

record thread_info =
  info_fd :: nat
  info_core :: nat

record proc =
  fds :: "fd_entry list"
  occupied :: "nat set"
  lastcore :: nat
  threads :: "thread_info list"

type_synonym world = "proc list"

text \<open>The machine: the node of a core, the cores of a node in order, the distance files.\<close>

record topology =
  numa_node_of_cpu :: "nat \<Rightarrow> nat option"
  numa_node_to_cpus :: "nat \<Rightarrow> nat list"
  distance_text :: "nat \<Rightarrow> string"

definition MASK_BYTES :: nat where "MASK_BYTES = 1024"

definition core_bound :: "world \<Rightarrow> nat \<Rightarrow> bool" where
  "core_bound w c \<longleftrightarrow> (\<exists>p\<in>set w. Sock c \<in> set (fds p))"

text \<open>\<open>socket\<close> takes the lowest descriptor that is closed.\<close>

fun first_closed :: "fd_entry list \<Rightarrow> nat" where
  "first_closed [] = 0"
| "first_closed (Closed # fs) = 0"
| "first_closed (f # fs) = Suc (first_closed fs)"

definition open_at :: "nat \<Rightarrow> fd_entry \<Rightarrow> fd_entry list \<Rightarrow> fd_entry list" where
  "open_at fd f fs = (if fd < length fs then fs[fd := f] else fs @ [f])"

definition close_fd :: "nat \<Rightarrow> proc \<Rightarrow> proc" where
  "close_fd fd p = (if fd < length (fds p) then p\<lparr>fds := (fds p)[fd := Closed]\<rparr> else p)"

section \<open>Taking a core\<close>

text \<open>\<open>lock_core\<close>: the new descriptor, or nothing when the name is in use.\<close>

definition lock_core :: "world \<Rightarrow> nat \<Rightarrow> nat \<Rightarrow> (nat \<times> world) option" where
  "lock_core w i core =
     (let p = w ! i; fd = first_closed (fds p)
      in if core_bound w core then None
         else Some (fd, w[i := p\<lparr>fds := open_at fd (Sock core) (fds p)\<rparr>]))"

definition lock_core_outer :: "world \<Rightarrow> nat \<Rightarrow> nat \<Rightarrow> (thread_info \<times> world) option" where
  "lock_core_outer w i core =
     (if \<not> CPU_ISSET_S core MASK_BYTES (occupied (w ! i))
      then case lock_core w i core of
             None \<Rightarrow> None
           | Some (fd, w) \<Rightarrow>
               Some (\<lparr>info_fd = fd, info_core = core\<rparr>,
                     w[i := (w ! i)\<lparr>occupied := CPU_SET_S core MASK_BYTES (occupied (w ! i))\<rparr>])
      else None)"

text \<open>The first core of a list that can be taken.\<close>

fun try_cores :: "world \<Rightarrow> nat \<Rightarrow> nat list \<Rightarrow> (thread_info \<times> world) option" where
  "try_cores w i [] = None"
| "try_cores w i (c # cs) =
     (case lock_core_outer w i c of
        None \<Rightarrow> try_cores w i cs
      | Some (info, w) \<Rightarrow> Some (info, w[i := (w ! i)\<lparr>lastcore := c\<rparr>]))"

text \<open>The line is read into a buffer of 4 characters per node and ends where the newline was.\<close>

definition near_nodes :: "topology \<Rightarrow> nat \<Rightarrow> distance list" where
  "near_nodes t n = sort_dists (parse_dists 0 (butlast (take (MAX_NUMA * 4) (distance_text t n))))"

text \<open>\<open>None\<close> is the failing assertion on the node of the core picked last.\<close>

definition core_allocate :: "topology \<Rightarrow> world \<Rightarrow> nat \<Rightarrow> (thread_info \<times> world) option option" where
  "core_allocate t w i =
     (case numa_node_of_cpu t (lastcore (w ! i)) of
        None \<Rightarrow> None
      | Some n \<Rightarrow> Some (try_cores w i (concat (map (\<lambda>d. numa_node_to_cpus t (node d)) (near_nodes t n)))))"

section \<open>Threads\<close>

text \<open>\<open>core_deallocate\<close>, the destructor that runs when a thread ends.\<close>

definition core_deallocate :: "world \<Rightarrow> nat \<Rightarrow> thread_info \<Rightarrow> world" where
  "core_deallocate w i info =
     w[i := (let p = close_fd (info_fd info) (w ! i)
             in p\<lparr>occupied := CPU_CLR_S (info_core info) MASK_BYTES (occupied p)\<rparr>)]"

text \<open>
  The part of \<open>pthread_create\<close> that places the thread. The record comes from \<open>malloc\<close>: when
  no core is free, its core and descriptor stay what they were, \<open>junk\<close>.
\<close>

definition pthread_create :: "topology \<Rightarrow> world \<Rightarrow> nat \<Rightarrow> thread_info \<Rightarrow> world option" where
  "pthread_create t w i junk =
     (case core_allocate t w i of
        None \<Rightarrow> None
      | Some None \<Rightarrow> Some (w[i := (w ! i)\<lparr>threads := threads (w ! i) @ [junk]\<rparr>])
      | Some (Some (info, w)) \<Rightarrow> Some (w[i := (w ! i)\<lparr>threads := threads (w ! i) @ [info]\<rparr>]))"

definition thread_exit :: "world \<Rightarrow> nat \<Rightarrow> nat \<Rightarrow> world" where
  "thread_exit w i k =
     (let p = w ! i; info = threads p ! k
      in core_deallocate (w[i := p\<lparr>threads := take k (threads p) @ drop (Suc k) (threads p)\<rparr>]) i info)"

text \<open>A process starts with its standard files and ends with all its files closed.\<close>

definition new_proc :: proc where
  "new_proc = \<lparr>fds = [Other, Other, Other], occupied = {}, lastcore = 0, threads = []\<rparr>"

datatype event = Start | Create nat thread_info | Finish nat nat | End nat

fun do_event :: "topology \<Rightarrow> event \<Rightarrow> world \<Rightarrow> world option" where
  "do_event t Start w = Some (w @ [new_proc])"
| "do_event t (Create i junk) w = (if i < length w then pthread_create t w i junk else None)"
| "do_event t (Finish i k) w = (if i < length w \<and> k < length (threads (w ! i)) then Some (thread_exit w i k) else None)"
| "do_event t (End i) w = (if i < length w then Some (w[i := \<lparr>fds = [], occupied = {}, lastcore = 0, threads = []\<rparr>]) else None)"

section \<open>The core that is taken\<close>

definition lockable :: "world \<Rightarrow> nat \<Rightarrow> nat \<Rightarrow> bool" where
  "lockable w i c \<longleftrightarrow> \<not> CPU_ISSET_S c MASK_BYTES (occupied (w ! i)) \<and> \<not> core_bound w c"

definition take_core :: "world \<Rightarrow> nat \<Rightarrow> nat \<Rightarrow> world" where
  "take_core w i c =
     w[i := (w ! i)\<lparr>fds := open_at (first_closed (fds (w ! i))) (Sock c) (fds (w ! i)),
       occupied := CPU_SET_S c MASK_BYTES (occupied (w ! i)), lastcore := c\<rparr>]"

definition the_info :: "world \<Rightarrow> nat \<Rightarrow> nat \<Rightarrow> thread_info" where
  "the_info w i c = \<lparr>info_fd = first_closed (fds (w ! i)), info_core = c\<rparr>"

lemma lock_core_outer_eq:
  assumes "i < length w"
  shows "lock_core_outer w i c =
    (if lockable w i c then Some (the_info w i c, (take_core w i c)[i := (take_core w i c ! i)\<lparr>lastcore := lastcore (w ! i)\<rparr>])
     else None)"
  using assms by (simp add: lock_core_outer_def lock_core_def lockable_def take_core_def the_info_def Let_def)

lemma try_cores_find:
  assumes "i < length w"
  shows "try_cores w i cs =
    (case find (lockable w i) cs of None \<Rightarrow> None | Some c \<Rightarrow> Some (the_info w i c, take_core w i c))"
proof (induction cs)
  case (Cons c cs)
  have "(take_core w i c)[i := (take_core w i c ! i)\<lparr>lastcore := lastcore (w ! i)\<rparr>,
      i := ((take_core w i c)[i := (take_core w i c ! i)\<lparr>lastcore := lastcore (w ! i)\<rparr>] ! i)\<lparr>lastcore := c\<rparr>] = take_core w i c"
    using assms by (simp add: take_core_def)
  with Cons show ?case by (simp add: lock_core_outer_eq [OF assms])
qed simp




section \<open>One core, one thread\<close>

text \<open>
  A name is bound by at most one descriptor of one process; every thread holds the socket of
  its core, and no two threads of a process the same descriptor.
\<close>

definition names_ok :: "world \<Rightarrow> bool" where
  "names_ok w \<longleftrightarrow> (\<forall>i j f g c. i < length w \<longrightarrow> j < length w \<longrightarrow> f < length (fds (w ! i)) \<longrightarrow> g < length (fds (w ! j)) \<longrightarrow>
     fds (w ! i) ! f = Sock c \<longrightarrow> fds (w ! j) ! g = Sock c \<longrightarrow> i = j \<and> f = g)"

definition holds_core :: "proc \<Rightarrow> thread_info \<Rightarrow> bool" where
  "holds_core p info \<longleftrightarrow> info_fd info < length (fds p) \<and> fds p ! info_fd info = Sock (info_core info)"

definition threads_ok :: "proc \<Rightarrow> bool" where
  "threads_ok p \<longleftrightarrow> distinct (map info_fd (threads p)) \<and> (\<forall>info\<in>set (threads p). holds_core p info)"

definition world_ok :: "world \<Rightarrow> bool" where
  "world_ok w \<longleftrightarrow> names_ok w \<and> (\<forall>p\<in>set w. threads_ok p)"

lemma first_closed_bound: "first_closed fs < length fs \<Longrightarrow> fs ! first_closed fs = Closed"
  by (induction fs rule: first_closed.induct) auto

lemma first_closed_le: "first_closed fs \<le> length fs"
  by (induction fs rule: first_closed.induct) auto

lemma open_first_nth:
  "f < length (open_at (first_closed fs) x fs) \<Longrightarrow>
    open_at (first_closed fs) x fs ! f = (if f = first_closed fs then x else fs ! f)"
  "f < length (open_at (first_closed fs) x fs) \<Longrightarrow> f \<noteq> first_closed fs \<Longrightarrow> f < length fs"
  "first_closed fs < length (open_at (first_closed fs) x fs)"
  using first_closed_le [of fs] by (auto simp: open_at_def nth_append split: if_splits)

lemma names_ok_update:
  assumes w: "names_ok w" and i: "i < length w"
    and p: "\<And>f c. f < length (fds p) \<Longrightarrow> fds p ! f = Sock c \<Longrightarrow>
      f < length (fds (w ! i)) \<and> fds (w ! i) ! f = Sock c \<or> f = new \<and> \<not> core_bound w c"
  shows "names_ok (w[i := p])"
proof -
  have unbound: False if "\<not> core_bound w c" "j < length w" "g < length (fds (w ! j))" "fds (w ! j) ! g = Sock c" for c j g
    using that by (auto simp: core_bound_def) (metis nth_mem)
  show ?thesis
    unfolding names_ok_def
  proof (intro allI impI)
    fix a b f g c
    assume l: "a < length (w[i := p])" "b < length (w[i := p])" "f < length (fds (w[i := p] ! a))" "g < length (fds (w[i := p] ! b))"
      and s: "fds (w[i := p] ! a) ! f = Sock c" "fds (w[i := p] ! b) ! g = Sock c"
    have old: "a < length w \<and> f < length (fds (w ! a)) \<and> fds (w ! a) ! f = Sock c \<or> a = i \<and> f = new \<and> \<not> core_bound w c"
      using l s p [of f c] by (cases "a = i") auto
    have "b < length w \<and> g < length (fds (w ! b)) \<and> fds (w ! b) ! g = Sock c \<or> b = i \<and> g = new \<and> \<not> core_bound w c"
      using l s p [of g c] by (cases "b = i") auto
    with old show "a = b \<and> f = g" using w unbound unfolding names_ok_def by blast
  qed
qed

lemma world_ok_update:
  assumes "world_ok w" "i < length w" "threads_ok p"
    "\<And>f c. f < length (fds p) \<Longrightarrow> fds p ! f = Sock c \<Longrightarrow>
      f < length (fds (w ! i)) \<and> fds (w ! i) ! f = Sock c \<or> f = new \<and> \<not> core_bound w c"
  shows "world_ok (w[i := p])"
  using names_ok_update [OF _ assms(2,4)] assms(1,3) set_update_subset_insert [of w i p]
  by (auto simp: world_ok_def)

text \<open>A created thread that got a core.\<close>

lemma created_ok:
  assumes w: "world_ok w" and i: "i < length w" and c: "lockable w i c"
  shows "world_ok ((take_core w i c)[i := (take_core w i c ! i)\<lparr>threads := threads (w ! i) @ [the_info w i c]\<rparr>])"
proof -
  let ?fs = "fds (w ! i)"
  let ?p = "(take_core w i c ! i)\<lparr>threads := threads (w ! i) @ [the_info w i c]\<rparr>"
  have f: "fds ?p = open_at (first_closed ?fs) (Sock c) ?fs" "threads ?p = threads (w ! i) @ [the_info w i c]"
    using i by (simp_all add: take_core_def)
  from w i have t: "threads_ok (w ! i)" by (simp add: world_ok_def)
  have old: "info_fd x < length ?fs" "info_fd x \<noteq> first_closed ?fs" "?fs ! info_fd x = Sock (info_core x)"
    if "x \<in> set (threads (w ! i))" for x
    using t that first_closed_bound [of ?fs] by (auto simp: threads_ok_def holds_core_def)
  have grown: "h < length (fds ?p)" if "h < length ?fs" for h using that by (simp add: f(1) open_at_def)
  have "holds_core ?p x" if "x \<in> set (threads (w ! i))" for x
    using old [OF that] grown [OF old(1) [OF that]] open_first_nth(1) [of "info_fd x" ?fs "Sock c"]
    by (simp add: holds_core_def f(1))
  moreover have "holds_core ?p (the_info w i c)"
    using open_first_nth(1) [of "first_closed ?fs" ?fs "Sock c"] open_first_nth(3) [of ?fs "Sock c"] i
    by (simp add: holds_core_def the_info_def take_core_def)
  moreover have "info_fd (the_info w i c) \<notin> info_fd ` set (threads (w ! i))" using old(2)
    unfolding the_info_def by (metis imageE thread_info.select_convs(1))
  ultimately have "threads_ok ?p" using t by (simp add: threads_ok_def f(2))
  moreover have "g < length ?fs \<and> ?fs ! g = Sock b \<or> g = first_closed ?fs \<and> \<not> core_bound w b"
    if "g < length (fds ?p)" "fds ?p ! g = Sock b" for g b
    using that c open_first_nth(1,2) [of g ?fs "Sock c"] unfolding f lockable_def by (auto split: if_splits)
  ultimately have "world_ok (w[i := ?p])" by (rule world_ok_update [OF w i])
  moreover have "(take_core w i c)[i := ?p] = w[i := ?p]" by (simp add: take_core_def)
  ultimately show ?thesis by simp
qed

lemma finished_ok:
  assumes w: "world_ok w" and i: "i < length w" and k: "k < length (threads (w ! i))"
  shows "world_ok (thread_exit w i k)"
proof -
  let ?p = "w ! i" and ?info = "threads (w ! i) ! k"
  let ?q = "\<lparr>fds = (fds ?p)[info_fd ?info := Closed], occupied = CPU_CLR_S (info_core ?info) MASK_BYTES (occupied ?p),
    lastcore = lastcore ?p, threads = take k (threads ?p) @ drop (Suc k) (threads ?p)\<rparr>"
  from w i have t: "threads_ok ?p" by (simp add: world_ok_def)
  have "thread_exit w i k = w[i := ?q]"
    using i t k by (cases "w ! i") (auto simp: thread_exit_def core_deallocate_def close_fd_def Let_def threads_ok_def holds_core_def)
  moreover have "threads_ok ?q"
  proof -
    have e: "threads ?p = take k (threads ?p) @ ?info # drop (Suc k) (threads ?p)" using k by (rule id_take_nth_drop)
    have d: "distinct (map info_fd (take k (threads ?p) @ ?info # drop (Suc k) (threads ?p)))"
      using t unfolding threads_ok_def e [symmetric] by blast
    have "holds_core ?q x" if "x \<in> set (take k (threads ?p) @ drop (Suc k) (threads ?p))" for x
    proof -
      have "info_fd x \<in> info_fd ` (set (take k (threads ?p)) \<union> set (drop (Suc k) (threads ?p)))" using that by auto
      moreover have "info_fd ?info \<notin> info_fd ` (set (take k (threads ?p)) \<union> set (drop (Suc k) (threads ?p)))"
        using d by (simp add: image_Un)
      ultimately have "info_fd x \<noteq> info_fd ?info" by metis
      moreover have "holds_core ?p x" using t that by (auto simp: threads_ok_def dest: in_set_takeD in_set_dropD)
      ultimately show ?thesis by (simp add: holds_core_def)
    qed
    with d show ?thesis by (simp add: threads_ok_def)
  qed
  moreover have "f < length (fds ?p) \<and> fds ?p ! f = Sock c \<or> f = 0 \<and> \<not> core_bound w c"
    if "f < length (fds ?q)" "fds ?q ! f = Sock c" for f c
    using that by (cases "f = info_fd ?info") auto
  ultimately show ?thesis using world_ok_update [OF w i, of ?q 0] by simp
qed

section \<open>Runs\<close>

text \<open>Runs all of whose events are of a kind.\<close>

inductive run :: "topology \<Rightarrow> (event \<Rightarrow> world \<Rightarrow> bool) \<Rightarrow> world \<Rightarrow> bool" for t kind where
  run_none: "run t kind []"
| run_event: "run t kind w \<Longrightarrow> kind ev w \<Longrightarrow> do_event t ev w = Some w' \<Longrightarrow> run t kind w'"

text \<open>A thread is only created when a core is free for it.\<close>

definition core_free :: "topology \<Rightarrow> event \<Rightarrow> world \<Rightarrow> bool" where
  "core_free t ev w =
     (case ev of Create i _ \<Rightarrow> i < length w \<and> core_allocate t w i \<noteq> Some None | _ \<Rightarrow> True)"

lemma event_ok:
  assumes w: "world_ok w" and "core_free t ev w" "do_event t ev w = Some w'"
  shows "world_ok w'"
proof (cases ev)
  case Start
  have "names_ok (w @ [new_proc])"
  proof -
    have none: "\<not> (f < length (fds new_proc) \<and> fds new_proc ! f = Sock c)" for f c
      by (auto simp: new_proc_def nth_Cons split: nat.splits)
    show ?thesis
      using w none unfolding world_ok_def names_ok_def
      by (auto simp: nth_append split: if_splits)
  qed
  moreover have "threads_ok new_proc" by (simp add: threads_ok_def new_proc_def)
  ultimately show ?thesis using w assms(3) Start by (auto simp: world_ok_def)
next
  case (Create i junk)
  with assms(2,3) have i: "i < length w" by (simp add: core_free_def)
  from Create assms(2,3) i obtain info u where u: "core_allocate t w i = Some (Some (info, u))"
    and w': "w' = u[i := (u ! i)\<lparr>threads := threads (u ! i) @ [info]\<rparr>]"
    by (auto simp: core_free_def pthread_create_def split: option.splits)
  from u i obtain cs where "try_cores w i cs = Some (info, u)" by (auto simp: core_allocate_def split: option.splits)
  then obtain c where "find (lockable w i) cs = Some c" and c: "info = the_info w i c" "u = take_core w i c"
    by (auto simp: try_cores_find [OF i] split: option.splits)
  then have "lockable w i c" by (auto simp: find_Some_iff)
  moreover have "threads (u ! i) = threads (w ! i)" using i by (simp add: c(2) take_core_def)
  ultimately show ?thesis using created_ok [OF w i] by (simp add: w' c)
next
  case (Finish i k)
  with assms(3) finished_ok [OF w, of i k] show ?thesis by (simp split: if_splits)
next
  case (End i)
  with assms(3) have i: "i < length w" and w': "w' = w[i := \<lparr>fds = [], occupied = {}, lastcore = 0, threads = []\<rparr>]"
    by (simp_all split: if_splits)
  show ?thesis unfolding w' by (rule world_ok_update [OF w i, where new = 0]) (simp_all add: threads_ok_def)
qed

lemma run_ok: "run t (core_free t) w \<Longrightarrow> world_ok w"
proof (induction rule: run.induct)
  case run_none
  then show ?case by (simp add: world_ok_def names_ok_def)
next
  case (run_event w ev w')
  show ?case by (rule event_ok [OF run_event.IH run_event.hyps(2,3)])
qed

section \<open>A machine of two cores\<close>

definition two_cores :: topology where
  "two_cores = \<lparr>numa_node_of_cpu = (\<lambda>c. if c < 2 then Some 0 else None), numa_node_to_cpus = (\<lambda>n. [0, 1]),
     distance_text = (\<lambda>n. ''10'' @ [CHR 0x0A])\<rparr>"

fun do_events :: "topology \<Rightarrow> event list \<Rightarrow> world \<Rightarrow> world option" where
  "do_events t [] w = Some w"
| "do_events t (e # es) w = (case do_event t e w of None \<Rightarrow> None | Some w \<Rightarrow> do_events t es w)"

fun all_free :: "topology \<Rightarrow> event list \<Rightarrow> world \<Rightarrow> bool" where
  "all_free t [] w = True"
| "all_free t (e # es) w = (core_free t e w \<and> (case do_event t e w of None \<Rightarrow> False | Some w \<Rightarrow> all_free t es w))"

lemma do_events_run:
  "run t (core_free t) w \<Longrightarrow> all_free t es w \<Longrightarrow> do_events t es w = Some w' \<Longrightarrow> run t (core_free t) w'"
proof (induction es arbitrary: w)
  case (Cons e es)
  from Cons.prems(2) obtain u where u: "core_free t e w" "do_event t e w = Some u" "all_free t es u"
    by (auto split: option.splits)
  with Cons.prems(3) have "do_events t es u = Some w'" by simp
  with Cons.IH [OF run_event [OF Cons.prems(1) u(1,2)] u(3)] show ?case by simp
qed simp

lemma two_nodes: "near_nodes two_cores 0 = [\<lparr>node = 0, dist = 10\<rparr>]"
  by (simp add: near_nodes_def two_cores_def parse_dists.simps sort_dists_def byte_of_def strtol10_def signed_digits_def
      isspace_def isdigit_def MAX_NUMA_def)

lemma two_allocate:
  assumes "lastcore (w ! i) < 2"
  shows "core_allocate two_cores w i = Some (try_cores w i [0, 1])"
  using assms two_nodes by (simp add: core_allocate_def two_cores_def)

lemmas evaluate =
  two_allocate pthread_create_def thread_exit_def core_deallocate_def close_fd_def lock_core_outer_def lock_core_def
  core_bound_def open_at_def new_proc_def CPU_ISSET_S_def CPU_SET_S_def CPU_CLR_S_def MASK_BYTES_def Let_def

abbreviation "fresh \<equiv> \<lparr>info_fd = 0, info_core = 0\<rparr>"

lemma two_processes:
  "do_events two_cores [Start, Start, Create 0 fresh, Create 1 fresh] [] =
     Some [\<lparr>fds = [Other, Other, Other, Sock 0], occupied = {0}, lastcore = 0, threads = [\<lparr>info_fd = 3, info_core = 0\<rparr>]\<rparr>,
           \<lparr>fds = [Other, Other, Other, Sock 1], occupied = {1}, lastcore = 1, threads = [\<lparr>info_fd = 3, info_core = 1\<rparr>]\<rparr>]"
  "all_free two_cores [Start, Start, Create 0 fresh, Create 1 fresh] []"
  by (simp_all add: evaluate core_free_def)

lemma do_events_append:
  "do_events t (es @ fs) w = (case do_events t es w of None \<Rightarrow> None | Some w \<Rightarrow> do_events t fs w)"
  by (induction es arbitrary: w) (auto split: option.splits)

text \<open>Two threads; the first ends and a third takes its core; one without a core ends; a last one.\<close>

abbreviation "old_info \<equiv> \<lparr>info_fd = 3, info_core = 0\<rparr>"

lemma unplaced_steps:
  "do_events two_cores [Start, Create 0 fresh, Create 0 fresh] [] =
     Some [\<lparr>fds = [Other, Other, Other, Sock 0, Sock 1], occupied = {0, 1}, lastcore = 1,
       threads = [old_info, \<lparr>info_fd = 4, info_core = 1\<rparr>]\<rparr>]"
  "do_events two_cores [Finish 0 0, Create 0 fresh]
     [\<lparr>fds = [Other, Other, Other, Sock 0, Sock 1], occupied = {0, 1}, lastcore = 1,
       threads = [old_info, \<lparr>info_fd = 4, info_core = 1\<rparr>]\<rparr>] =
     Some [\<lparr>fds = [Other, Other, Other, Sock 0, Sock 1], occupied = {0, 1}, lastcore = 0,
       threads = [\<lparr>info_fd = 4, info_core = 1\<rparr>, old_info]\<rparr>]"
  "do_events two_cores [Create 0 old_info, Finish 0 2]
     [\<lparr>fds = [Other, Other, Other, Sock 0, Sock 1], occupied = {0, 1}, lastcore = 0,
       threads = [\<lparr>info_fd = 4, info_core = 1\<rparr>, old_info]\<rparr>] =
     Some [\<lparr>fds = [Other, Other, Other, Closed, Sock 1], occupied = {1}, lastcore = 0,
       threads = [\<lparr>info_fd = 4, info_core = 1\<rparr>, old_info]\<rparr>]"
  "do_events two_cores [Create 0 fresh]
     [\<lparr>fds = [Other, Other, Other, Closed, Sock 1], occupied = {1}, lastcore = 0,
       threads = [\<lparr>info_fd = 4, info_core = 1\<rparr>, old_info]\<rparr>] =
     Some [\<lparr>fds = [Other, Other, Other, Sock 0, Sock 1], occupied = {0, 1}, lastcore = 0,
       threads = [\<lparr>info_fd = 4, info_core = 1\<rparr>, old_info, old_info]\<rparr>]"
  by (simp_all add: evaluate) (auto simp: evaluate)

section \<open>Properties\<close>

text \<open>
  C24: The array of distances is sorted by insertion exactly as the stable sort by distance
  sorts it: nearer nodes first, nodes of equal distance in the order of their numbers.
\<close>

theorem insertion_sort_is_stable_sort:
  "sort_dists ds = sort_key dist ds \<and> near_nodes t n = sort_key dist (parse_dists 0 (butlast (take 4096 (distance_text t n))))"
  by (simp add: sort_dists_sort near_nodes_def MAX_NUMA_def)



text \<open>
  C8: As long as threads are only created when a core is free for them, no two threads of all
  processes on the machine run on the same core, and every thread's process has the socket of
  the thread's core open.
\<close>

theorem threads_on_own_cores:
  assumes "run t (core_free t) w" "i < length w" "k < length (threads (w ! i))" "j < length w" "l < length (threads (w ! j))"
  shows "(info_core (threads (w ! i) ! k) = info_core (threads (w ! j) ! l) \<longrightarrow> i = j \<and> k = l) \<and>
    Sock (info_core (threads (w ! i) ! k)) \<in> set (fds (w ! i))"
proof -
  have w: "world_ok w" by (rule run_ok [OF assms(1)])
  then have t: "threads_ok (w ! i)" "threads_ok (w ! j)" using assms(2,4) by (simp_all add: world_ok_def)
  then have h: "holds_core (w ! i) (threads (w ! i) ! k)" "holds_core (w ! j) (threads (w ! j) ! l)"
    using assms(3,5) by (simp_all add: threads_ok_def)
  have "i = j \<and> k = l" if "info_core (threads (w ! i) ! k) = info_core (threads (w ! j) ! l)"
  proof -
    have e: "i = j \<and> info_fd (threads (w ! i) ! k) = info_fd (threads (w ! j) ! l)"
      using w assms(2,4) h that unfolding world_ok_def names_ok_def holds_core_def by metis
    with t(1) assms(3,5) show ?thesis by (auto simp: threads_ok_def distinct_conv_nth)
  qed
  moreover have "Sock (info_core (threads (w ! i) ! k)) \<in> set (fds (w ! i))"
    using h(1) by (metis holds_core_def nth_mem)
  ultimately show ?thesis by blast
qed

lemma threads_on_own_cores_witness:
  "\<exists>w. run two_cores (core_free two_cores) w \<and> length w = 2 \<and>
    info_core (threads (w ! 0) ! 0) \<noteq> info_core (threads (w ! 1) ! 0)"
proof -
  note r = do_events_run [OF run_none two_processes(2,1)]
  show ?thesis
    by (rule exI, rule conjI, rule r) (use threads_on_own_cores [OF r, of 0 0 1 0] in simp)
qed

text \<open>
  A thread for which no core was free can take a core away from another: its record keeps
  the core and descriptor of a thread that had it before, and when it ends, that descriptor,
  by now another thread's, is closed. The next thread then shares the core of a running one.
\<close>

theorem unplaced_thread_frees_core:
  "map_option (map (map info_core \<circ> threads))
     (do_events two_cores ([Start, Create 0 fresh, Create 0 fresh] @ [Finish 0 0, Create 0 fresh] @
       [Create 0 \<lparr>info_fd = 3, info_core = 0\<rparr>, Finish 0 2] @ [Create 0 fresh]) []) = Some [[1, 0, 0]]"
  unfolding do_events_append unplaced_steps option.case by simp

end
