(* ===== verification/ThreadStack.thy ===== *)
theory ThreadStack
  imports CorePlace
begin

text \<open>
  \<open>numaplace/libnumaplace.c\<close>: the stacks of threads and the binding of memory to nodes, in
  \<open>membind\<close>, \<open>bind_current\<close> and \<open>pthread_create\<close>. The results of the system are parameters:
  \<open>posix_memalign\<close>, the attributes of the caller, the place of the main stack, and \<open>mbind\<close>.
\<close>

section \<open>Binding memory\<close>

datatype mpol = MPOL_BIND | MPOL_PREFERRED

text \<open>The arguments of a call of \<open>mbind\<close>; the mask is the set of its bits.\<close>

record mbind_args =
  mb_start :: nat
  mb_len :: nat
  mb_mode :: mpol
  nodemask :: "nat set"
  maxnode :: nat

text \<open>\<open>None\<close> is the failing assertion on the node of the core.\<close>

definition membind :: "topology \<Rightarrow> nat \<Rightarrow> nat \<Rightarrow> nat \<Rightarrow> mbind_args option" where
  "membind t start len core =
     (case numa_node_of_cpu t core of
        None \<Rightarrow> None
      | Some n \<Rightarrow> Some \<lparr>mb_start = start, mb_len = len, mb_mode = MPOL_BIND, nodemask = {n}, maxnode = n\<rparr>)"

text \<open>
  \<open>bind_current\<close>: with the first and the last address of the stack; the difference of the two
  pointers counts words of 8 bytes. \<open>None\<close> is a failing assertion, \<open>Some None\<close> no free core.
\<close>

definition bind_current :: "topology \<Rightarrow> world \<Rightarrow> nat \<Rightarrow> nat \<times> nat \<Rightarrow> (world \<times> mbind_args) option option" where
  "bind_current t w i stk =
     (case core_allocate t w i of
        None \<Rightarrow> None
      | Some None \<Rightarrow> Some None
      | Some (Some (info, w)) \<Rightarrow>
          (case numa_node_of_cpu t (info_core info) of
             None \<Rightarrow> None
           | Some n \<Rightarrow> Some (Some (w, \<lparr>mb_start = fst stk, mb_len = (snd stk - fst stk) div 8, mb_mode = MPOL_PREFERRED,
                                  nodemask = {n}, maxnode = n + 1\<rparr>))))"

text \<open>
  What the manual of \<open>mbind\<close> says: the mask contains up to \<open>maxnode\<close> bits, and \<open>MPOL_BIND\<close> with no
  node in the mask is an error. The result is 0 or an error.
\<close>

definition mbind_documented :: "(mbind_args \<Rightarrow> int) \<Rightarrow> bool" where
  "mbind_documented mbind \<longleftrightarrow>
     (\<forall>a. mb_mode a = MPOL_BIND \<and> nodemask a \<inter> {..<maxnode a} = {} \<longrightarrow> mbind a \<noteq> 0)"

section \<open>The stack of a new thread\<close>

definition THP_SIZE :: nat where "THP_SIZE = 2 * 2 ^ 20"

text \<open>
  What \<open>pthread_create\<close> decides: the stack the thread gets, the area that is made inaccessible
  and \<open>guard\<close>, which has no value (\<open>None\<close>) where it is never assigned.
\<close>

record stack_plan =
  thread_stack :: "nat \<times> nat"
  redzone :: "(nat \<times> nat) option"
  guard :: "nat option"

text \<open>
  \<open>given\<close> is the stack of the caller's attributes (\<open>None\<close> without attributes), \<open>block\<close> what
  \<open>posix_memalign\<close> returns.
\<close>

definition plan_stack :: "nat \<Rightarrow> (nat \<times> nat) option \<Rightarrow> nat \<Rightarrow> stack_plan" where
  "plan_stack stacksize given block =
     (let (stack, stacksize2) = (case given of None \<Rightarrow> (0, 0) | Some g \<Rightarrow> g)
      in if stacksize2 \<noteq> 0 then \<lparr>thread_stack = (stack, stacksize2), redzone = None, guard = Some 0\<rparr>
         else \<lparr>thread_stack = (block, stacksize), redzone = Some (block, THP_SIZE), guard = None\<rparr>)"

text \<open>The memory bound for a thread that got a core; \<open>junk\<close> is what an unassigned \<open>guard\<close> holds.\<close>

definition bind_stack :: "topology \<Rightarrow> nat \<Rightarrow> stack_plan \<Rightarrow> nat \<Rightarrow> nat \<Rightarrow> mbind_args option" where
  "bind_stack t stacksize p junk core =
     membind t (fst (thread_stack p))
       (stacksize + (case guard p of Some g \<Rightarrow> g | None \<Rightarrow> junk) * THP_SIZE) core"

text \<open>The bytes of an area, and those of its stack a thread can use.\<close>

definition area :: "nat \<times> nat \<Rightarrow> nat set" where
  "area a = {fst a..<fst a + snd a}"

definition usable :: "stack_plan \<Rightarrow> nat set" where
  "usable p = area (thread_stack p) - (case redzone p of None \<Rightarrow> {} | Some z \<Rightarrow> area z)"

section \<open>Properties\<close>

text \<open>
  Memory is never bound to the node of a thread: the mask is that of the node of the thread's
  core, but the call passes the number of the node as the number of bits of the mask, which
  cuts off exactly this bit, so that \<open>mbind\<close> as it is documented refuses it. Only \<open>bind_current\<close>
  passes one more, for the node of the core it got, but for an eighth of the stack.
\<close>

theorem membind_never_binds:
  assumes "mbind_documented mbind" "bind_stack t stacksize p junk core = Some a"
    and "core_allocate t w i = Some (Some (info, w'))" "bind_current t w i (lo, lo + 8 * words) = Some (Some (w'', b))"
  shows "(\<exists>n. numa_node_of_cpu t core = Some n \<and> nodemask a = {n} \<and> n \<notin> {..<maxnode a}) \<and> mbind a \<noteq> 0 \<and>
    mb_start a = fst (thread_stack p) \<and>
    (\<exists>n. numa_node_of_cpu t (info_core info) = Some n \<and> nodemask b \<inter> {..<maxnode b} = {n}) \<and>
    area (mb_start b, mb_len b) = {lo..<lo + words}"
proof -
  from assms(2) obtain n where n: "numa_node_of_cpu t core = Some n" "a = \<lparr>mb_start = fst (thread_stack p),
      mb_len = stacksize + (case guard p of Some g \<Rightarrow> g | None \<Rightarrow> junk) * THP_SIZE, mb_mode = MPOL_BIND,
      nodemask = {n}, maxnode = n\<rparr>"
    by (auto simp: bind_stack_def membind_def split: option.splits)
  have "mbind a \<noteq> 0" using assms(1) by (simp add: mbind_documented_def n)
  moreover from assms(3,4) obtain k where "numa_node_of_cpu t (info_core info) = Some k"
      "b = \<lparr>mb_start = lo, mb_len = words, mb_mode = MPOL_PREFERRED, nodemask = {k}, maxnode = k + 1\<rparr>"
    by (auto simp: bind_current_def split: option.splits)
  ultimately show ?thesis using n by (simp add: area_def)
qed

text \<open>
  The redzone lies inside the stack the thread is given, not below it: of \<open>stacksize\<close> bytes the
  lowest 2 MB cannot be used, the highest 2 MB of the allocation are never used, and a stack of
  2 MB or less has no usable byte at all.
\<close>

lemma redzone_inside_stack:
  assumes "given = None \<or> snd (the given) = 0"
  shows "usable (plan_stack stacksize given block) = {block + THP_SIZE..<block + stacksize} \<and>
    area (block, stacksize + THP_SIZE) - area (thread_stack (plan_stack stacksize given block)) =
      {block + stacksize..<block + stacksize + THP_SIZE} \<and>
    (stacksize \<le> THP_SIZE \<longrightarrow> usable (plan_stack stacksize given block) = {})"
proof -
  have p: "plan_stack stacksize given block =
      \<lparr>thread_stack = (block, stacksize), redzone = Some (block, THP_SIZE), guard = None\<rparr>"
    using assms by (cases given) (auto simp: plan_stack_def split: prod.splits)
  show ?thesis unfolding p by (auto simp: usable_def area_def)
qed

text \<open>
  For a stack of the caller the length that is bound is the default, not that of the stack:
  memory beyond a shorter stack is included.
\<close>

lemma given_stack_bound_by_default:
  assumes "0 < n" "bind_stack t stacksize (plan_stack stacksize (Some (start, n)) block) junk core = Some a"
  shows "area (mb_start a, mb_len a) = {start..<start + stacksize}"
  using assms by (auto simp: bind_stack_def plan_stack_def membind_def area_def split: option.splits)

text \<open>A machine of one node with two cores.\<close>

definition one_node :: topology where
  "one_node = \<lparr>numa_node_of_cpu = (\<lambda>c. if c < 2 then Some 0 else None), numa_node_to_cpus = (\<lambda>_. [0, 1]),
               distance_text = (\<lambda>_. ''10'' @ [CHR 0x0A])\<rparr>"

lemma membind_never_binds_witness:
  "\<exists>a w b. bind_stack one_node 0x800000 (plan_stack 0x800000 None 0x40000000) 1 0 = Some a \<and>
     bind_current one_node [new_proc] 0 (0x1000, 0x1000 + 8 * 0x200) = Some (Some (w, b)) \<and>
     area (mb_start b, mb_len b) = {0x1000..<0x1000 + 0x200} \<and>
     (if mb_mode a = MPOL_BIND \<and> nodemask a \<inter> {..<maxnode a} = {} then - 1 else 0) \<noteq> (0 :: int)"
proof -
  let ?mbind = "\<lambda>a. if mb_mode a = MPOL_BIND \<and> nodemask a \<inter> {..<maxnode a} = {} then - 1 else 0 :: int"
  have m: "mbind_documented ?mbind" by (simp add: mbind_documented_def)
  obtain a where a: "bind_stack one_node 0x800000 (plan_stack 0x800000 None 0x40000000) 1 0 = Some a"
    by (simp add: bind_stack_def membind_def one_node_def)
  have "near_nodes one_node 0 = [\<lparr>node = 0, dist = 10\<rparr>]"
    by code_simp
  then obtain w' where c: "core_allocate one_node [new_proc] 0 = Some (Some (\<lparr>info_fd = 3, info_core = 0\<rparr>, w'))"
    by (simp add: core_allocate_def new_proc_def one_node_def lock_core_outer_def lock_core_def
        core_bound_def CPU_ISSET_S_def Let_def)
  then obtain w b where b: "bind_current one_node [new_proc] 0 (0x1000, 0x1000 + 8 * 0x200) = Some (Some (w, b))"
    by (simp add: bind_current_def) (simp add: one_node_def)
  from membind_never_binds [OF m a c b] a b show ?thesis by blast
qed

end
