(* ===== verification/TscLib.thy ===== *)
theory TscLib
  imports Atomic CStrings Complex_Main
begin

text \<open>
  The time-stamp counter library (\<open>lib/tsclib.c\<close>, the part for Linux): the search of the clock
  rate in \<open>/proc/cpuinfo\<close> and the initialisation by the first thread that asks for a time. The
  numbers of type \<open>double\<close> are rational numbers here, without rounding; \<open>None\<close> is infinity.
\<close>

section \<open>The clock rate\<close>

text \<open>
  \<open>fgets\<close> into a buffer of 1024 characters: at most 1023 characters, to the end of the line. The
  offset in the file is the text that is still to be read.
\<close>

definition fgets_line :: "string \<Rightarrow> string \<times> string" where
  "fgets_line s = (let n = min 1023 (Suc (length (takeWhile (\<lambda>c. c \<noteq> CHR 0x0A) s))) in (take n s, drop n s))"

definition to_lower :: "char \<Rightarrow> char" where
  "to_lower c = (if 65 \<le> (of_char c :: nat) \<and> (of_char c :: nat) \<le> 90 then char_of (of_char c + 32 :: nat) else c)"

definition starts :: "string \<Rightarrow> string \<Rightarrow> bool" where
  "starts token line \<longleftrightarrow> map to_lower (take (length token) line) = map to_lower token"

text \<open>
  What \<open>_getprocline\<close> gives: no such line; a line without a colon, where the code goes on reading
  behind the end of the string; the value, with the text after the line.
\<close>

datatype proc_line = Missing | Beyond | Value string string

definition value_of :: "string \<Rightarrow> string \<Rightarrow> string \<Rightarrow> proc_line" where
  "value_of token line rest =
     (let r = drop (length token) line
      in if CHR '':'' \<in> set r then Value (tl (dropWhile (\<lambda>c. c \<noteq> CHR '':'') r)) rest else Beyond)"

lemma fgets_shorter: "s \<noteq> [] \<Longrightarrow> length (snd (fgets_line s)) < length s"
  by (cases s) (auto simp: fgets_line_def Let_def)

function getprocline :: "string \<Rightarrow> string \<Rightarrow> proc_line" where
  "getprocline token s =
     (if s = [] then Missing
      else let (line, rest) = fgets_line s
           in if starts token line then value_of token line rest else getprocline token rest)"
  by pat_completeness auto
termination
proof (relation "measure (\<lambda>(_, s). length s)")
  fix token s and x :: "string \<times> string" and line rest
  assume a: "s \<noteq> []" "x = fgets_line s" "(line, rest) = x"
  have "rest = snd (fgets_line s)" using a(2,3) by (metis snd_conv)
  then show "((token, rest), (token, s)) \<in> measure (\<lambda>(_, s). length s)"
    using fgets_shorter [OF a(1)] by simp
qed simp

declare getprocline.simps [simp del]

lemma getprocline_shorter: "getprocline token s = Value v rest \<Longrightarrow> length rest < length s"
proof (induction token s rule: getprocline.induct)
  case (1 token s)
  obtain line r where f: "fgets_line s = (line, r)" by (metis surj_pair)
  show ?case
  proof (cases "s = []")
    case True
    with "1.prems" show ?thesis by (subst (asm) getprocline.simps) simp
  next
    case False
    have r: "length r < length s" using fgets_shorter [OF False] f by simp
    show ?thesis
    proof (cases "starts token line")
      case True
      with "1.prems" False f r show ?thesis
        by (subst (asm) getprocline.simps) (auto simp: value_of_def Let_def split: if_splits)
    next
      case no: False
      then have "getprocline token s = getprocline token r" using False f by (subst getprocline.simps) simp
      with "1.IH" [OF False f [symmetric] refl no] "1.prems" r show ?thesis by simp
    qed
  qed
qed

text \<open>\<open>atof\<close> of a decimal number, which is what the file has.\<close>

definition atof :: "string \<Rightarrow> rat" where
  "atof s =
     (case sign_of (dropWhile isspace s) of (neg, t) \<Rightarrow>
        let ds = takeWhile isdigit t; r = dropWhile isdigit t;
            fs = (if r \<noteq> [] \<and> hd r = CHR ''.'' then takeWhile isdigit (tl r) else []);
            v = of_nat (digits_value ds) + of_nat (digits_value fs) / 10 ^ length fs
        in if neg then - v else v)"

text \<open>The rate in MHz; \<open>None\<close> is the read behind the end of a line.\<close>

function getcpufreq :: "int \<Rightarrow> string \<Rightarrow> rat option" where
  "getcpufreq cpu s =
     (case getprocline ''processor'' s of
        Missing \<Rightarrow> Some 0
      | Beyond \<Rightarrow> None
      | Value v rest \<Rightarrow>
          if atoi_int v = cpu
          then case getprocline ''cpu MHz'' rest of
                 Missing \<Rightarrow> getcpufreq cpu []
               | Beyond \<Rightarrow> None
               | Value w _ \<Rightarrow> Some (atof w)
          else getcpufreq cpu rest)"
  by pat_completeness auto
termination
  by (relation "measure (\<lambda>(_, s). length s)") (auto dest: getprocline_shorter)

declare getcpufreq.simps [simp del]

section \<open>Initialisation\<close>

definition cycle_time :: "rat \<Rightarrow> rat option" where
  "cycle_time mhz = (if mhz = 0 then None else Some (1 / (mhz * 1000000)))"

text \<open>
  \<open>tsc_getsecs\<close> of many threads, in steps: the exchange of the flag, \<open>_tsc_init\<close>, and the sample
  with its product, as \<open>tsc_sample2secs\<close> has it too. \<open>secs\<close> is the sample and the result of a
  thread, \<open>mhz\<close> what \<open>getcpufreq\<close> found for processor 0.
\<close>

datatype tsc_place = Calling | Initialising | Sampling | Returned

record tsc =
  cycletime :: "rat option"
  initialized :: u32
  place :: "nat \<Rightarrow> tsc_place"
  secs :: "nat \<Rightarrow> (u64 \<times> rat option) option"

definition tsc_start :: tsc where
  "tsc_start = \<lparr>cycletime = Some 0, initialized = 0, place = (\<lambda>_. Calling), secs = (\<lambda>_. None)\<rparr>"

definition tsc_sample2secs :: "u64 \<Rightarrow> rat option \<Rightarrow> rat option" where
  "tsc_sample2secs s ct = map_option (\<lambda>c. of_nat (unat s) * c) ct"

fun tsc_step :: "rat \<Rightarrow> nat \<times> u64 \<Rightarrow> tsc \<Rightarrow> tsc option" where
  "tsc_step mhz (t, s) x =
     (case place x t of
        Calling \<Rightarrow>
          (case atomic_compare_and_exchange (initialized x) 0 1 of (old, w) \<Rightarrow>
             Some (x\<lparr>initialized := w, place := (place x)(t := if old = 0 then Initialising else Sampling)\<rparr>))
      | Initialising \<Rightarrow>
          Some (x\<lparr>cycletime := cycle_time mhz, initialized := 1, place := (place x)(t := Sampling)\<rparr>)
      | Sampling \<Rightarrow>
          Some (x\<lparr>secs := (secs x)(t \<mapsto> (s, tsc_sample2secs s (cycletime x))), place := (place x)(t := Returned)\<rparr>)
      | Returned \<Rightarrow> None)"

text \<open>A run: which thread makes a step, and what the counter reads then.\<close>

fun tsc_run :: "rat \<Rightarrow> (nat \<times> u64) list \<Rightarrow> tsc \<Rightarrow> tsc option" where
  "tsc_run mhz [] x = Some x"
| "tsc_run mhz (e # es) x = (case tsc_step mhz e x of None \<Rightarrow> None | Some y \<Rightarrow> tsc_run mhz es y)"

section \<open>Lines of the file\<close>

definition line_ok :: "string \<Rightarrow> bool" where
  "line_ok l \<longleftrightarrow> length l \<le> 1023 \<and> l \<noteq> [] \<and> last l = CHR 0x0A \<and> CHR 0x0A \<notin> set (butlast l)"

lemma fgets_line_ok:
  assumes "line_ok l"
  shows "fgets_line (l @ s) = (l, s)"
proof -
  obtain b where b: "l = b @ [CHR 0x0A]" "CHR 0x0A \<notin> set b"
    using assms unfolding line_ok_def by (metis append_butlast_last_id)
  have "takeWhile (\<lambda>c. c \<noteq> CHR 0x0A) (l @ s) = b"
    using b(2) unfolding b(1) by (induction b) auto
  moreover have "min 1023 (Suc (length b)) = length l" using assms by (simp add: line_ok_def b(1))
  ultimately show ?thesis by (simp add: fgets_line_def)
qed

lemma getprocline_skips:
  "\<forall>l\<in>set ls. line_ok l \<and> \<not> starts token l \<Longrightarrow> getprocline token (concat ls @ s) = getprocline token s"
proof (induction ls)
  case (Cons l ls)
  then have l: "line_ok l" "\<not> starts token l" by simp_all
  then have "getprocline token (concat (l # ls) @ s) = getprocline token (concat ls @ s)"
    using fgets_line_ok [OF l(1), of "concat ls @ s"]
    by (subst getprocline.simps) (auto simp: line_ok_def)
  with Cons show ?case by simp
qed simp

lemma getprocline_finds:
  assumes "line_ok (token @ a @ CHR '':'' # v)" "CHR '':'' \<notin> set a"
  shows "getprocline token ((token @ a @ CHR '':'' # v) @ s) = Value v s"
proof -
  let ?l = "token @ a @ CHR '':'' # v"
  have d: "dropWhile (\<lambda>c. c \<noteq> CHR '':'') (a @ CHR '':'' # v) = CHR '':'' # v"
    using assms(2) by (induction a) auto
  have "value_of token ?l s = Value v s" by (simp add: value_of_def d)
  moreover have "starts token ?l" by (simp add: starts_def)
  ultimately show ?thesis
    using fgets_line_ok [OF assms(1), of s] by (subst getprocline.simps) (auto simp: line_ok_def)
qed

text \<open>The rate of a processor is that of the first \<open>cpu MHz\<close> line after its own line.\<close>

lemma getcpufreq_finds:
  assumes "\<forall>l\<in>set pre. line_ok l \<and> \<not> starts ''processor'' l" "\<forall>l\<in>set mid. line_ok l \<and> \<not> starts ''cpu MHz'' l"
    and "line_ok (''processor'' @ a @ CHR '':'' # v)" "CHR '':'' \<notin> set a" "atoi_int v = cpu"
    and "line_ok (''cpu MHz'' @ b @ CHR '':'' # w)" "CHR '':'' \<notin> set b"
  shows "getcpufreq cpu (concat pre @ (''processor'' @ a @ CHR '':'' # v) @ concat mid @ (''cpu MHz'' @ b @ CHR '':'' # w) @ s) =
    Some (atof w)"
proof -
  have "getprocline ''processor'' (concat pre @ (''processor'' @ a @ CHR '':'' # v) @ concat mid @ (''cpu MHz'' @ b @ CHR '':'' # w) @ s) =
      Value v (concat mid @ (''cpu MHz'' @ b @ CHR '':'' # w) @ s)"
    unfolding getprocline_skips [OF assms(1)] by (rule getprocline_finds [OF assms(3,4)])
  moreover have "getprocline ''cpu MHz'' (concat mid @ (''cpu MHz'' @ b @ CHR '':'' # w) @ s) = Value w s"
    unfolding getprocline_skips [OF assms(2)] by (rule getprocline_finds [OF assms(6,7)])
  ultimately show ?thesis using assms(5) by (subst getcpufreq.simps) simp
qed

section \<open>The three phases\<close>

text \<open>Nobody has called; one thread initialises; the cycle time is set.\<close>

definition results_ok :: "rat \<Rightarrow> tsc \<Rightarrow> bool" where
  "results_ok mhz x \<longleftrightarrow>
     (\<forall>t s v. secs x t = Some (s, v) \<longrightarrow> v = tsc_sample2secs s (cycle_time mhz) \<or> v = Some 0)"

definition settled :: "rat \<Rightarrow> tsc \<Rightarrow> bool" where
  "settled mhz x \<longleftrightarrow> initialized x = 1 \<and> cycletime x = cycle_time mhz \<and> (\<forall>t. place x t \<noteq> Initialising)"

definition tsc_inv :: "rat \<Rightarrow> tsc \<Rightarrow> bool" where
  "tsc_inv mhz x \<longleftrightarrow> results_ok mhz x \<and>
     (initialized x = 0 \<and> cycletime x = Some 0 \<and> (\<forall>t. place x t = Calling) \<or>
      initialized x = 1 \<and> cycletime x = Some 0 \<and> (\<exists>w. place x w = Initialising \<and> (\<forall>t. t \<noteq> w \<longrightarrow> place x t \<noteq> Initialising)) \<or>
      settled mhz x)"

lemma tsc_inv_cases:
  assumes "tsc_inv mhz x"
  obtains (fresh) "initialized x = 0" "cycletime x = Some 0" "\<forall>t. place x t = Calling"
    | (busy) w where "initialized x = 1" "cycletime x = Some 0" "place x w = Initialising"
        "\<forall>u. u \<noteq> w \<longrightarrow> place x u \<noteq> Initialising"
    | (settled) "settled mhz x"
  using assms unfolding tsc_inv_def by blast

lemma tsc_busyI:
  assumes "results_ok mhz x" "initialized x = 1" "cycletime x = Some 0" "place x w = Initialising"
    and "\<And>u. u \<noteq> w \<Longrightarrow> place x u \<noteq> Initialising"
  shows "tsc_inv mhz x"
  using assms unfolding tsc_inv_def by blast

text \<open>Once the cycle time is set it stays, and every new result is exact.\<close>

lemma settled_step:
  assumes x: "settled mhz x" and st: "tsc_step mhz (t, s) x = Some y"
  shows "settled mhz y \<and> (secs y = secs x \<or> secs y = (secs x)(t \<mapsto> (s, tsc_sample2secs s (cycle_time mhz))))"
proof (cases "place x t")
  case Initialising
  with x show ?thesis by (simp add: settled_def)
qed (use x st in \<open>auto simp: settled_def atomic_compare_and_exchange_def split: if_splits\<close>)

lemma results_same: "secs y = secs x \<Longrightarrow> results_ok mhz x \<Longrightarrow> results_ok mhz y"
  by (simp add: results_ok_def)

lemma results_new:
  assumes "secs y = (secs x)(t \<mapsto> (s, v))" "results_ok mhz x" "v = tsc_sample2secs s (cycle_time mhz) \<or> v = Some 0"
  shows "results_ok mhz y"
  using assms by (auto simp: results_ok_def)

lemma tsc_inv_step:
  assumes inv: "tsc_inv mhz x" and st: "tsc_step mhz (t, s) x = Some y"
  shows "tsc_inv mhz y"
proof -
  have res: "results_ok mhz x" using inv by (simp add: tsc_inv_def)
  from inv show ?thesis
  proof (cases rule: tsc_inv_cases)
    case fresh
    then have "y = x\<lparr>initialized := 1, place := (place x)(t := Initialising)\<rparr>"
      using st by (simp add: atomic_compare_and_exchange_def)
    with fresh res show ?thesis by (intro tsc_busyI [of mhz y t]) (auto intro: results_same)
  next
    case settled
    with settled_step [OF settled st] res show ?thesis
      unfolding tsc_inv_def by (metis results_new results_same)
  next
    case (busy w)
    show ?thesis
    proof (cases "place x t")
      case Calling
      with busy have y: "y = x\<lparr>place := (place x)(t := Sampling)\<rparr>" and w: "w \<noteq> t"
        using st by (auto simp: atomic_compare_and_exchange_def)
      show ?thesis
        by (rule tsc_busyI [of mhz y w]) (use busy w res in \<open>auto simp: y intro: results_same\<close>)
    next
      case Initialising
      with busy have w: "w = t" by metis
      from Initialising st have y: "y = x\<lparr>cycletime := cycle_time mhz, initialized := 1, place := (place x)(t := Sampling)\<rparr>"
        by simp
      have "settled mhz y" using busy(4) by (simp add: settled_def y w)
      moreover have "results_ok mhz y" using res by (intro results_same [of y x]) (simp_all add: y)
      ultimately show ?thesis by (simp add: tsc_inv_def)
    next
      case Sampling
      with busy have y: "y = x\<lparr>secs := (secs x)(t \<mapsto> (s, Some 0)), place := (place x)(t := Returned)\<rparr>" and w: "w \<noteq> t"
        using st by (auto simp: tsc_sample2secs_def)
      have "results_ok mhz y" using res by (intro results_new [of y x t s "Some 0"]) (simp_all add: y)
      then show ?thesis by (rule tsc_busyI [of mhz y w]) (use busy w in \<open>auto simp: y\<close>)
    qed (use st in simp)
  qed
qed

lemma tsc_run_inv: "tsc_run mhz es x = Some y \<Longrightarrow> tsc_inv mhz x \<Longrightarrow> tsc_inv mhz y"
  by (induction es arbitrary: x) (auto split: option.splits dest: tsc_inv_step)

lemma tsc_start_inv: "tsc_inv mhz tsc_start"
  by (simp add: tsc_inv_def tsc_start_def results_ok_def)

lemma settled_run:
  "tsc_run mhz es x = Some y \<Longrightarrow> settled mhz x \<Longrightarrow> secs y t = Some (s, v) \<Longrightarrow>
    secs x t = Some (s, v) \<or> v = tsc_sample2secs s (cycle_time mhz)"
proof (induction es arbitrary: x)
  case (Cons e es)
  obtain u c where e: "e = (u, c)" by (cases e)
  from Cons.prems(1) obtain z where z: "tsc_step mhz (u, c) x = Some z" "tsc_run mhz es z = Some y"
    by (auto simp: e split: option.splits)
  note k = settled_step [OF Cons.prems(2) z(1)]
  from Cons.IH [OF z(2) conjunct1 [OF k] Cons.prems(3)] conjunct2 [OF k] show ?case
    by (cases "u = t") auto
qed simp

section \<open>Properties\<close>

text \<open>
  C33: the first call of \<open>tsc_getsecs\<close> initialises the library, and from then on all results are
  exact; but a call of another thread that comes while the first one is still reading
  \<open>/proc/cpuinfo\<close> finds the flag set and returns 0 seconds for every sample.
\<close>

theorem tsc_race:
  assumes "tsc_run mhz es tsc_start = Some x"
  shows "(secs x t = Some (s, v) \<longrightarrow> v = tsc_sample2secs s (cycle_time mhz) \<or> v = Some 0) \<and>
    (initialized x = 1 \<longrightarrow> (\<forall>u. place x u \<noteq> Initialising) \<longrightarrow> secs x t = None \<longrightarrow>
      tsc_run mhz fs x = Some y \<longrightarrow> secs y t = Some (s, v) \<longrightarrow> v = tsc_sample2secs s (cycle_time mhz)) \<and>
    (\<exists>y. tsc_run mhz [(0, c), (1, c), (1, c)] tsc_start = Some y \<and> secs y 1 = Some (c, Some 0))"
proof -
  have inv: "tsc_inv mhz x" by (rule tsc_run_inv [OF assms tsc_start_inv])
  have race: "\<exists>y. tsc_run mhz [(0, c), (1, c), (1, c)] tsc_start = Some y \<and> secs y 1 = Some (c, Some 0)"
    by (simp add: tsc_start_def atomic_compare_and_exchange_def tsc_sample2secs_def)
  have "settled mhz x" if "initialized x = 1" "\<forall>u. place x u \<noteq> Initialising"
    using inv by (cases rule: tsc_inv_cases) (use that in auto)
  moreover have "results_ok mhz x" using inv by (simp add: tsc_inv_def)
  ultimately show ?thesis
    using race settled_run [of mhz fs x y t s v] unfolding results_ok_def by (intro conjI impI) auto
qed

text \<open>A processor of 2500.5 MHz: after its initialisation a thread reads 2 seconds.\<close>

definition demo_cpuinfo :: string where
  "demo_cpuinfo =
     ''processor'' @ CHR 0x09 # '': 0'' @ CHR 0x0A # ''model name'' @ CHR 0x09 # '': x'' @ CHR 0x0A #
     ''cpu MHz'' @ CHR 0x09 # '': 2500.500'' @ CHR 0x0A # ''processor'' @ CHR 0x09 # '': 1'' @ [CHR 0x0A]"

lemma demo_freq: "getcpufreq 0 demo_cpuinfo = Some 2500.5"
proof -
  let ?v = "'' 0'' @ [CHR 0x0A]" and ?w = "'' 2500.500'' @ [CHR 0x0A]" and ?m = "''model name'' @ CHR 0x09 # '': x'' @ [CHR 0x0A]"
  have l: "\<forall>l\<in>set [?m]. line_ok l \<and> \<not> starts ''cpu MHz'' l" "line_ok (''processor'' @ [CHR 0x09] @ CHR '':'' # ?v)"
    "line_ok (''cpu MHz'' @ [CHR 0x09] @ CHR '':'' # ?w)"
    by (simp_all add: line_ok_def starts_def to_lower_def)
  have "atoi_int ?v = 0" by code_simp
  moreover have "atof ?w = 2500.5"
    by (simp add: atof_def isspace_def isdigit_def sign_of_def digits_value_def)
  ultimately have v: "atoi_int ?v = 0" "atof ?w = 2500.5" .
  show ?thesis
    using getcpufreq_finds [where pre = "[]", OF _ l(1,2) _ v(1) l(3)] v(2)
    by (simp add: demo_cpuinfo_def)
qed

lemma tsc_race_witness:
  "getcpufreq 0 demo_cpuinfo = Some 2500.5 \<and>
   (\<exists>x y. tsc_run 2500.5 [(0, 1), (0, 2), (0, 5001000000)] tsc_start = Some x \<and> secs x 0 = Some (5001000000, Some 2) \<and>
     tsc_run 2500.5 [(0, 7), (1, 7), (1, 7)] tsc_start = Some y \<and> secs y 1 = Some (7, Some 0))"
proof -
  have "\<exists>x. tsc_run 2500.5 [(0, 1), (0, 2), (0, 5001000000)] tsc_start = Some x \<and> secs x 0 = Some (5001000000, Some 2)"
    by (simp add: tsc_start_def atomic_compare_and_exchange_def tsc_sample2secs_def cycle_time_def)
  then obtain x where x: "tsc_run 2500.5 [(0, 1), (0, 2), (0, 5001000000)] tsc_start = Some x"
    "secs x 0 = Some (5001000000, Some 2)" by blast
  note tsc_race [OF x(1), THEN conjunct2, THEN conjunct2, of 7]
  then obtain y where "tsc_run 2500.5 [(0, 7), (1, 7), (1, 7)] tsc_start = Some y" "secs y 1 = Some (7, Some 0)" by blast
  with x demo_freq show ?thesis by (intro conjI exI [of _ x] exI [of _ y])
qed

end
