(* ===== verification/QTicketRace.thy ===== *)
theory QTicketRace
  imports QTicket
begin

text \<open>
  A run of the queued ticket lock (\<open>lib/tktqlock.c\<close>) with nineteen threads and two locks at
  whose end two threads are inside the same lock. \<open>tkt_q_try_unqueue\<close> first takes the bit from
  the lock and then the lock from the queue; in between, the lock can get a second queue while
  a thread still finds the first one, which then goes to another lock.
\<close>

text \<open>The two locks have the same hash.\<close>

definition lock_l :: nat where "lock_l = 256"
definition lock_m :: nat where "lock_m = 260"

text \<open>
  Eight threads go through the lock while the ninth sets up a queue in slot 1. It then leaves
  and takes the bit from the lock again.
\<close>

definition first_queue :: "q_move list" where
  "first_queue =
     map (Take lock_l) [1, 2, 3, 4, 5, 6, 7, 8, 9] @
     [Leave 1, Turn 2, Leave 2, Turn 3, Leave 3, Turn 4, Leave 4, Turn 5, Leave 5, Turn 6, Leave 6,
      Turn 7, Leave 7, Turn 8, Leave 8] @
     replicate 11 (Turn 9) @ [Leave 9] @ replicate 4 (Turn 9)"

text \<open>
  Thread 1 takes the lock, seven more wait, and thread 10 sets up a queue in slot 2; thread 2
  sees the bit and finds slot 1, which thread 9 then gives back.
\<close>

definition second_queue :: "q_move list" where
  "second_queue =
     map (Take lock_l) [1, 2, 3, 4, 5, 6, 7, 8, 10] @ replicate 10 (Turn 10) @ [Turn 2, Turn 2, Turn 9]"

text \<open>
  Slot 1 becomes the queue of the other lock, thread 2 enters this queue, and the release of
  the other lock hands over to it.
\<close>

definition wrong_queue :: "q_move list" where
  "wrong_queue =
     map (Take lock_m) [11, 12, 13, 14, 15, 16, 17, 18, 19] @ replicate 8 (Turn 19) @
     replicate 3 (Turn 2) @ [Leave 11] @ replicate 5 (Turn 11) @ replicate 4 (Turn 2)"

lemma raw_tickets_add: "raw_tickets h t + raw_tickets 0 c = raw_tickets h (t + c)"
  by (simp add: pair_eq_iff)

lemma set_head_raw: "set_head (raw_tickets h t) h' = raw_tickets h' t"
  by (simp add: set_head_def)

lemma raw_tickets_0: "0 = raw_tickets 0 0"
  by (simp add: pair_eq_iff) (simp add: pair_head_def pair_tail_def)

lemma int_unat_numeral: "int (unat (numeral n :: u16)) = numeral n mod 65536"
proof -
  have "unat (of_nat (numeral n) :: u16) = numeral n mod 2 ^ 16" by (subst unat_of_nat) simp
  then show ?thesis by (simp only: of_nat_numeral zmod_int) simp
qed

lemmas q_eval = q_turn_def acquire_turn_def QTicketAcquire_def QTicketRelease_def go_def set_word_def
  set_head_of_def set_elem_def tkt_spin_pass_def atomic_exchange_and_add_def raw_tickets_add
  set_head_raw int_unat_numeral queued_def TKT_Q_SWITCH_def tkt_q_find_head_def

lemma hashes: "tkt_q_hash 256 = 1" "tkt_q_hash 260 = 1" "tkt_q_next_slot (Suc 0) = 2"
  by (simp_all add: tkt_q_hash_def tkt_q_next_slot_def TKT_Q_NQUEUES_def NR_CPUS_def TKT_Q_SWITCH_def)

lemma replicate_numeral: "replicate (numeral n) x = x # replicate (pred_numeral n) x"
  by (simp add: numeral_eq_Suc)

lemma q_start_raw:
  "q_start = \<lparr>q_word = (\<lambda>_. raw_tickets 0 0),
     q_heads = (\<lambda>_. \<lparr>q_ref = No_lock, q_head_tkt = 0, q_spin = None, q_spin_tail = Null_link\<rparr>),
     q_elem = (\<lambda>_. \<lparr>q_cpu = 0, q_tail = 0, q_next = None\<rparr>),
     q_at = (\<lambda>_. Outside)\<rparr>"
  by (simp add: q_start_def smp_store_release_def flip: raw_tickets_0)

text \<open>
  C5: the queued ticket lock does not exclude: from the start, with the moves above, threads 1
  and 2 are both inside \<open>lock_l\<close>. Every move is one a program can make, and the two locks share
  nothing but their hash.
\<close>

theorem two_threads_inside:
  "\<exists>s. q_run (first_queue @ second_queue @ wrong_queue) q_start = Some s \<and>
    q_inside s lock_l 1 \<and> q_inside s lock_l 2"
  unfolding q_start_raw
  by (simp add: first_queue_def second_queue_def wrong_queue_def lock_l_def lock_m_def q_eval hashes
      replicate_numeral Let_def store_link_def q_inside_def)

end
