(* ===== verification/Memops.thy ===== *)
theory Memops
  imports Prelude
begin

text \<open>
  The scatter-gather copy of \<open>lib/memops.c\<close>. Memory is a function from 64-bit addresses to
  bytes. A pair of loads followed by its stores moves a few bytes at once (\<open>mov\<close>); the
  registers the moves go through, the prefetches and the fence are not part of the state.
  An instruction that requires an aligned operand and gets another faults, and a failed
  \<open>assert\<close> aborts: the result of the functions is \<open>None\<close> then.
\<close>

type_synonym memory = "u64 \<Rightarrow> u8"

section \<open>The copy loops\<close>

text \<open>\<open>k\<close> bytes loaded from \<open>from\<close> before they are stored at \<open>to\<close>.\<close>

definition mov :: "nat \<Rightarrow> u64 \<Rightarrow> u64 \<Rightarrow> memory \<Rightarrow> memory" where
  "mov k from to m = (\<lambda>a. if unat (a - to) < k then m (from + (a - to)) else m a)"

text \<open>The parameters and variables of a copy function: \<open>to\<close>, \<open>from\<close>, \<open>n\<close>, and memory.\<close>

record copy =
  cp_to :: u64
  cp_from :: u64
  cp_n :: u64
  cp_mem :: memory

text \<open>
  \<open>i\<close> is an \<open>int32_t\<close>: the number of turns of a loop \<open>for (; i>0; i--)\<close> after \<open>i = x\<close>.
\<close>

definition turns :: "u64 \<Rightarrow> nat" where
  "turns x = nat (sint (ucast x :: u32))"

text \<open>One move of \<open>k\<close> bytes with the two pointers advanced, and \<open>i\<close> of them.\<close>

definition advance :: "nat \<Rightarrow> copy \<Rightarrow> copy" where
  "advance k s = s\<lparr>cp_mem := mov k (cp_from s) (cp_to s) (cp_mem s),
     cp_from := cp_from s + of_nat k, cp_to := cp_to s + of_nat k\<rparr>"

primrec advances :: "nat \<Rightarrow> nat \<Rightarrow> copy \<Rightarrow> copy" where
  "advances k 0 s = s"
| "advances k (Suc i) s = advances k i (advance k s)"

text \<open>\<open>ALIGN_DEST(align)\<close>; note that \<open>n\<close> is unsigned.\<close>

primrec align_loop :: "nat \<Rightarrow> copy \<Rightarrow> copy" where
  "align_loop 0 s = s"
| "align_loop (Suc i) s =
     (if cp_n s > 0 then align_loop i ((advance 4 s)\<lparr>cp_n := cp_n s - 4\<rparr>) else s)"

definition align_dest :: "u64 \<Rightarrow> copy \<Rightarrow> copy" where
  "align_dest align s = align_loop (turns (drop_bit 2 ((NOT (cp_to s) + 1) AND (align - 1)))) s"

text \<open>\<open>COPY_TAIL()\<close>.\<close>

definition copy_tail :: "copy \<Rightarrow> copy" where
  "copy_tail s =
     (let s1 = (advances 8 (turns (drop_bit 3 (cp_n s))) s)\<lparr>cp_n := cp_n s AND 7\<rparr>;
          i = drop_bit 2 (cp_n s1); n = cp_n s1 AND 3;
          i' = (if n \<noteq> 0 then i + 1 else i)
      in (advances 4 (turns i') s1)\<lparr>cp_n := n\<rparr>)"

text \<open>
  The loops over blocks: a turn moves each of \<open>parts\<close> pieces of \<open>k\<close> bytes at its offset, and
  then advances both pointers by the size of the block.
\<close>

fun block_parts :: "nat \<Rightarrow> nat \<Rightarrow> nat \<Rightarrow> copy \<Rightarrow> memory" where
  "block_parts k off 0 s = cp_mem s"
| "block_parts k off (Suc p) s =
     block_parts k (off + k) p
       (s\<lparr>cp_mem := mov k (cp_from s + of_nat off) (cp_to s + of_nat off) (cp_mem s)\<rparr>)"

definition block :: "nat \<Rightarrow> nat \<Rightarrow> copy \<Rightarrow> copy" where
  "block k parts s = s\<lparr>cp_mem := block_parts k 0 parts s,
     cp_from := cp_from s + of_nat (k * parts), cp_to := cp_to s + of_nat (k * parts)\<rparr>"

primrec blocks :: "nat \<Rightarrow> nat \<Rightarrow> nat \<Rightarrow> copy \<Rightarrow> copy" where
  "blocks k parts 0 s = s"
| "blocks k parts (Suc i) s = blocks k parts i (block k parts s)"

section \<open>The copy functions\<close>

text \<open>\<open>_block_nt_copy\<close>: blocks of 64 bytes, as four pairs of 64-bit moves.\<close>

definition block_nt_copy :: "u64 \<Rightarrow> u64 \<Rightarrow> u64 \<Rightarrow> memory \<Rightarrow> memory option" where
  "block_nt_copy to from n m =
     (let s = align_dest 8 \<lparr>cp_to = to, cp_from = from, cp_n = n, cp_mem = m\<rparr>;
          s1 = (blocks 16 4 (turns (drop_bit 6 (cp_n s))) s)\<lparr>cp_n := cp_n s AND 63\<rparr>
      in Some (cp_mem (copy_tail s1)))"

text \<open>
  The loads of the vector copies are the aligned kind when the test on the source says so,
  the stores always are. Executed at least once with an unaligned address they fault.
\<close>

definition faults :: "u64 \<Rightarrow> bool \<Rightarrow> nat \<Rightarrow> copy \<Rightarrow> bool" where
  "faults align aligned_loads i s \<longleftrightarrow>
     i > 0 \<and> (cp_to s AND (align - 1) \<noteq> 0 \<or> aligned_loads \<and> cp_from s AND (align - 1) \<noteq> 0)"

text \<open>
  \<open>_block_xmm_copy\<close>: blocks of 64 bytes as two pairs of 128-bit moves, then single ones.
\<close>

definition block_xmm_copy :: "u64 \<Rightarrow> u64 \<Rightarrow> u64 \<Rightarrow> memory \<Rightarrow> memory option" where
  "block_xmm_copy to from n m =
     (let s = align_dest 16 \<lparr>cp_to = to, cp_from = from, cp_n = n, cp_mem = m\<rparr>;
          al = (cp_from s AND 15 = 0);
          i = turns (drop_bit 6 (cp_n s));
          s1 = (blocks 32 2 i s)\<lparr>cp_n := cp_n s AND 63\<rparr>;
          j = turns (drop_bit 4 (cp_n s1));
          s2 = (advances 16 j s1)\<lparr>cp_n := cp_n s1 AND 15\<rparr>
      in if faults 16 al i s \<or> faults 16 al j s1 then None
         else Some (cp_mem (copy_tail s2)))"

text \<open>\<open>_block_avx_copy\<close>: the same with 256-bit moves; the test on the source is \<open>from & 32\<close>.\<close>

definition block_avx_copy :: "u64 \<Rightarrow> u64 \<Rightarrow> u64 \<Rightarrow> memory \<Rightarrow> memory option" where
  "block_avx_copy to from n m =
     (let s = align_dest 32 \<lparr>cp_to = to, cp_from = from, cp_n = n, cp_mem = m\<rparr>;
          al = (cp_from s AND 32 = 0);
          i = turns (drop_bit 7 (cp_n s));
          s1 = (blocks 64 2 i s)\<lparr>cp_n := cp_n s AND 127\<rparr>;
          j = turns (drop_bit 5 (cp_n s1));
          s2 = (advances 32 j s1)\<lparr>cp_n := cp_n s1 AND 31\<rparr>
      in if faults 32 al i s \<or> faults 32 al j s1 then None
         else Some (cp_mem (copy_tail s2)))"

section \<open>Scatter-gather lists\<close>

record numachip_sge =
  sge_from :: u64
  sge_to :: u64
  sge_length :: u32

text \<open>The loop of the three \<open>_numachip_sge_copy\<close> functions over the list.\<close>

fun sge_loop :: "(u64 \<Rightarrow> u64 \<Rightarrow> u64 \<Rightarrow> memory \<Rightarrow> memory option) \<Rightarrow> numachip_sge list \<Rightarrow> memory \<Rightarrow> memory option" where
  "sge_loop cpy [] m = Some m"
| "sge_loop cpy (e # es) m =
     (if sge_to e AND 3 \<noteq> 0 then None
      else case cpy (sge_to e) (sge_from e) (ucast (sge_length e)) m of
             None \<Rightarrow> None
           | Some m' \<Rightarrow> sge_loop cpy es m')"

definition numachip_sge_copy_nt :: "numachip_sge list \<Rightarrow> memory \<Rightarrow> memory option" where
  "numachip_sge_copy_nt = sge_loop block_nt_copy"

definition numachip_sge_copy_xmm :: "numachip_sge list \<Rightarrow> memory \<Rightarrow> memory option" where
  "numachip_sge_copy_xmm = sge_loop block_xmm_copy"

definition numachip_sge_copy_avx :: "numachip_sge list \<Rightarrow> memory \<Rightarrow> memory option" where
  "numachip_sge_copy_avx = sge_loop block_avx_copy"

section \<open>Choosing the function\<close>

text \<open>
  The processor's answers to \<open>cpuid\<close> (eax, ebx, ecx, edx for a leaf) and \<open>xgetbv\<close>
  (eax, edx), and the environment variables set.
\<close>

record platform =
  cpuid_regs :: "u32 \<Rightarrow> u32 \<times> u32 \<times> u32 \<times> u32"
  xgetbv_regs :: "u32 \<Rightarrow> u32 \<times> u32"
  env_has :: "string \<Rightarrow> bool"
  built_with_avx :: bool

definition cpuid_ecx :: "platform \<Rightarrow> u32 \<Rightarrow> u32" where
  "cpuid_ecx p leaf = (case cpuid_regs p leaf of (a, b, c, d) \<Rightarrow> c)"

definition cpuid_edx :: "platform \<Rightarrow> u32 \<Rightarrow> u32" where
  "cpuid_edx p leaf = (case cpuid_regs p leaf of (a, b, c, d) \<Rightarrow> d)"

definition xgetbv :: "platform \<Rightarrow> u32 \<Rightarrow> u64" where
  "xgetbv p index = (case xgetbv_regs p index of (a, d) \<Rightarrow> ucast a + push_bit 32 (ucast d))"

definition SSE2_FLAGS :: u32 where "SSE2_FLAGS = push_bit 26 1"

definition have_sse2 :: "platform \<Rightarrow> bool" where
  "have_sse2 p \<longleftrightarrow> cpuid_edx p 1 AND SSE2_FLAGS = SSE2_FLAGS"

definition AVX_FLAGS :: u32 where "AVX_FLAGS = push_bit 27 1 OR push_bit 28 1"

definition have_avx :: "platform \<Rightarrow> bool" where
  "have_avx p \<longleftrightarrow> cpuid_ecx p 1 AND AVX_FLAGS = AVX_FLAGS \<and> xgetbv p 0 AND 6 = 6"

text \<open>
  The function \<open>numachip_sge_copy\<close> points to when the library has been loaded.
\<close>

datatype sge_copy = Copy_nt | Copy_xmm | Copy_avx

definition memops_lib_constructor :: "platform \<Rightarrow> sge_copy option" where
  "memops_lib_constructor p =
     (if \<not> have_sse2 p then None
      else if built_with_avx p \<and> have_avx p \<and> env_has p ''MEMOPS_USE_AVX'' then Some Copy_avx
      else if env_has p ''MEMOPS_USE_XMM'' then Some Copy_xmm
      else Some Copy_nt)"

fun numachip_sge_copy :: "sge_copy \<Rightarrow> numachip_sge list \<Rightarrow> memory \<Rightarrow> memory option" where
  "numachip_sge_copy Copy_nt = numachip_sge_copy_nt"
| "numachip_sge_copy Copy_xmm = numachip_sge_copy_xmm"
| "numachip_sge_copy Copy_avx = numachip_sge_copy_avx"

section \<open>What the loops move\<close>

text \<open>No byte of the source is a byte of the destination.\<close>

definition separate :: "nat \<Rightarrow> u64 \<Rightarrow> u64 \<Rightarrow> bool" where
  "separate N from to \<longleftrightarrow> (\<forall>i<N. \<forall>j<N. from + of_nat i \<noteq> to + of_nat j)"

text \<open>
  Of a copy of \<open>N\<close> bytes, separate from their source, \<open>d\<close> have been moved: memory is what one
  move of \<open>d\<close> bytes makes of it.
\<close>

definition moved :: "nat \<Rightarrow> u64 \<Rightarrow> u64 \<Rightarrow> memory \<Rightarrow> nat \<Rightarrow> copy \<Rightarrow> bool" where
  "moved N src dst m d s \<longleftrightarrow> separate N src dst \<and> N < 2 ^ 33 \<and> d \<le> N \<and>
     cp_from s = src + of_nat d \<and> cp_to s = dst + of_nat d \<and> cp_mem s = mov d src dst m"

lemma mov_0 [simp]: "mov 0 from to m = m"
  by (simp add: mov_def)

lemma mov_mov:
  assumes sep: "separate N from to" and N: "d + k \<le> N" "N < 2 ^ 64"
  shows "mov k (from + of_nat d) (to + of_nat d) (mov d from to m) = mov (d + k) from to m"
proof
  fix a
  define x where "x = a - to"
  have ux: "unat x < 2 ^ 64" using unsigned_less [of x] by simp
  have d: "unat (of_nat d :: u64) = d" using N by (simp add: unsigned_of_nat take_bit_nat_eq_self)
  have sub: "unat (x - of_nat d) = (if d \<le> unat x then unat x - d else unat x + 2 ^ 64 - d)"
    using d by (simp add: unat_sub_if')
  have e: "a - (to + of_nat d) = x - of_nat d" "from + of_nat d + (x - of_nat d) = from + x"
    by (simp_all add: x_def)
  have "\<not> unat (from + x - to) < d" if "unat x < N"
  proof
    assume l: "unat (from + x - to) < d"
    have "from + of_nat (unat x) = to + of_nat (unat (from + x - to))" by simp
    with sep that l N show False unfolding separate_def by (meson le_less_trans le_add1 less_le_trans)
  qed
  then show "mov k (from + of_nat d) (to + of_nat d) (mov d from to m) a = mov (d + k) from to m a"
    using N ux unfolding mov_def e sub x_def [symmetric] by auto
qed

lemma moved_advance:
  assumes "moved N src dst m d s" "d + k \<le> N"
  shows "moved N src dst m (d + k) (advance k s)"
proof -
  have "separate N src dst" "N < 2 ^ 64" using assms(1) by (simp_all add: moved_def)
  from mov_mov [OF this(1) assms(2) this(2), of m] assms show ?thesis
    by (simp add: moved_def advance_def)
qed

lemma moved_advances:
  "moved N src dst m d s \<Longrightarrow> d + k * i \<le> N \<Longrightarrow> moved N src dst m (d + k * i) (advances k i s)"
proof (induction i arbitrary: d s)
  case (Suc i)
  then show ?case using moved_advance [of N src dst m d s k] Suc.IH [of "d + k" "advance k s"]
    by (simp add: algebra_simps)
qed simp

lemma block_parts_mov:
  "separate N src dst \<Longrightarrow> N < 2 ^ 33 \<Longrightarrow> cp_from s = src + of_nat d \<Longrightarrow> cp_to s = dst + of_nat d \<Longrightarrow>
    cp_mem s = mov (d + off) src dst m \<Longrightarrow> d + off + k * p \<le> N \<Longrightarrow>
    block_parts k off p s = mov (d + off + k * p) src dst m"
proof (induction p arbitrary: off s)
  case (Suc p)
  have "mov k (cp_from s + of_nat off) (cp_to s + of_nat off) (cp_mem s) = mov (d + (off + k)) src dst m"
    using mov_mov [OF Suc.prems(1), of "d + off" k m] Suc.prems by (simp add: algebra_simps)
  with Suc.prems show ?case
    by (simp add: Suc.IH) (simp add: algebra_simps)
qed simp

lemma moved_block:
  "moved N src dst m d s \<Longrightarrow> d + k * p \<le> N \<Longrightarrow> moved N src dst m (d + k * p) (block k p s)"
  using block_parts_mov [of N src dst s d 0 m k p] by (simp add: moved_def block_def)

lemma moved_blocks:
  "moved N src dst m d s \<Longrightarrow> d + k * p * i \<le> N \<Longrightarrow>
    moved N src dst m (d + k * p * i) (blocks k p i s)"
proof (induction i arbitrary: d s)
  case (Suc i)
  then show ?case
    using moved_block [of N src dst m d s k p] Suc.IH [of "d + k * p" "block k p s"]
    by (simp add: algebra_simps)
qed simp

text \<open>None of the loops touches \<open>n\<close>, and the moves do not look at it.\<close>

lemma cp_n_loops [simp]:
  "cp_n (advance k s) = cp_n s" "cp_n (advances k i s) = cp_n s" "cp_n (blocks k p i s) = cp_n s"
proof -
  show a: "cp_n (advance k s) = cp_n s" for s by (simp add: advance_def)
  show "cp_n (advances k i s) = cp_n s" by (induction i arbitrary: s) (simp_all add: a)
  show "cp_n (blocks k p i s) = cp_n s" by (induction i arbitrary: s) (simp_all add: block_def)
qed

lemma moved_n [simp]: "moved N src dst m d (s\<lparr>cp_n := n\<rparr>) = moved N src dst m d s"
  by (simp add: moved_def)

section \<open>The counts\<close>

lemma turns_small: "unat x < 2 ^ 31 \<Longrightarrow> turns x = unat x"
proof -
  assume x: "unat x < 2 ^ 31"
  have "x = of_nat (unat x)" by simp
  then obtain k where k: "x = of_nat k" "k < 2 ^ 31" using x by blast
  have "sint (of_nat k :: u32) = int k"
    using k(2) by (simp add: signed_of_nat signed_take_bit_int_eq_self_iff)
  moreover have "(ucast x :: u32) = of_nat k"
    by (simp add: k(1) word_unat_eq_iff unsigned_ucast_eq unsigned_of_nat take_bit_take_bit)
  ultimately show ?thesis using k by (simp add: turns_def unsigned_of_nat take_bit_nat_eq_self)
qed

lemma and_mask_unat: "unat (x AND mask k) = unat (x :: u64) mod 2 ^ k"
  by (simp add: take_bit_eq_mask [symmetric] unsigned_take_bit_eq take_bit_nat_def)

lemma small_masks:
  "(3 :: u64) = mask 2" "(7 :: u64) = mask 3" "(15 :: u64) = mask 4" "(31 :: u64) = mask 5"
  "(63 :: u64) = mask 6" "(127 :: u64) = mask 7"
  by (simp_all add: mask_eq_exp_minus_1)

lemma unat_and_masks:
  fixes x :: u64
  shows "unat (x AND 3) = unat x mod 4" "unat (x AND 7) = unat x mod 8" "unat (x AND 15) = unat x mod 16"
    "unat (x AND 31) = unat x mod 32" "unat (x AND 63) = unat x mod 64" "unat (x AND 127) = unat x mod 128"
  by (simp_all only: small_masks and_mask_unat) simp_all

lemma unat_drop: "unat (drop_bit k (x :: u64)) = unat x div 2 ^ k"
proof -
  have "unat x < 2 ^ 64" using unsigned_less [of x] by simp
  then show ?thesis by (simp add: unsigned_drop_bit_eq drop_bit_nat_def take_bit_nat_eq_self)
qed

lemma turns_drop: "unat x < 2 ^ 31 \<Longrightarrow> turns (drop_bit k x) = unat x div 2 ^ k"
  using turns_small [of "drop_bit k x"] by (simp add: unat_drop)
    (meson div_le_dividend le_less_trans)

text \<open>A number of bytes, rounded up to double words.\<close>

definition up4 :: "nat \<Rightarrow> nat" where
  "up4 r = 4 * ((r + 3) div 4)"

lemma up4_dvd: "4 dvd r \<Longrightarrow> up4 r = r"
  by (auto simp: up4_def dvd_def)

lemma up4_add: "4 dvd d \<Longrightarrow> d + up4 r = up4 (d + r)"
  unfolding up4_def by presburger

lemma up4_ge: "r \<le> up4 r"
  unfolding up4_def by presburger

lemma up4_less: "up4 r < r + 4"
  unfolding up4_def by presburger

lemma tail_sum: "8 * (r div 8) + 4 * ((r mod 8 + 3) div 4) = up4 r" for r :: nat
  unfolding up4_def by presburger

lemma tail_turns:
  fixes x :: u64
  assumes "unat x < 8"
  shows "turns (if x AND 3 \<noteq> 0 then drop_bit 2 x + 1 else drop_bit 2 x) = (unat x + 3) div 4"
proof -
  have d: "unat (drop_bit 2 x) = unat x div 4" by (simp add: unat_drop)
  then have s: "unat (drop_bit 2 x + 1) = unat x div 4 + 1"
    using assms by (simp add: unat_word_ariths)
  have z: "x AND 3 = 0 \<longleftrightarrow> unat x mod 4 = 0" by (simp add: word_unat_eq_iff unat_and_masks)
  have "turns (drop_bit 2 x + 1) = unat x div 4 + 1" "turns (drop_bit 2 x) = unat x div 4"
    using assms d s by (simp_all add: turns_small)
  moreover have "(unat x + 3) div 4 = (if unat x mod 4 = 0 then unat x div 4 else unat x div 4 + 1)"
    by presburger
  ultimately show ?thesis unfolding z by simp
qed

lemma copy_tail_moves:
  assumes "moved N src dst m d s" "unat (cp_n s) < 128" "N = d + up4 (unat (cp_n s))"
  shows "cp_mem (copy_tail s) = mov N src dst m"
proof -
  let ?r = "unat (cp_n s)"
  let ?s1 = "(advances 8 (?r div 8) s)\<lparr>cp_n := cp_n s AND 7\<rparr>"
  have t: "turns (drop_bit 3 (cp_n s)) = ?r div 8"
    using turns_drop [of "cp_n s" 3] assms(2) by simp
  have n1: "unat (cp_n s AND 7) = ?r mod 8" by (simp add: unat_and_masks)
  have "moved N src dst m (d + 8 * (?r div 8)) ?s1"
    using moved_advances [OF assms(1), of 8 "?r div 8"] tail_sum [of ?r] assms(3) by simp
  from moved_advances [OF this, of 4 "(?r mod 8 + 3) div 4"] tail_sum [of ?r] assms(3)
  have "moved N src dst m N (advances 4 ((?r mod 8 + 3) div 4) ?s1)" by (simp add: add.assoc)
  then have m: "cp_mem (advances 4 ((?r mod 8 + 3) div 4) ?s1) = mov N src dst m"
    by (simp add: moved_def)
  have i: "turns (if cp_n ?s1 AND 3 \<noteq> 0 then drop_bit 2 (cp_n ?s1) + 1 else drop_bit 2 (cp_n ?s1)) =
      (?r mod 8 + 3) div 4"
    using tail_turns [of "cp_n ?s1"] n1 by simp
  show ?thesis unfolding copy_tail_def Let_def t i using m by simp
qed

lemma align_loop_moves:
  "moved N src dst m d s \<Longrightarrow> d + unat (cp_n s) \<le> N \<Longrightarrow>
    4 * i \<le> unat (cp_n s) \<or> 4 dvd unat (cp_n s) \<Longrightarrow>
    \<exists>j\<le>i. moved N src dst m (d + 4 * j) (align_loop i s) \<and> 4 * j \<le> unat (cp_n s) \<and>
      unat (cp_n (align_loop i s)) = unat (cp_n s) - 4 * j \<and>
      (j = i \<or> cp_n (align_loop i s) = 0)"
proof (induction i arbitrary: d s)
  case (Suc i)
  show ?case
  proof (cases "cp_n s = 0")
    case False
    then have pos: "0 < unat (cp_n s)" by (simp add: unat_gt_0)
    with Suc.prems(3) have four: "4 \<le> unat (cp_n s)" by (auto dest: dvd_imp_le)
    let ?s = "(advance 4 s)\<lparr>cp_n := cp_n s - 4\<rparr>"
    have n: "unat (cp_n ?s) = unat (cp_n s) - 4" using four by (simp add: unat_sub_if')
    have m: "moved N src dst m (d + 4) ?s"
      using moved_advance [OF Suc.prems(1), of 4] Suc.prems(2) four by simp
    have "4 * i \<le> unat (cp_n ?s) \<or> 4 dvd unat (cp_n ?s)"
      using Suc.prems(3) n four by (auto simp: dvd_diff_nat)
    from Suc.IH [OF m _ this] n four Suc.prems(2) obtain j where
      j: "j \<le> i" "moved N src dst m (d + 4 + 4 * j) (align_loop i ?s)" "4 * j \<le> unat (cp_n ?s)"
        "unat (cp_n (align_loop i ?s)) = unat (cp_n ?s) - 4 * j"
        "j = i \<or> cp_n (align_loop i ?s) = 0" by auto
    then show ?thesis using False n four
      by (intro exI [of _ "Suc j"]) (auto simp: word_greater_zero_iff add.assoc)
  qed (use Suc.prems in \<open>auto intro!: exI [of _ 0]\<close>)
qed auto

lemma take_bit_unat: "take_bit k (x :: u64) = 0 \<longleftrightarrow> 2 ^ k dvd unat x"
  by (simp add: word_unat_eq_iff unsigned_take_bit_eq take_bit_nat_def dvd_eq_mod_eq_0)

lemma take_bit_minus_zero:
  fixes x :: u64
  assumes "k \<le> 64" "take_bit k x = 0"
  shows "take_bit k (- x) = 0"
  using take_bit_add_u64 [OF assms(1), of x "- x"] assms(2) by simp

text \<open>The bytes up to the next boundary, for a destination on a double word.\<close>

lemma dest_boundary:
  fixes x :: u64
  assumes "take_bit 2 x = 0" "2 \<le> k" "k \<le> 5" and m: "align - 1 = mask k"
  defines "b \<equiv> unat (take_bit k (- x))"
  shows "4 dvd b" "b < 2 ^ k" "turns (drop_bit 2 ((NOT x + 1) AND (align - 1))) = b div 4"
    "take_bit k (x + of_nat b) = 0"
proof -
  have "take_bit 2 (- x) = 0" using assms(1) by (intro take_bit_minus_zero) simp_all
  then have "take_bit 2 (take_bit k (- x)) = 0"
    using assms(2) by (simp add: take_bit_take_bit min_absorb1)
  then show "4 dvd b" unfolding take_bit_unat b_def by simp
  have "b = unat (- x) mod 2 ^ k" by (simp add: b_def unsigned_take_bit_eq take_bit_nat_def)
  then show b: "b < 2 ^ k" by simp
  have "(2 :: nat) ^ k \<le> 2 ^ 5" using assms(3) by (intro power_increasing) simp_all
  with b have "b < 2 ^ 31" by simp
  moreover have "(NOT x + 1) AND (align - 1) = take_bit k (- x)"
    unfolding m by (simp add: minus_eq_not_plus_1 take_bit_eq_mask)
  ultimately show "turns (drop_bit 2 ((NOT x + 1) AND (align - 1))) = b div 4"
    using turns_drop [of "take_bit k (- x)" 2] by (simp add: b_def)
  have k64: "k \<le> 64" using assms(3) by simp
  have "take_bit k (x + take_bit k (- x)) = take_bit k (take_bit k x + take_bit k (take_bit k (- x)))"
    by (rule take_bit_add_u64 [OF k64, symmetric])
  also have "\<dots> = take_bit k (x + - x)"
    by (simp only: take_bit_take_bit min.idem take_bit_add_u64 [OF k64])
  finally show "take_bit k (x + of_nat b) = 0" by (simp add: b_def)
qed

lemma align_dest_moves:
  assumes m: "moved N src dst mm 0 s" and n: "unat (cp_n s) \<le> N"
    and dst: "take_bit 2 dst = 0" and k: "2 \<le> k" "k \<le> 5" "align - 1 = mask k"
    and long: "4 dvd unat (cp_n s) \<or> 2 ^ k \<le> unat (cp_n s)"
  obtains d where "moved N src dst mm d (align_dest align s)" "4 dvd d" "d \<le> unat (cp_n s)"
    "unat (cp_n (align_dest align s)) = unat (cp_n s) - d"
    "cp_n (align_dest align s) = 0 \<or> take_bit k (cp_to (align_dest align s)) = 0"
proof -
  have to: "cp_to s = dst" using m by (simp add: moved_def)
  define b where "b = unat (take_bit k (- dst))"
  note ub = dest_boundary [OF dst k, folded b_def]
  have "4 * (b div 4) \<le> unat (cp_n s) \<or> 4 dvd unat (cp_n s)" using long ub(2) by auto
  from align_loop_moves [OF m _ this] n obtain j where
    j: "moved N src dst mm (4 * j) (align_loop (b div 4) s)" "4 * j \<le> unat (cp_n s)"
      "unat (cp_n (align_loop (b div 4) s)) = unat (cp_n s) - 4 * j"
      "j = b div 4 \<or> cp_n (align_loop (b div 4) s) = 0" by auto
  have a: "align_dest align s = align_loop (b div 4) s"
    unfolding align_dest_def to ub(3) ..
  have "take_bit k (cp_to (align_loop (b div 4) s)) = 0" if "j = b div 4"
    using j(1) ub(1,4) that by (simp add: moved_def)
  with j show ?thesis by (intro that [of "4 * j"]) (auto simp: a)
qed

section \<open>The copy functions move what they are asked for\<close>

text \<open>
  After a loop over blocks of \<open>2 ^ b\<close> bytes as \<open>p\<close> moves of \<open>k\<close> bytes: \<open>n\<close> is the remainder.
\<close>

lemma blocks_moves:
  assumes "moved N src dst m d s" "d + unat (cp_n s) \<le> N" "unat (cp_n s) < 2 ^ 31" "k * p = 2 ^ b"
  shows "moved N src dst m (d + 2 ^ b * (unat (cp_n s) div 2 ^ b)) (blocks k p (turns (drop_bit b (cp_n s))) s)"
proof -
  have "2 ^ b * (unat (cp_n s) div 2 ^ b) \<le> unat (cp_n s)" by (rule times_div_less_eq_dividend)
  with assms(2) have "d + k * p * (unat (cp_n s) div 2 ^ b) \<le> N" unfolding assms(4) by linarith
  from moved_blocks [OF assms(1) this] show ?thesis
    unfolding assms(4) turns_drop [OF assms(3)] .
qed

text \<open>
  The hypotheses the three functions share: \<open>n\<close> bytes, of which the last double word may be
  only partly wanted, to a destination on a double word; an odd number of bytes must not end
  before the boundary (\<open>2 ^ k\<close>).
\<close>

definition copy_ok :: "nat \<Rightarrow> u64 \<Rightarrow> u64 \<Rightarrow> u64 \<Rightarrow> bool" where
  "copy_ok k dst src n \<longleftrightarrow> take_bit 2 dst = 0 \<and> separate (up4 (unat n)) src dst \<and>
     unat n < 2 ^ 31 \<and> (4 dvd unat n \<or> 2 ^ k \<le> unat n)"

lemma copy_ok_start:
  fixes m :: memory
  assumes "copy_ok k dst src n" "2 \<le> k" "k \<le> 5" "align - 1 = mask k"
  defines "s \<equiv> align_dest align \<lparr>cp_to = dst, cp_from = src, cp_n = n, cp_mem = m\<rparr>"
  obtains d where "moved (up4 (unat n)) src dst m d s" "4 dvd d"
    "up4 (unat n) = d + up4 (unat (cp_n s))" "unat (cp_n s) < 2 ^ 31"
    "cp_n s = 0 \<or> take_bit k (cp_to s) = 0"
proof -
  let ?s = "\<lparr>cp_to = dst, cp_from = src, cp_n = n, cp_mem = m\<rparr>"
  have "moved (up4 (unat n)) src dst m 0 ?s"
    using assms(1) up4_less [of "unat n"] by (simp add: moved_def copy_ok_def)
  from align_dest_moves [OF this _ _ assms(2-4)] assms(1) up4_ge [of "unat n"] obtain d where
    d: "moved (up4 (unat n)) src dst m d s" "4 dvd d" "d \<le> unat n" "unat (cp_n s) = unat n - d"
      "cp_n s = 0 \<or> take_bit k (cp_to s) = 0"
    by (auto simp: copy_ok_def s_def)
  moreover have "up4 (unat n) = d + up4 (unat (cp_n s))"
    using up4_add [OF d(2), of "unat n - d"] d(3,4) by simp
  moreover have "unat (cp_n s) < 2 ^ 31" using d(4) assms(1) by (auto simp: copy_ok_def)
  ultimately show ?thesis using that by blast
qed

lemma block_nt_copy_moves:
  assumes "copy_ok 3 dst src n"
  shows "block_nt_copy dst src n m = Some (mov (up4 (unat n)) src dst m)"
proof -
  define s where "s = align_dest 8 \<lparr>cp_to = dst, cp_from = src, cp_n = n, cp_mem = m\<rparr>"
  from copy_ok_start [OF assms, where align = 8 and m = m] obtain d where
    d: "moved (up4 (unat n)) src dst m d s" "4 dvd d" "up4 (unat n) = d + up4 (unat (cp_n s))"
      "unat (cp_n s) < 2 ^ 31" by (auto simp: s_def mask_eq_exp_minus_1)
  let ?r = "unat (cp_n s)"
  define s1 where "s1 = (blocks 16 4 (turns (drop_bit 6 (cp_n s))) s)\<lparr>cp_n := cp_n s AND 63\<rparr>"
  have n1: "unat (cp_n s1) = ?r mod 64" by (simp add: s1_def unat_and_masks)
  have "d + ?r \<le> up4 (unat n)" using d(3) up4_ge [of ?r] by simp
  from blocks_moves [OF d(1) this d(4), of 16 4 6] have
    m1: "moved (up4 (unat n)) src dst m (d + 64 * (?r div 64)) s1" by (simp add: s1_def)
  have "up4 (unat n) = d + 64 * (?r div 64) + up4 (unat (cp_n s1))"
    using d(3) up4_add [of "64 * (?r div 64)" "?r mod 64"] n1 by simp
  from copy_tail_moves [OF m1 _ this] n1 show ?thesis
    by (simp add: block_nt_copy_def Let_def s_def [symmetric] s1_def [symmetric])
qed

text \<open>The vector copies: blocks of \<open>2 ^ b\<close> bytes, single vectors of \<open>2 ^ k\<close> bytes, the tail.\<close>

lemma blocks_pointers:
  "cp_to (blocks k p i s) = cp_to s + of_nat (k * p * i)"
  "cp_from (blocks k p i s) = cp_from s + of_nat (k * p * i)"
  by (induction i arbitrary: s) (simp_all add: block_def algebra_simps)

lemma boundary_stays:
  assumes "k \<le> b" "b \<le> 64"
  shows "take_bit k ((x :: u64) + of_nat (2 ^ b * q)) = take_bit k x"
proof -
  have "(2 :: nat) ^ k dvd 2 ^ b * q" using assms(1) by (simp add: le_imp_power_dvd)
  moreover have "(2 :: nat) ^ k dvd 2 ^ 64" using assms by (intro le_imp_power_dvd) simp
  ultimately have "2 ^ k dvd unat (of_nat (2 ^ b * q) :: u64)"
    by (simp only: unsigned_of_nat take_bit_nat_def) (simp add: dvd_mod)
  then have "take_bit k (of_nat (2 ^ b * q) :: u64) = 0" by (simp only: take_bit_unat)
  then show ?thesis using take_bit_add_u64 [of k x "of_nat (2 ^ b * q)"] assms by simp
qed

lemma boundary_stays_mult:
  "k \<le> b \<Longrightarrow> b \<le> 64 \<Longrightarrow> take_bit k ((x :: u64) + 2 ^ b * of_nat q) = take_bit k x"
  using boundary_stays [of k b x q] by simp

lemma vector_moves:
  fixes s :: copy
  assumes d: "moved N src dst m d s" "N = d + up4 (unat (cp_n s))" "unat (cp_n s) < 2 ^ 31"
    and k: "2 \<le> k" "k \<le> b" "b \<le> 7" "q * p = 2 ^ b"
    and masks: "\<And>x. unat (x AND mb) = unat x mod 2 ^ b" "\<And>x. unat (x AND mk) = unat x mod 2 ^ k"
  defines "s1 \<equiv> (blocks q p (turns (drop_bit b (cp_n s))) s)\<lparr>cp_n := cp_n s AND mb\<rparr>"
  defines "s2 \<equiv> (advances (2 ^ k) (turns (drop_bit k (cp_n s1))) s1)\<lparr>cp_n := cp_n s1 AND mk\<rparr>"
  shows "cp_mem (copy_tail s2) = mov N src dst m"
proof -
  let ?r = "unat (cp_n s)" and ?r1 = "unat (cp_n s1)"
  have b7: "(2 :: nat) ^ b \<le> 128" "(2 :: nat) ^ k \<le> 128"
    using k(2,3) power_increasing [of b 7 "2 :: nat"] power_increasing [of k 7 "2 :: nat"] by simp_all
  have n1: "?r1 = ?r mod 2 ^ b" by (simp add: s1_def masks)
  have "?r mod 2 ^ b < 2 ^ b" by simp
  with b7 n1 have r1: "?r1 < 128" by linarith
  have four: "4 dvd (2 :: nat) ^ b" "4 dvd (2 :: nat) ^ k"
    using le_imp_power_dvd [of 2 b "2 :: nat"] le_imp_power_dvd [of 2 k "2 :: nat"] k by simp_all
  have "d + ?r \<le> N" using d(2) up4_ge [of ?r] by simp
  from blocks_moves [OF d(1) this d(3) k(4)]
  have m1: "moved N src dst m (d + 2 ^ b * (?r div 2 ^ b)) s1" by (simp add: s1_def)
  have N1: "N = d + 2 ^ b * (?r div 2 ^ b) + up4 ?r1"
    using d(2) up4_add [of "2 ^ b * (?r div 2 ^ b)" "?r mod 2 ^ b"] four(1) n1
    by (simp add: dvd_mult2)
  have t: "turns (drop_bit k (cp_n s1)) = ?r1 div 2 ^ k" using turns_drop r1 by simp
  have "2 ^ k * (?r1 div 2 ^ k) \<le> up4 ?r1"
    using times_div_less_eq_dividend [of "2 ^ k" ?r1] up4_ge [of ?r1] by linarith
  with N1 have "d + 2 ^ b * (?r div 2 ^ b) + 2 ^ k * (?r1 div 2 ^ k) \<le> N" by linarith
  from moved_advances [OF m1 this]
  have m2: "moved N src dst m (d + 2 ^ b * (?r div 2 ^ b) + 2 ^ k * (?r1 div 2 ^ k)) s2"
    by (simp add: s2_def t)
  have n2: "unat (cp_n s2) = ?r1 mod 2 ^ k" by (simp add: s2_def masks)
  have "?r1 mod 2 ^ k < 2 ^ k" by simp
  with n2 b7 have "unat (cp_n s2) < 128" by linarith
  moreover have "N = d + 2 ^ b * (?r div 2 ^ b) + 2 ^ k * (?r1 div 2 ^ k) + up4 (unat (cp_n s2))"
    using N1 up4_add [of "2 ^ k * (?r1 div 2 ^ k)" "?r1 mod 2 ^ k"] four(2) n2
    by (simp add: dvd_mult2)
  ultimately show ?thesis by (rule copy_tail_moves [OF m2])
qed

lemma no_fault:
  assumes "cp_n s = 0 \<or> take_bit k (cp_to s) = 0 \<and> (al \<longrightarrow> take_bit k (cp_from s) = 0)"
    and "align - 1 = mask k" "k \<le> b" "b \<le> 64" "q * p = 2 ^ b"
  shows "\<not> faults align al (turns (drop_bit b (cp_n s))) s"
    and "\<not> faults align al (turns (drop_bit k (cp_n s AND mb)))
      ((blocks q p (turns (drop_bit b (cp_n s))) s)\<lparr>cp_n := n'\<rparr>)"
  using assms(1)
  by (auto simp: faults_def assms(2) take_bit_eq_mask [symmetric] blocks_pointers assms(5)
      boundary_stays_mult [OF assms(3,4)] turns_small)

lemma block_xmm_copy_moves:
  assumes "copy_ok 4 dst src n"
  shows "block_xmm_copy dst src n m = Some (mov (up4 (unat n)) src dst m)"
proof -
  define s where "s = align_dest 16 \<lparr>cp_to = dst, cp_from = src, cp_n = n, cp_mem = m\<rparr>"
  from copy_ok_start [OF assms, where align = 16 and m = m] obtain d where
    d: "moved (up4 (unat n)) src dst m d s" "up4 (unat n) = d + up4 (unat (cp_n s))"
      "unat (cp_n s) < 2 ^ 31" "cp_n s = 0 \<or> take_bit 4 (cp_to s) = 0"
    by (auto simp: s_def mask_eq_exp_minus_1)
  have al: "cp_from s AND 15 = take_bit 4 (cp_from s)"
    by (simp add: take_bit_eq_mask mask_eq_exp_minus_1)
  note nf = no_fault(1) [where s = s and k = 4 and al = "cp_from s AND 15 = 0" and align = 16 and b = 6
      and q = 32 and p = 2] no_fault(2) [where s = s and k = 4 and al = "cp_from s AND 15 = 0"
      and align = 16 and b = 6 and q = 32 and p = 2 and mb = 63]
  show ?thesis
    using vector_moves [OF d(1-3), where k = 4 and b = 6 and q = 32 and p = 2 and mb = 63 and mk = 15] nf d(4) al
    by (simp add: block_xmm_copy_def Let_def s_def [symmetric] unat_and_masks mask_eq_exp_minus_1)
qed

text \<open>The AVX copy also needs its source on a 32-byte boundary when its destination is.\<close>

lemma moved_source_boundary:
  assumes "moved N src dst m d s" "take_bit k (src - dst) = 0" "take_bit k (cp_to s) = 0" "k \<le> 64"
  shows "take_bit k (cp_from s) = 0"
proof -
  have "cp_from s = (src - dst) + cp_to s" using assms(1) by (simp add: moved_def)
  then have "take_bit k (cp_from s) = take_bit k (take_bit k (src - dst) + take_bit k (cp_to s))"
    by (simp only: take_bit_add_u64 [OF assms(4)])
  with assms(2,3) show ?thesis by simp
qed

lemma block_avx_copy_moves:
  assumes "copy_ok 5 dst src n" "take_bit 5 (src - dst) = 0"
  shows "block_avx_copy dst src n m = Some (mov (up4 (unat n)) src dst m)"
proof -
  define s where "s = align_dest 32 \<lparr>cp_to = dst, cp_from = src, cp_n = n, cp_mem = m\<rparr>"
  from copy_ok_start [OF assms(1), where align = 32 and m = m] obtain d where
    d: "moved (up4 (unat n)) src dst m d s" "up4 (unat n) = d + up4 (unat (cp_n s))"
      "unat (cp_n s) < 2 ^ 31" "cp_n s = 0 \<or> take_bit 5 (cp_to s) = 0"
    by (auto simp: s_def mask_eq_exp_minus_1)
  with moved_source_boundary [OF d(1) assms(2)] have
    al: "cp_n s = 0 \<or> take_bit 5 (cp_to s) = 0 \<and> take_bit 5 (cp_from s) = 0" by auto
  then have "cp_n s = 0 \<or> take_bit 5 (cp_to s) = 0 \<and>
      (cp_from s AND 32 = 0 \<longrightarrow> take_bit 5 (cp_from s) = 0)" by blast
  note nf = no_fault [OF this, where align = 32 and b = 7 and q = 64 and p = 2]
  show ?thesis
    using vector_moves [OF d(1-3), where k = 5 and b = 7 and q = 64 and p = 2 and mb = 127 and mk = 31]
      nf(1) nf(2) [where mb = 127]
    by (simp add: block_avx_copy_def Let_def s_def [symmetric] unat_and_masks mask_eq_exp_minus_1)
qed

section \<open>Properties\<close>

text \<open>
  What an entry must be for a copy function: the destination on a double word, source and
  destination separate, and whole double words to move. The AVX function also relies on the
  two being equally far from a 32-byte boundary.
\<close>

definition sge_ok :: "sge_copy \<Rightarrow> numachip_sge \<Rightarrow> bool" where
  "sge_ok c e \<longleftrightarrow> sge_to e AND 3 = 0 \<and> 4 dvd unat (sge_length e) \<and> unat (sge_length e) < 2 ^ 31 \<and>
     separate (unat (sge_length e)) (sge_from e) (sge_to e) \<and>
     (c = Copy_avx \<longrightarrow> (sge_from e - sge_to e) AND 31 = 0)"

text \<open>The effect asked for: the bytes of each entry, moved at once, one entry after the other.\<close>

definition sge_effect :: "numachip_sge list \<Rightarrow> memory \<Rightarrow> memory" where
  "sge_effect es m = fold (\<lambda>e. mov (unat (sge_length e)) (sge_from e) (sge_to e)) es m"

lemma sge_loop_effect:
  assumes "\<And>e m. e \<in> set es \<Longrightarrow>
      cpy (sge_to e) (sge_from e) (ucast (sge_length e)) m = Some (mov (unat (sge_length e)) (sge_from e) (sge_to e) m)"
    and "\<And>e. e \<in> set es \<Longrightarrow> sge_to e AND 3 = 0"
  shows "sge_loop cpy es m = Some (sge_effect es m)"
  using assms by (induction es arbitrary: m) (simp_all add: sge_effect_def)

lemma unat_ucast_up [simp]: "unat (ucast (w :: u32) :: u64) = unat w"
proof -
  have "unat w < 2 ^ 32" using unsigned_less [of w] by simp
  then show ?thesis by (simp add: unsigned_ucast_eq take_bit_nat_eq_self)
qed

lemma sge_ok_copy_ok:
  "sge_ok c e \<Longrightarrow> copy_ok k (sge_to e) (sge_from e) (ucast (sge_length e))"
  by (simp add: sge_ok_def copy_ok_def up4_dvd take_bit_eq_mask mask_eq_exp_minus_1)

lemmas copies_move = block_nt_copy_moves block_xmm_copy_moves block_avx_copy_moves

lemma sge_entry:
  assumes "sge_ok c e"
  shows "(case c of Copy_nt \<Rightarrow> block_nt_copy | Copy_xmm \<Rightarrow> block_xmm_copy | Copy_avx \<Rightarrow> block_avx_copy)
      (sge_to e) (sge_from e) (ucast (sge_length e)) m =
    Some (mov (unat (sge_length e)) (sge_from e) (sge_to e) m)"
proof -
  have "up4 (unat (sge_length e)) = unat (sge_length e)" using assms by (simp add: sge_ok_def up4_dvd)
  moreover have "c = Copy_avx \<Longrightarrow> take_bit 5 (sge_from e - sge_to e) = 0"
    using assms by (simp add: sge_ok_def take_bit_eq_mask mask_eq_exp_minus_1)
  ultimately show ?thesis
    using copies_move [OF sge_ok_copy_ok [OF assms]] by (cases c) simp_all
qed

text \<open>
  C6: the three scatter-gather copies are the same function on lists whose entries have a length
  below \<open>2 ^ 31\<close> of whole double words, a destination on a double word, a source separate from
  it and, for the AVX copy, source and destination equally far from a 32-byte boundary:
  whichever of them was chosen moves exactly the bytes of each entry, in the order of the
  list, without a fault. (Other lengths overrun, and the AVX copy faults on other sources.)
\<close>

theorem sge_copy_exact:
  assumes "\<forall>e\<in>set es. sge_ok c e"
  shows "numachip_sge_copy c es m = Some (sge_effect es m)"
proof -
  have "sge_loop (case c of Copy_nt \<Rightarrow> block_nt_copy | Copy_xmm \<Rightarrow> block_xmm_copy | Copy_avx \<Rightarrow> block_avx_copy)
      es m = Some (sge_effect es m)"
    using assms sge_entry [of c] by (intro sge_loop_effect) (auto simp: sge_ok_def)
  then show ?thesis
    by (cases c) (simp_all add: numachip_sge_copy_nt_def numachip_sge_copy_xmm_def numachip_sge_copy_avx_def)
qed

lemma separate_below:
  assumes "unat src + N \<le> unat dst" "unat dst + N \<le> 2 ^ 64"
  shows "separate N src dst"
  unfolding separate_def
proof (intro allI impI notI)
  fix i j assume ij: "i < N" "j < N" and e: "src + of_nat i = dst + of_nat j"
  have "unat (src + of_nat i) = unat src + i" "unat (dst + of_nat j) = unat dst + j"
    using assms ij by (simp_all add: unat_word_ariths unsigned_of_nat take_bit_nat_eq_self)
  with e assms ij show False by simp
qed

text \<open>Two entries, one that starts off the boundary and one of 3 blocks and a tail.\<close>

definition demo_sges :: "numachip_sge list" where
  "demo_sges = [\<lparr>sge_from = 0x1004, sge_to = 0x2004, sge_length = 24\<rparr>,
     \<lparr>sge_from = 0x3000, sge_to = 0x5020, sge_length = 428\<rparr>]"

lemma sge_copy_exact_witness:
  "\<forall>c m. numachip_sge_copy c demo_sges m = Some (sge_effect demo_sges m)"
proof (intro allI)
  fix c m
  have "\<forall>e\<in>set demo_sges. sge_ok c e"
    by (simp add: demo_sges_def sge_ok_def separate_below)
  then show "numachip_sge_copy c demo_sges m = Some (sge_effect demo_sges m)"
    by (rule sge_copy_exact)
qed

text \<open>
  An entry of one, two or three bytes whose destination is four bytes past an 8-byte
  boundary: the alignment loop takes 4 from the unsigned count, which wraps, and the copy
  goes on for 68 bytes.
\<close>

theorem short_copy_overruns:
  assumes n: "0 < n" "n < 4" and dst: "dst AND 7 = 4" and sep: "separate 68 src dst"
  shows "block_nt_copy dst src n m = Some (mov 68 src dst m)"
proof -
  have n': "n = 1 \<or> n = 2 \<or> n = 3"
  proof -
    have "unat n = 1 \<or> unat n = 2 \<or> unat n = 3" using n by (auto simp: word_less_nat_alt)
    then show ?thesis by (auto simp: word_unat_eq_iff)
  qed
  have "unat (- dst AND 7) = 4"
  proof -
    let ?w = "- dst AND 7"
    have tb: "take_bit 3 x = x AND 7" for x :: u64 by (simp add: take_bit_eq_mask mask_eq_exp_minus_1)
    have "(4 + ?w) AND 7 = 0" using take_bit_add_u64 [of 3 dst "- dst"] dst by (simp add: tb)
    then have "unat (4 + ?w) mod 8 = 0" using unat_and_masks(2) [of "4 + ?w"] by simp
    moreover have w: "unat ?w < 8" using unat_and_masks(2) [of "- dst"] by simp
    moreover have "unat (4 + ?w) = 4 + unat ?w" using w by (simp add: unat_word_ariths)
    ultimately show ?thesis by presburger
  qed
  then have t: "turns (drop_bit 2 ((NOT dst + 1) AND 7)) = 1"
    using turns_drop [of "- dst AND 7" 2] by (simp add: minus_eq_not_plus_1 [symmetric] del: drop_bit_and)
  define s where "s = \<lparr>cp_to = dst, cp_from = src, cp_n = n, cp_mem = m\<rparr>"
  have a: "align_dest 8 s = (advance 4 s)\<lparr>cp_n := n - 4\<rparr>"
    using n(1) t by (simp add: align_dest_def s_def del: drop_bit_and)
  have "moved 68 src dst m 0 s" using sep by (simp add: moved_def s_def)
  from moved_advance [OF this, of 4] have "moved 68 src dst m 4 (advance 4 s)" by simp
  let ?s1 = "(advance 4 s)\<lparr>cp_n := (n - 4) AND 63\<rparr>"
  let ?s2 = "(advances 8 7 ?s1)\<lparr>cp_n := ((n - 4) AND 63) AND 7\<rparr>"
  have "moved 68 src dst m 4 ?s1" using \<open>moved 68 src dst m 4 (advance 4 s)\<close> by simp
  from moved_advances [OF this, of 8 7] have "moved 68 src dst m 60 ?s2" by simp
  from moved_advances [OF this, of 4 2] have m: "cp_mem (advances 4 2 ?s2) = mov 68 src dst m"
    by (simp add: moved_def)
  have c: "turns (drop_bit 6 (n - 4)) = 0" "turns (drop_bit 3 ((n - 4) AND 63)) = 7"
    "turns (if (((n - 4) AND 63) AND 7) AND 3 \<noteq> 0 then drop_bit 2 (((n - 4) AND 63) AND 7) + 1
      else drop_bit 2 (((n - 4) AND 63) AND 7)) = 2"
  proof -
    let ?P = "\<lambda>n :: u64. turns (drop_bit 6 (n - 4)) = 0 \<and> turns (drop_bit 3 ((n - 4) AND 63)) = 7 \<and>
      turns (if (((n - 4) AND 63) AND 7) AND 3 \<noteq> 0 then drop_bit 2 (((n - 4) AND 63) AND 7) + 1
        else drop_bit 2 (((n - 4) AND 63) AND 7)) = 2"
    have "?P 1" "?P 2" "?P 3" by code_simp+
    with n' have "?P n" by (elim disjE) (simp_all only:)
    then show "turns (drop_bit 6 (n - 4)) = 0" "turns (drop_bit 3 ((n - 4) AND 63)) = 7"
      "turns (if (((n - 4) AND 63) AND 7) AND 3 \<noteq> 0 then drop_bit 2 (((n - 4) AND 63) AND 7) + 1
        else drop_bit 2 (((n - 4) AND 63) AND 7)) = 2" by blast+
  qed
  let ?s3 = "(advances 8 7 ?s1)\<lparr>cp_n := cp_n ?s1 AND 7\<rparr>"
  have s3: "?s3 = ?s2" by simp
  have s3n: "cp_n ?s3 = ((n - 4) AND 63) AND 7" by simp
  have t7: "turns (drop_bit 3 (cp_n ?s1)) = 7" using c(2) by (simp del: drop_bit_and)
  have t2: "turns (if cp_n ?s3 AND 3 \<noteq> 0 then drop_bit 2 (cp_n ?s3) + 1 else drop_bit 2 (cp_n ?s3)) = 2"
    unfolding s3n by (rule c(3))
  have "cp_mem (copy_tail ?s1) = cp_mem (advances 4 2 ?s2)"
    unfolding copy_tail_def Let_def t7 unfolding t2 by simp
  then show ?thesis
    using m by (simp add: block_nt_copy_def Let_def s_def [symmetric] a c(1))
qed

text \<open>One byte asked for at 0x2004; the byte at 0x2043 is overwritten too.\<close>

lemma short_copy_overruns_witness:
  "\<exists>m'. block_nt_copy 0x2004 0x1000 1 (\<lambda>a. if a = 0x103f then 9 else 0) = Some m' \<and> m' 0x2043 = 9"
proof -
  have "separate 68 0x1000 0x2004" by (simp add: separate_below)
  moreover have "(1 :: u64) < 4" by (simp add: word_less_nat_alt)
  ultimately have "block_nt_copy 0x2004 0x1000 1 (\<lambda>a. if a = 0x103f then 9 else 0) =
      Some (mov 68 0x1000 0x2004 (\<lambda>a. if a = 0x103f then 9 else 0))"
    by (intro short_copy_overruns) simp_all
  then show ?thesis by (simp add: mov_def)
qed

text \<open>
  The AVX copy tests bit 5 of the source address where it means its low five bits: with
  the destination on a 32-byte boundary, a source that is off it but whose bit 5 is clear is
  loaded with the aligned instruction, and any copy of 32 bytes or more faults. The XMM copy
  of the same bytes works.
\<close>

theorem avx_copy_faults:
  assumes ok: "copy_ok 5 dst src n" and n: "32 \<le> unat n" and dst: "dst AND 31 = 0"
    and src: "src AND 32 = 0" "src AND 31 \<noteq> 0"
  shows "block_avx_copy dst src n m = None \<and>
    block_xmm_copy dst src n m = Some (mov (up4 (unat n)) src dst m)"
proof (intro conjI)
  define s where "s = \<lparr>cp_to = dst, cp_from = src, cp_n = n, cp_mem = m\<rparr>"
  have m31: "x AND 31 = take_bit 5 x" for x :: u64
    by (simp add: take_bit_eq_mask mask_eq_exp_minus_1)
  have "(NOT dst + 1) AND 31 = 0"
    using dst take_bit_minus_zero [of 5 dst] by (simp add: m31 minus_eq_not_plus_1 [symmetric])
  then have a: "align_dest 32 s = s" by (simp add: align_dest_def s_def turns_def)
  show "block_xmm_copy dst src n m = Some (mov (up4 (unat n)) src dst m)"
    by (rule block_xmm_copy_moves) (use ok n in \<open>auto simp: copy_ok_def\<close>)
  have lt: "unat n < 2 ^ 31" using ok by (simp add: copy_ok_def)
  show "block_avx_copy dst src n m = None"
  proof (cases "unat n div 128 = 0")
    case False
    then have "faults 32 True (turns (drop_bit 7 n)) s"
      using src(2) turns_drop [OF lt, of 7] by (simp add: faults_def s_def)
    then show ?thesis by (simp add: block_avx_copy_def Let_def s_def [symmetric] a) (simp add: s_def src)
  next
    case True
    have "(unat n mod 128) div 32 > 0" using n True by simp
    then have "turns (drop_bit 5 (n AND 127)) > 0"
      using turns_drop [of "n AND 127" 5] by (simp add: unat_and_masks del: drop_bit_and)
    then have "faults 32 True (turns (drop_bit 5 (n AND 127))) (s\<lparr>cp_n := n AND 127\<rparr>)"
      using src(2) by (simp add: faults_def s_def del: drop_bit_and)
    moreover have "turns (drop_bit 7 n) = 0" using turns_drop [OF lt, of 7] True by simp
    ultimately show ?thesis
      by (simp add: block_avx_copy_def Let_def s_def [symmetric] a del: drop_bit_and)
        (simp add: s_def src del: drop_bit_and)
  qed
qed

lemma avx_copy_faults_witness:
  "\<forall>m. block_avx_copy 0x2000 0x1010 64 m = None \<and>
    block_xmm_copy 0x2000 0x1010 64 m = Some (mov 64 0x1010 0x2000 m)"
proof -
  have ok: "copy_ok 5 0x2000 0x1010 64"
    by (simp add: copy_ok_def up4_def separate_below take_bit_eq_mask mask_eq_exp_minus_1)
  show ?thesis
    using avx_copy_faults [OF ok] by (simp add: up4_def)
qed

text \<open>A register has all of two flags.\<close>

lemma has_flags:
  fixes w :: "'a::len word"
  assumes "i < LENGTH('a)" "j < LENGTH('a)"
  shows "w AND (push_bit i 1 OR push_bit j 1) = push_bit i 1 OR push_bit j 1 \<longleftrightarrow> bit w i \<and> bit w j"
  (is "?l = ?r \<longleftrightarrow> _")
proof -
  have "?l = ?r \<longleftrightarrow> (\<forall>n<LENGTH('a). n = i \<or> n = j \<longrightarrow> bit w n)"
    unfolding bit_eq_iff [of ?l ?r] by (auto simp: bit_and_iff bit_or_iff bit_exp_iff)
  with assms show ?thesis by blast
qed

text \<open>
  The function the library chooses when it is loaded is one the processor and the build
  can run: none without SSE2 (the \<open>assert\<close> aborts), AVX only when asked for and enabled by
  both the processor and the system (the state bits 1 and 2 of the control register), and
  XMM only when asked for.
\<close>

theorem chosen_copy_runs:
  shows "(memops_lib_constructor p = None) = (\<not> bit (cpuid_edx p 1) 26)"
    and "(memops_lib_constructor p = Some Copy_avx) =
      (bit (cpuid_edx p 1) 26 \<and> built_with_avx p \<and> env_has p ''MEMOPS_USE_AVX'' \<and>
       bit (cpuid_ecx p 1) 27 \<and> bit (cpuid_ecx p 1) 28 \<and> bit (xgetbv p 0) 1 \<and> bit (xgetbv p 0) 2)"
    and "(memops_lib_constructor p = Some Copy_xmm) =
      (bit (cpuid_edx p 1) 26 \<and> memops_lib_constructor p \<noteq> Some Copy_avx \<and> env_has p ''MEMOPS_USE_XMM'')"
proof -
  have sse: "have_sse2 p = bit (cpuid_edx p 1) 26"
    using has_flags [of 26 26 "cpuid_edx p 1"] by (simp add: have_sse2_def SSE2_FLAGS_def)
  have avx: "have_avx p = (bit (cpuid_ecx p 1) 27 \<and> bit (cpuid_ecx p 1) 28 \<and> bit (xgetbv p 0) 1 \<and> bit (xgetbv p 0) 2)"
  proof -
    have six: "(6 :: u64) = push_bit 1 1 OR push_bit 2 1" by simp
    show ?thesis
      unfolding have_avx_def AVX_FLAGS_def six by (subst (1 2) has_flags) simp_all
  qed
  show "(memops_lib_constructor p = None) = (\<not> bit (cpuid_edx p 1) 26)"
    by (simp add: memops_lib_constructor_def sse)
  show "(memops_lib_constructor p = Some Copy_avx) =
      (bit (cpuid_edx p 1) 26 \<and> built_with_avx p \<and> env_has p ''MEMOPS_USE_AVX'' \<and>
       bit (cpuid_ecx p 1) 27 \<and> bit (cpuid_ecx p 1) 28 \<and> bit (xgetbv p 0) 1 \<and> bit (xgetbv p 0) 2)"
    by (auto simp add: memops_lib_constructor_def sse avx)
  show "(memops_lib_constructor p = Some Copy_xmm) =
      (bit (cpuid_edx p 1) 26 \<and> memops_lib_constructor p \<noteq> Some Copy_avx \<and> env_has p ''MEMOPS_USE_XMM'')"
    by (auto simp add: memops_lib_constructor_def sse avx)
qed

end
