(* ===== verification/NumachipDevice.thy ===== *)
theory NumachipDevice
  imports Prelude
begin

text \<open>
  \<^verbatim>\<open>lib/device.c\<close>, \<^verbatim>\<open>lib/numachip_lib.h\<close> and the error codes of \<^verbatim>\<open>lib/numachip_user.h\<close>:
  a NumaChip device, its memory-mapped window of control and status registers (CSRs), and
  the byte-swapped accesses to it. The window is a total map from word indices to 32-bit
  words, as the device presents it on the bus (big-endian); what a register holds can only
  change here by a write of the program.
\<close>

section \<open>Error codes\<close>

datatype nc_error_t =
    NUMACHIP_ERR_OK
  | NUMACHIP_ERR_INVALID_PARAMETER
  | NUMACHIP_ERR_BUSY

definition numachip_strerror :: "nc_error_t \<Rightarrow> string" where
  "numachip_strerror errorcode =
     (if errorcode = NUMACHIP_ERR_OK then ''NUMACHIP_ERR_OK''
      else if errorcode = NUMACHIP_ERR_INVALID_PARAMETER then ''NUMACHIP_ERR_INVALID_PARAMETER''
      else if errorcode = NUMACHIP_ERR_BUSY then ''NUMACHIP_ERR_BUSY''
      else ''NUMACHIP_UNKNOWN_ERROR'')"

lemma numachip_strerror_inj: "inj numachip_strerror"
proof (rule injI)
  fix x y
  show "numachip_strerror x = numachip_strerror y \<Longrightarrow> x = y"
    by (cases x; cases y) (simp_all add: numachip_strerror_def)
qed

section \<open>Devices and contexts\<close>

record numachip_device =
  nodeid :: u32

record numachip_context =
  device :: numachip_device
  memfd :: int
  csr_space :: "nat \<Rightarrow> u32"

definition u32bswap :: "u32 \<Rightarrow> u32" where
  "u32bswap val =
     push_bit 24 (take_bit 8 val) OR
     push_bit 16 (take_bit 8 (drop_bit 8 val)) OR
     push_bit 8 (take_bit 8 (drop_bit 16 val)) OR
     take_bit 8 (drop_bit 24 val)"

lemma bit_u32bswap:
  "bit (u32bswap v) n \<longleftrightarrow>
    (if n < 8 then bit v (n + 24) else if n < 16 then bit v (n + 8)
     else if n < 24 then bit v (n - 8) else if n < 32 then bit v (n - 24) else False)"
  by (auto simp: u32bswap_def bit_simps add.commute split: if_splits)

lemma u32bswap_u32bswap [simp]: "u32bswap (u32bswap v) = v"
  by (rule bit_word_eqI) (auto simp: bit_u32bswap)

definition csr_index :: "u16 \<Rightarrow> nat" where
  "csr_index offset = unat offset div 4"

definition numachip_read_csr :: "numachip_context \<Rightarrow> u16 \<Rightarrow> u32" where
  "numachip_read_csr context offset = u32bswap (csr_space context (csr_index offset))"

definition numachip_write_csr :: "numachip_context \<Rightarrow> u16 \<Rightarrow> u32 \<Rightarrow> numachip_context" where
  "numachip_write_csr context offset value =
     context\<lparr>csr_space := (csr_space context)(csr_index offset := u32bswap value)\<rparr>"

interpretation csr: register_bank numachip_read_csr numachip_write_csr csr_index
  by unfold_locales (simp_all add: numachip_read_csr_def numachip_write_csr_def)

lemma numachip_write_csr_frame [frame_simps]:
  "device (numachip_write_csr c r v) = device c"
  "memfd (numachip_write_csr c r v) = memfd c"
  by (simp_all add: numachip_write_csr_def)

lemma csr_ext:
  assumes "device c = device d" "memfd c = memfd d"
    and "\<And>i. csr_space c i = csr_space d i"
  shows "c = (d :: numachip_context)"
  using assms by (cases c; cases d) (auto intro: ext)

end
