(* ===== verification/Pcounter.thy ===== *)
theory Pcounter
  imports NumachipDevice
begin

text \<open>
  \<^verbatim>\<open>lib/pcounter.c\<close>: the performance counters of a NumaChip. The offsets of the registers
  come from a header that is not part of the repository (\<^verbatim>\<open>numachip-defines.h\<close>), so they are
  the fields of a parameter \<open>csr_map\<close>; what the code relies on is that they have the layout
  that the comments of \<^verbatim>\<open>pcounter.c\<close> and the help texts of \<^verbatim>\<open>nc_perf.c\<close> document
  (\<open>csr_documented\<close>). A counter number out of range is reported before any register is
  touched; every other error is a value of \<open>nc_error_t\<close> next to the new context.
\<close>

section \<open>Register layout\<close>

record csr_map =
  SELECT_COUNTER :: u32
  TIMER_FOR_ECC_COUNTER_7 :: u32
  COMPARE_AND_MASK_OF_COUNTER_0 :: u32
  PERFORMANCE_COUNTER_0_40_BIT_UPPER_BITS :: u32
  PERFORMANCE_COUNTER_0_40_BIT_LOWER_BITS :: u32

text \<open>
  The documented offsets: G3xF78 for the counter selection, G3xF9C for the ECC timer, G3xFA0
  to G3xFBC for compare and mask, G3xFC0 to G3xFFC for the 40-bit counters, in a register
  group that lies inside the 32 KB window.
\<close>

definition csr_documented :: "csr_map \<Rightarrow> nat \<Rightarrow> bool" where
  "csr_documented m g \<longleftrightarrow> g < 8 \<and>
     SELECT_COUNTER m = of_nat (4096 * g + 0xF78) \<and>
     TIMER_FOR_ECC_COUNTER_7 m = of_nat (4096 * g + 0xF9C) \<and>
     COMPARE_AND_MASK_OF_COUNTER_0 m = of_nat (4096 * g + 0xFA0) \<and>
     PERFORMANCE_COUNTER_0_40_BIT_UPPER_BITS m = of_nat (4096 * g + 0xFC0) \<and>
     PERFORMANCE_COUNTER_0_40_BIT_LOWER_BITS m = of_nat (4096 * g + 0xFC4)"

definition g3_map :: csr_map where
  "g3_map = \<lparr>SELECT_COUNTER = 0x3F78, TIMER_FOR_ECC_COUNTER_7 = 0x3F9C,
     COMPARE_AND_MASK_OF_COUNTER_0 = 0x3FA0, PERFORMANCE_COUNTER_0_40_BIT_UPPER_BITS = 0x3FC0,
     PERFORMANCE_COUNTER_0_40_BIT_LOWER_BITS = 0x3FC4\<rparr>"

lemma g3_map_documented: "csr_documented g3_map 3"
  by (simp add: csr_documented_def g3_map_def)

definition mask_register :: "csr_map \<Rightarrow> u32 \<Rightarrow> u32" where
  "mask_register m counterno = COMPARE_AND_MASK_OF_COUNTER_0 m + 4 * counterno"

definition perf_upper :: "csr_map \<Rightarrow> u32 \<Rightarrow> u32" where
  "perf_upper m counterno = PERFORMANCE_COUNTER_0_40_BIT_UPPER_BITS m + 8 * counterno"

definition perf_lower :: "csr_map \<Rightarrow> u32 \<Rightarrow> u32" where
  "perf_lower m counterno = PERFORMANCE_COUNTER_0_40_BIT_LOWER_BITS m + 8 * counterno"

text \<open>The offsets are passed through the \<open>uint16_t\<close> parameter of the CSR accessors.\<close>

abbreviation read_reg :: "numachip_context \<Rightarrow> u32 \<Rightarrow> u32" where
  "read_reg c r \<equiv> numachip_read_csr c (ucast r)"

abbreviation write_reg :: "numachip_context \<Rightarrow> u32 \<Rightarrow> u32 \<Rightarrow> numachip_context" where
  "write_reg c r v \<equiv> numachip_write_csr c (ucast r) v"

lemma csr_index_of_nat:
  "k < 65536 \<Longrightarrow> csr_index (ucast (of_nat k :: u32)) = k div 4"
  by (simp add: csr_index_def unsigned_ucast_eq unsigned_of_nat take_bit_nat_eq_self)

lemma csr_index_documented [layout_simps]:
  assumes "csr_documented m g"
  shows "csr_index (ucast (SELECT_COUNTER m)) = 1024 * g + 990"
    and "csr_index (ucast (TIMER_FOR_ECC_COUNTER_7 m)) = 1024 * g + 999"
    and "c \<le> 7 \<Longrightarrow> csr_index (ucast (mask_register m c)) = 1024 * g + 1000 + unat c"
    and "c \<le> 7 \<Longrightarrow> csr_index (ucast (perf_upper m c)) = 1024 * g + 1008 + 2 * unat c"
    and "c \<le> 7 \<Longrightarrow> csr_index (ucast (perf_lower m c)) = 1024 * g + 1009 + 2 * unat c"
proof -
  have g: "g < 8" using assms by (simp add: csr_documented_def)
  show "csr_index (ucast (SELECT_COUNTER m)) = 1024 * g + 990"
    using assms g csr_index_of_nat [of "4096 * g + 0xF78"] by (simp add: csr_documented_def)
  show "csr_index (ucast (TIMER_FOR_ECC_COUNTER_7 m)) = 1024 * g + 999"
    using assms g csr_index_of_nat [of "4096 * g + 0xF9C"] by (simp add: csr_documented_def)
  have m: "mask_register m c = of_nat (4096 * g + 0xFA0 + 4 * unat c)"
    using assms by (simp add: mask_register_def csr_documented_def)
  have u: "perf_upper m c = of_nat (4096 * g + 0xFC0 + 8 * unat c)"
    using assms by (simp add: perf_upper_def csr_documented_def)
  have l: "perf_lower m c = of_nat (4096 * g + 0xFC4 + 8 * unat c)"
    using assms by (simp add: perf_lower_def csr_documented_def)
  assume c: "c \<le> 7"
  note c' = u32_le_7_unat [OF c]
  show "csr_index (ucast (mask_register m c)) = 1024 * g + 1000 + unat c"
    unfolding m using g c' by (simp only: csr_index_of_nat)
  show "csr_index (ucast (perf_upper m c)) = 1024 * g + 1008 + 2 * unat c"
    unfolding u using g c' by (simp only: csr_index_of_nat)
  show "csr_index (ucast (perf_lower m c)) = 1024 * g + 1009 + 2 * unat c"
    unfolding l using g c' by (simp only: csr_index_of_nat)
qed

section \<open>Operations\<close>

definition numachip_select_pcounter ::
    "csr_map \<Rightarrow> numachip_context \<Rightarrow> u32 \<Rightarrow> u32 \<Rightarrow> numachip_context \<times> nc_error_t" where
  "numachip_select_pcounter m cntxt counterno eventreg =
     (if counterno > 7 then (cntxt, NUMACHIP_ERR_INVALID_PARAMETER)
      else if eventreg > 7 then (cntxt, NUMACHIP_ERR_INVALID_PARAMETER)
      else
        let current_counter_val = read_reg cntxt (SELECT_COUNTER m);
            field = push_bit (unat (counterno * 4)) eventreg
        in if current_counter_val AND field \<noteq> 0 then (cntxt, NUMACHIP_ERR_BUSY)
           else (write_reg cntxt (SELECT_COUNTER m) (current_counter_val OR field),
                 NUMACHIP_ERR_OK))"

definition numachip_get_pcounter_select ::
    "csr_map \<Rightarrow> numachip_context \<Rightarrow> u32 \<Rightarrow> u32 \<times> nc_error_t" where
  "numachip_get_pcounter_select m cntxt counterno =
     (if counterno > 7 then (0, NUMACHIP_ERR_INVALID_PARAMETER)
      else (read_reg cntxt (SELECT_COUNTER m), NUMACHIP_ERR_OK))"

definition numachip_get_pcounter_mask ::
    "csr_map \<Rightarrow> numachip_context \<Rightarrow> u32 \<Rightarrow> u32 \<times> nc_error_t" where
  "numachip_get_pcounter_mask m cntxt counterno =
     (if counterno > 7 then (0, NUMACHIP_ERR_INVALID_PARAMETER)
      else (read_reg cntxt (mask_register m counterno), NUMACHIP_ERR_OK))"

definition numachip_mask_pcounter ::
    "csr_map \<Rightarrow> numachip_context \<Rightarrow> u32 \<Rightarrow> u32 \<Rightarrow> numachip_context \<times> nc_error_t" where
  "numachip_mask_pcounter m cntxt counterno msk =
     (if counterno > 7 then (cntxt, NUMACHIP_ERR_INVALID_PARAMETER)
      else if msk > 7 then (cntxt, NUMACHIP_ERR_INVALID_PARAMETER)
      else
        let cntxt = (if counterno = 7
                     then write_reg cntxt (TIMER_FOR_ECC_COUNTER_7 m) 0 else cntxt);
            mask_value = push_bit (unat msk) 1;
            mask_value = push_bit 8 mask_value OR mask_value
        in if fst (numachip_get_pcounter_mask m cntxt counterno) AND mask_value \<noteq> 0
           then (cntxt, NUMACHIP_ERR_BUSY)
           else (write_reg cntxt (mask_register m counterno) mask_value, NUMACHIP_ERR_OK))"

definition numachip_stop_pcounter ::
    "csr_map \<Rightarrow> numachip_context \<Rightarrow> u32 \<Rightarrow> numachip_context \<times> nc_error_t" where
  "numachip_stop_pcounter m cntxt counterno =
     (if counterno > 7 then (cntxt, NUMACHIP_ERR_INVALID_PARAMETER)
      else
        let current_counter_val = 0x77777777 AND NOT (push_bit (unat (counterno * 4)) 7);
            cntxt = write_reg cntxt (SELECT_COUNTER m) current_counter_val
        in (write_reg cntxt (mask_register m counterno) 0, NUMACHIP_ERR_OK))"

definition numachip_restart_pcounter ::
    "csr_map \<Rightarrow> numachip_context \<Rightarrow> u32 \<Rightarrow> numachip_context \<times> nc_error_t" where
  "numachip_restart_pcounter m cntxt counterno =
     (if counterno > 7 then (cntxt, NUMACHIP_ERR_INVALID_PARAMETER)
      else
        let cntxt = write_reg cntxt (perf_upper m counterno) 0
        in (write_reg cntxt (perf_lower m counterno) 0, NUMACHIP_ERR_OK))"

definition numachip_clear_pcounter ::
    "csr_map \<Rightarrow> numachip_context \<Rightarrow> u32 \<Rightarrow> numachip_context \<times> nc_error_t" where
  "numachip_clear_pcounter m cntxt counterno =
     (if counterno > 7 then (cntxt, NUMACHIP_ERR_INVALID_PARAMETER)
      else
        let current_counter_val = read_reg cntxt (SELECT_COUNTER m);
            current_counter_val =
              current_counter_val AND NOT (push_bit (unat (counterno * 4)) 7);
            cntxt = write_reg cntxt (SELECT_COUNTER m) current_counter_val;
            cntxt = write_reg cntxt (mask_register m counterno) 0;
            cntxt = write_reg cntxt (perf_upper m counterno) 0
        in (write_reg cntxt (perf_lower m counterno) 0, NUMACHIP_ERR_OK))"

definition numachip_get_pcounter ::
    "csr_map \<Rightarrow> numachip_context \<Rightarrow> u32 \<Rightarrow> u64 \<times> nc_error_t" where
  "numachip_get_pcounter m cntxt counterno =
     (if counterno > 7 then (0, NUMACHIP_ERR_INVALID_PARAMETER)
      else
        let counterval = push_bit 32 (ucast (read_reg cntxt (perf_upper m counterno)))
        in (counterval OR ucast (read_reg cntxt (perf_lower m counterno)), NUMACHIP_ERR_OK))"

definition numachip_fullstart_pcounter ::
    "csr_map \<Rightarrow> numachip_context \<Rightarrow> u32 \<Rightarrow> u32 \<Rightarrow> u32 \<Rightarrow> numachip_context \<times> nc_error_t" where
  "numachip_fullstart_pcounter m cntxt counterno event msk =
     (case numachip_clear_pcounter m cntxt counterno of (cntxt, error) \<Rightarrow>
        if error \<noteq> NUMACHIP_ERR_OK then (cntxt, error)
        else case numachip_select_pcounter m cntxt counterno event of (cntxt, error) \<Rightarrow>
          if error \<noteq> NUMACHIP_ERR_OK then (cntxt, error)
          else numachip_mask_pcounter m cntxt counterno msk)"

text \<open>
  The loop of \<^verbatim>\<open>numachip_all_start_pcounter\<close> tests its own \<open>retval\<close>, which nothing assigns:
  every node is started, and \<open>*error\<close> is what the last node reported (what it held before
  the call when there is no node).
\<close>

fun numachip_all_start_pcounter ::
    "csr_map \<Rightarrow> numachip_context list \<Rightarrow> u32 \<Rightarrow> u32 \<Rightarrow> u32 \<Rightarrow> nc_error_t
     \<Rightarrow> numachip_context list \<times> nc_error_t" where
  "numachip_all_start_pcounter m [] counterno event msk error = ([], error)"
| "numachip_all_start_pcounter m (c # cs) counterno event msk error =
     (case numachip_fullstart_pcounter m c counterno event msk of (c', error') \<Rightarrow>
        case numachip_all_start_pcounter m cs counterno event msk error' of (cs', error'') \<Rightarrow>
          (c' # cs', error''))"

section \<open>What a counter is: the abstract view\<close>

text \<open>
  A counter as its user sees it: the event source selected for it, its compare-and-mask
  register and its 40-bit count. \<open>view m x c\<close> reads counter \<open>c\<close> out of the registers of \<open>x\<close>.
\<close>

record pcounter =
  source :: u32
  compare_mask :: u32
  count :: u64

definition select_field :: "u32 \<Rightarrow> u32 \<Rightarrow> u32" where
  "select_field v c = take_bit 3 (drop_bit (4 * unat c) v)"

definition view :: "csr_map \<Rightarrow> numachip_context \<Rightarrow> u32 \<Rightarrow> pcounter" where
  "view m x c =
     \<lparr>source = select_field (read_reg x (SELECT_COUNTER m)) c,
      compare_mask = fst (numachip_get_pcounter_mask m x c),
      count = fst (numachip_get_pcounter m x c)\<rparr>"

definition event_mask :: "u32 \<Rightarrow> u32" where
  "event_mask msk = push_bit 8 (push_bit (unat msk) 1) OR push_bit (unat msk) 1"

lemma bit_select_field:
  "bit (select_field v c) n \<longleftrightarrow> n < 3 \<and> bit v (4 * unat c + n)"
  by (auto simp: select_field_def bit_simps dest: bit_imp_le_length)

text \<open>The eight selection fields lie four bits apart.\<close>

lemma field_apart:
  assumes "c \<le> 7" "n < 3" "d \<noteq> c"
  shows "\<not> (4 * unat c \<le> 4 * unat d + n \<and> 4 * unat d + n - 4 * unat c < 3)"
proof -
  have "unat d \<noteq> unat c" using assms(3) by (simp add: word_unat_eq_iff)
  with assms(2) show ?thesis by arith
qed

lemma select_field_clear:
  assumes "c \<le> 7" "d \<le> 7"
  shows "select_field (v AND NOT (push_bit (unat (c * 4)) 7)) d =
    (if d = c then 0 else select_field v d)"
  using u32_le_7_unat [OF assms(1)] u32_le_7_unat [OF assms(2)] field_apart [OF assms(1)]
  by (intro bit_word_eqI) (auto simp: bit_select_field bit_simps unat_mult_4 [OF assms(1)])

lemma select_field_or:
  assumes "c \<le> 7" "d \<le> 7" "e \<le> 7"
  shows "select_field (v OR push_bit (unat (c * 4)) e) d =
    (if d = c then select_field v d OR e else select_field v d)"
  using u32_le_7_unat [OF assms(1)] u32_le_7_unat [OF assms(2)] field_apart [OF assms(1)]
  by (intro bit_word_eqI)
    (auto simp: bit_select_field bit_simps unat_mult_4 [OF assms(1)] dest: bit_le_7 [OF assms(3)])

lemma select_busy_iff:
  assumes "c \<le> 7" "e \<le> 7"
  shows "v AND push_bit (unat (c * 4)) e = 0 \<longleftrightarrow> select_field v c AND e = 0"
proof -
  have "bit (v AND push_bit (unat (c * 4)) e) (4 * unat c + n) = bit (select_field v c AND e) n" for n
    using bit_le_7 [OF assms(2)] bit_imp_le_length [of v]
    by (auto simp: bit_select_field bit_simps unat_mult_4 [OF assms(1)])
  moreover have "bit (v AND push_bit (unat (c * 4)) e) k \<Longrightarrow> \<exists>n. k = 4 * unat c + n" for k
    by (auto simp: bit_simps unat_mult_4 [OF assms(1)] dest: le_Suc_ex)
  ultimately show ?thesis
    unfolding word_zero_iff_bits by blast
qed

lemma select_field_stop:
  assumes "c \<le> 7" "d \<le> 7"
  shows "select_field (0x77777777 AND NOT (push_bit (unat (c * 4)) 7)) d = (if d = c then 0 else 7)"
proof -
  have "select_field 0x77777777 d = 7"
    using assms(2) by (cases rule: u32_le_7_cases) (simp_all add: select_field_def)
  then show ?thesis by (simp only: select_field_clear assms)
qed

section \<open>Reading the view after an operation\<close>

lemma read_select_write:
  assumes "csr_documented m g" "c \<le> 7"
  shows "read_reg (write_reg x (mask_register m c) v) (SELECT_COUNTER m) = read_reg x (SELECT_COUNTER m)"
    and "read_reg (write_reg x (perf_upper m c) v) (SELECT_COUNTER m) = read_reg x (SELECT_COUNTER m)"
    and "read_reg (write_reg x (perf_lower m c) v) (SELECT_COUNTER m) = read_reg x (SELECT_COUNTER m)"
    and "read_reg (write_reg x (TIMER_FOR_ECC_COUNTER_7 m) v) (SELECT_COUNTER m) =
      read_reg x (SELECT_COUNTER m)"
    and "read_reg (write_reg x (SELECT_COUNTER m) v) (SELECT_COUNTER m) = v"
  using assms by (simp_all add: csr.rd_wr layout_simps)

lemma read_mask_write:
  assumes "csr_documented m g" "c \<le> 7" "d \<le> 7"
  shows "read_reg (write_reg x (mask_register m c) v) (mask_register m d) =
      (if d = c then v else read_reg x (mask_register m d))"
    and "read_reg (write_reg x (perf_upper m c) v) (mask_register m d) = read_reg x (mask_register m d)"
    and "read_reg (write_reg x (perf_lower m c) v) (mask_register m d) = read_reg x (mask_register m d)"
    and "read_reg (write_reg x (SELECT_COUNTER m) v) (mask_register m d) = read_reg x (mask_register m d)"
    and "read_reg (write_reg x (TIMER_FOR_ECC_COUNTER_7 m) v) (mask_register m d) =
      read_reg x (mask_register m d)"
  using assms u32_le_7_unat [OF assms(2)] u32_le_7_unat [OF assms(3)]
  by (auto simp: csr.rd_wr layout_simps word_unat_eq_iff)

lemma read_upper_write:
  assumes "csr_documented m g" "c \<le> 7" "d \<le> 7"
  shows "read_reg (write_reg x (perf_upper m c) v) (perf_upper m d) =
      (if d = c then v else read_reg x (perf_upper m d))"
    and "read_reg (write_reg x (perf_lower m c) v) (perf_upper m d) = read_reg x (perf_upper m d)"
    and "read_reg (write_reg x (mask_register m c) v) (perf_upper m d) = read_reg x (perf_upper m d)"
    and "read_reg (write_reg x (SELECT_COUNTER m) v) (perf_upper m d) = read_reg x (perf_upper m d)"
    and "read_reg (write_reg x (TIMER_FOR_ECC_COUNTER_7 m) v) (perf_upper m d) =
      read_reg x (perf_upper m d)"
  using assms u32_le_7_unat [OF assms(2)] u32_le_7_unat [OF assms(3)]
  by (auto simp: csr.rd_wr layout_simps word_unat_eq_iff) presburger?

lemma read_lower_write:
  assumes "csr_documented m g" "c \<le> 7" "d \<le> 7"
  shows "read_reg (write_reg x (perf_lower m c) v) (perf_lower m d) =
      (if d = c then v else read_reg x (perf_lower m d))"
    and "read_reg (write_reg x (perf_upper m c) v) (perf_lower m d) = read_reg x (perf_lower m d)"
    and "read_reg (write_reg x (mask_register m c) v) (perf_lower m d) = read_reg x (perf_lower m d)"
    and "read_reg (write_reg x (SELECT_COUNTER m) v) (perf_lower m d) = read_reg x (perf_lower m d)"
    and "read_reg (write_reg x (TIMER_FOR_ECC_COUNTER_7 m) v) (perf_lower m d) =
      read_reg x (perf_lower m d)"
  using assms u32_le_7_unat [OF assms(2)] u32_le_7_unat [OF assms(3)]
  by (auto simp: csr.rd_wr layout_simps word_unat_eq_iff) presburger?

lemmas read_write = read_select_write read_mask_write read_upper_write read_lower_write

lemmas view_simps = view_def numachip_get_pcounter_mask_def numachip_get_pcounter_def Let_def

lemma view_clear:
  assumes "csr_documented m g" "c \<le> 7" "d \<le> 7"
  shows "view m (fst (numachip_clear_pcounter m x c)) d =
    (if d = c then \<lparr>source = 0, compare_mask = 0, count = 0\<rparr> else view m x d)"
  using assms
  by (simp add: numachip_clear_pcounter_def view_simps read_write select_field_clear)

lemma view_restart:
  assumes "csr_documented m g" "c \<le> 7" "d \<le> 7"
  shows "view m (fst (numachip_restart_pcounter m x c)) d =
    (if d = c then (view m x c)\<lparr>count := 0\<rparr> else view m x d)"
  using assms
  by (simp add: numachip_restart_pcounter_def view_simps read_write)

lemma view_stop:
  assumes "csr_documented m g" "c \<le> 7" "d \<le> 7"
  shows "view m (fst (numachip_stop_pcounter m x c)) d =
    (if d = c then (view m x c)\<lparr>source := 0, compare_mask := 0\<rparr>
     else (view m x d)\<lparr>source := 7\<rparr>)"
  using assms
  by (simp add: numachip_stop_pcounter_def view_simps read_write select_field_stop)

lemma select_result:
  assumes "csr_documented m g" "c \<le> 7" "e \<le> 7"
  shows "numachip_select_pcounter m x c e =
    (if source (view m x c) AND e \<noteq> 0 then (x, NUMACHIP_ERR_BUSY)
     else (write_reg x (SELECT_COUNTER m)
             (read_reg x (SELECT_COUNTER m) OR push_bit (unat (c * 4)) e), NUMACHIP_ERR_OK))"
  using assms
  by (simp add: numachip_select_pcounter_def view_def Let_def select_busy_iff)

lemma view_select:
  assumes "csr_documented m g" "c \<le> 7" "d \<le> 7" "e \<le> 7" "source (view m x c) AND e = 0"
  shows "view m (fst (numachip_select_pcounter m x c e)) d =
    (if d = c then (view m x c)\<lparr>source := source (view m x c) OR e\<rparr> else view m x d)"
  using assms
  by (simp add: select_result view_simps read_write select_field_or)

lemma mask_result:
  assumes "csr_documented m g" "c \<le> 7" "k \<le> 7"
  shows "numachip_mask_pcounter m x c k =
    (let y = if c = 7 then write_reg x (TIMER_FOR_ECC_COUNTER_7 m) 0 else x
     in if compare_mask (view m x c) AND event_mask k \<noteq> 0 then (y, NUMACHIP_ERR_BUSY)
        else (write_reg y (mask_register m c) (event_mask k), NUMACHIP_ERR_OK))"
  using assms
  by (simp add: numachip_mask_pcounter_def view_simps event_mask_def read_write)

lemma view_mask:
  assumes "csr_documented m g" "c \<le> 7" "d \<le> 7" "k \<le> 7"
    and "compare_mask (view m x c) AND event_mask k = 0"
  shows "view m (fst (numachip_mask_pcounter m x c k)) d =
    (if d = c then (view m x c)\<lparr>compare_mask := event_mask k\<rparr> else view m x d)"
  using assms
  by (simp add: mask_result view_simps read_write)

section \<open>Sequences of operations\<close>

text \<open>The API as a user drives it: any sequence of calls, with any arguments.\<close>

datatype pcounter_op =
    Select u32 u32
  | Mask u32 u32
  | Stop u32
  | Restart u32
  | Clear u32
  | Fullstart u32 u32 u32

fun run_op :: "csr_map \<Rightarrow> numachip_context \<Rightarrow> pcounter_op \<Rightarrow> numachip_context \<times> nc_error_t" where
  "run_op m x (Select c e) = numachip_select_pcounter m x c e"
| "run_op m x (Mask c k) = numachip_mask_pcounter m x c k"
| "run_op m x (Stop c) = numachip_stop_pcounter m x c"
| "run_op m x (Restart c) = numachip_restart_pcounter m x c"
| "run_op m x (Clear c) = numachip_clear_pcounter m x c"
| "run_op m x (Fullstart c e k) = numachip_fullstart_pcounter m x c e k"

fun run_ops :: "csr_map \<Rightarrow> numachip_context \<Rightarrow> pcounter_op list \<Rightarrow> numachip_context" where
  "run_ops m x [] = x"
| "run_ops m x (p # ps) = run_ops m (fst (run_op m x p)) ps"

lemma fullstart_cases:
  "fst (numachip_fullstart_pcounter m x c e k) =
    (let y = fst (numachip_clear_pcounter m x c); z = fst (numachip_select_pcounter m y c e)
     in if snd (numachip_clear_pcounter m x c) \<noteq> NUMACHIP_ERR_OK then y
        else if snd (numachip_select_pcounter m y c e) \<noteq> NUMACHIP_ERR_OK then z
        else fst (numachip_mask_pcounter m z c k))"
  by (simp add: numachip_fullstart_pcounter_def Let_def split: prod.splits)

text \<open>Bits 3, 7, \<dots>, 31 of the selection register are reserved: the code never sets one.\<close>

definition reserved_clear :: "u32 \<Rightarrow> bool" where
  "reserved_clear v \<longleftrightarrow> (\<forall>i<8. \<not> bit v (4 * i + 3))"

lemma reserved_clear_and: "reserved_clear v \<Longrightarrow> reserved_clear (v AND w)"
  by (simp add: reserved_clear_def bit_simps)

lemma reserved_clear_or_field:
  assumes "reserved_clear v" "(c :: u32) \<le> 7" "e \<le> 7"
  shows "reserved_clear (v OR push_bit (unat (c * 4)) e)"
proof -
  have "\<not> bit e (4 * i + 3 - 4 * unat c)" if "4 * unat c \<le> 4 * i + 3" for i
  proof
    assume "bit e (4 * i + 3 - 4 * unat c)"
    from bit_le_7 [OF assms(3) this] that show False by arith
  qed
  with assms(1) show ?thesis by (auto simp: reserved_clear_def bit_simps unat_mult_4 [OF assms(2)])
qed

lemma reserved_clear_sevens: "reserved_clear 0x77777777"
  by (simp add: reserved_clear_def numeral_eq_Suc less_Suc_eq all_conj_distrib imp_conjL)

lemma run_op_reserved:
  assumes "csr_documented m g" "reserved_clear (read_reg x (SELECT_COUNTER m))"
  shows "reserved_clear (read_reg (fst (run_op m x p)) (SELECT_COUNTER m))"
proof -
  have sel: "reserved_clear (read_reg (fst (numachip_select_pcounter m y c e)) (SELECT_COUNTER m))"
    if "reserved_clear (read_reg y (SELECT_COUNTER m))" for y c e
    using that assms(1)
    by (auto simp: numachip_select_pcounter_def Let_def read_write not_less intro: reserved_clear_or_field)
  have clr: "reserved_clear (read_reg (fst (numachip_clear_pcounter m y c)) (SELECT_COUNTER m))"
    if "reserved_clear (read_reg y (SELECT_COUNTER m))" for y c
    using that assms(1)
    by (auto simp: numachip_clear_pcounter_def Let_def read_write not_less intro: reserved_clear_and)
  have msk: "read_reg (fst (numachip_mask_pcounter m y c k)) (SELECT_COUNTER m) =
      read_reg y (SELECT_COUNTER m)" for y c k
    using assms(1) by (simp add: numachip_mask_pcounter_def Let_def read_write not_less)
  show ?thesis
  proof (cases p)
    case (Stop c)
    then show ?thesis using assms
      by (auto simp: numachip_stop_pcounter_def Let_def read_write not_less
          intro: reserved_clear_and reserved_clear_sevens)
  next
    case (Restart c)
    then show ?thesis using assms
      by (simp add: numachip_restart_pcounter_def Let_def read_write not_less)
  qed (use assms sel clr msk in \<open>auto simp: fullstart_cases Let_def\<close>)
qed

text \<open>
  The registers the API may write: the selection register, the ECC timer, and the mask and
  count registers of the eight counters.
\<close>

definition pcounter_register :: "nat \<Rightarrow> nat \<Rightarrow> bool" where
  "pcounter_register g i \<longleftrightarrow> i = 1024 * g + 990 \<or> 1024 * g + 999 \<le> i \<and> i < 1024 * g + 1024"

definition same_elsewhere :: "nat \<Rightarrow> numachip_context \<Rightarrow> numachip_context \<Rightarrow> bool" where
  "same_elsewhere g x y \<longleftrightarrow> device y = device x \<and> memfd y = memfd x \<and>
     (\<forall>i. \<not> pcounter_register g i \<longrightarrow> csr_space y i = csr_space x i)"

lemma same_elsewhere_refl [simp]: "same_elsewhere g x x"
  by (simp add: same_elsewhere_def)

lemma same_elsewhere_trans:
  "same_elsewhere g x y \<Longrightarrow> same_elsewhere g y z \<Longrightarrow> same_elsewhere g x z"
  by (simp add: same_elsewhere_def)

lemma same_elsewhere_write:
  "pcounter_register g (csr_index r) \<Longrightarrow> same_elsewhere g x y \<Longrightarrow>
    same_elsewhere g x (numachip_write_csr y r v)"
  by (auto simp: same_elsewhere_def numachip_write_csr_def)

lemma registers_written:
  assumes "csr_documented m g"
  shows "pcounter_register g (csr_index (ucast (SELECT_COUNTER m)))"
    and "pcounter_register g (csr_index (ucast (TIMER_FOR_ECC_COUNTER_7 m)))"
    and "c \<le> 7 \<Longrightarrow> pcounter_register g (csr_index (ucast (mask_register m c)))"
    and "c \<le> 7 \<Longrightarrow> pcounter_register g (csr_index (ucast (perf_upper m c)))"
    and "c \<le> 7 \<Longrightarrow> pcounter_register g (csr_index (ucast (perf_lower m c)))"
  using assms by (auto simp: layout_simps pcounter_register_def dest: u32_le_7_unat)

lemma run_op_elsewhere:
  assumes "csr_documented m g"
  shows "same_elsewhere g x (fst (run_op m x p))"
proof -
  note writes = same_elsewhere_write registers_written [OF assms]
  have sel: "same_elsewhere g y (fst (numachip_select_pcounter m y c e))" for y c e
    by (auto simp: numachip_select_pcounter_def Let_def not_less intro!: writes)
  have clr: "same_elsewhere g y (fst (numachip_clear_pcounter m y c))" for y c
    by (auto simp: numachip_clear_pcounter_def Let_def not_less intro!: writes)
  have msk: "same_elsewhere g y (fst (numachip_mask_pcounter m y c k))" for y c k
    by (auto simp: numachip_mask_pcounter_def Let_def not_less intro!: writes)
  show ?thesis
  proof (cases p)
    case (Fullstart c e k)
    then show ?thesis
      by (simp add: fullstart_cases Let_def) (metis same_elsewhere_trans sel clr msk)
  qed (auto simp: numachip_stop_pcounter_def numachip_restart_pcounter_def Let_def not_less
      intro!: writes sel clr msk)
qed

section \<open>The eight counters as a list\<close>

text \<open>
  The chip as a list of eight counters; an operation on counter \<open>c\<close> is then an update at
  index \<open>c\<close>. These equations carry the proofs about the daemons that drive the API.
\<close>

definition counters :: "csr_map \<Rightarrow> numachip_context \<Rightarrow> pcounter list" where
  "counters m x = map (view m x) [0, 1, 2, 3, 4, 5, 6, 7]"

lemma length_counters [simp]: "length (counters m x) = 8"
  by (simp add: counters_def)

lemma counters_nth: "c \<le> 7 \<Longrightarrow> counters m x ! unat c = view m x c"
  by (cases rule: u32_le_7_cases, assumption) (simp_all add: counters_def)

named_theorems counters_simps "the effect of each operation on the list of counters"

lemma counters_clear [counters_simps]:
  assumes "csr_documented m g" "c \<le> 7"
  shows "counters m (fst (numachip_clear_pcounter m x c)) =
    (counters m x)[unat c := \<lparr>source = 0, compare_mask = 0, count = 0\<rparr>]"
  using assms(2) by (cases rule: u32_le_7_cases) (simp_all add: counters_def view_clear [OF assms(1)])

lemma counters_restart [counters_simps]:
  assumes "csr_documented m g" "c \<le> 7"
  shows "counters m (fst (numachip_restart_pcounter m x c)) =
    (counters m x)[unat c := (counters m x ! unat c)\<lparr>count := 0\<rparr>]"
  using assms(2) by (cases rule: u32_le_7_cases) (simp_all add: counters_def view_restart [OF assms(1)])

lemma counters_stop [counters_simps]:
  assumes "csr_documented m g" "c \<le> 7"
  shows "counters m (fst (numachip_stop_pcounter m x c)) =
    (map (source_update (\<lambda>_. 7)) (counters m x))
      [unat c := (counters m x ! unat c)\<lparr>source := 0, compare_mask := 0\<rparr>]"
  using assms(2) by (cases rule: u32_le_7_cases) (simp_all add: counters_def view_stop [OF assms(1)])

lemma counters_select [counters_simps]:
  assumes "csr_documented m g" "c \<le> 7" "e \<le> 7" "source (counters m x ! unat c) AND e = 0"
  shows "counters m (fst (numachip_select_pcounter m x c e)) =
    (counters m x)[unat c := (counters m x ! unat c)\<lparr>source := source (counters m x ! unat c) OR e\<rparr>]"
proof -
  have free: "source (view m x c) AND e = 0" using assms(2,4) by (simp add: counters_nth)
  show ?thesis
    using assms(2) free
    by (cases rule: u32_le_7_cases)
      (simp_all add: counters_def view_select [OF assms(1) _ _ assms(3)])
qed

lemma counters_mask [counters_simps]:
  assumes "csr_documented m g" "c \<le> 7" "k \<le> 7"
    and "compare_mask (counters m x ! unat c) AND event_mask k = 0"
  shows "counters m (fst (numachip_mask_pcounter m x c k)) =
    (counters m x)[unat c := (counters m x ! unat c)\<lparr>compare_mask := event_mask k\<rparr>]"
proof -
  have free: "compare_mask (view m x c) AND event_mask k = 0" using assms(2,4) by (simp add: counters_nth)
  show ?thesis
    using assms(2) free
    by (cases rule: u32_le_7_cases)
      (simp_all add: counters_def view_mask [OF assms(1) _ _ assms(3)])
qed

lemma status_ok:
  assumes "csr_documented m g" "c \<le> 7"
  shows "snd (numachip_clear_pcounter m x c) = NUMACHIP_ERR_OK"
    and "snd (numachip_restart_pcounter m x c) = NUMACHIP_ERR_OK"
    and "snd (numachip_stop_pcounter m x c) = NUMACHIP_ERR_OK"
    and "e \<le> 7 \<Longrightarrow> source (counters m x ! unat c) AND e = 0 \<Longrightarrow>
      snd (numachip_select_pcounter m x c e) = NUMACHIP_ERR_OK"
    and "k \<le> 7 \<Longrightarrow> compare_mask (counters m x ! unat c) AND event_mask k = 0 \<Longrightarrow>
      snd (numachip_mask_pcounter m x c k) = NUMACHIP_ERR_OK"
  using assms
  by (simp_all add: numachip_clear_pcounter_def numachip_restart_pcounter_def
      numachip_stop_pcounter_def Let_def select_result mask_result counters_nth)

lemma fullstart_eq:
  assumes "csr_documented m g" "c \<le> 7" "e \<le> 7" "k \<le> 7"
  shows "snd (numachip_fullstart_pcounter m x c e k) = NUMACHIP_ERR_OK"
    and "counters m (fst (numachip_fullstart_pcounter m x c e k)) =
      (counters m x)[unat c := \<lparr>source = e, compare_mask = event_mask k, count = 0\<rparr>]"
proof -
  define y where "y = fst (numachip_clear_pcounter m x c)"
  define z where "z = fst (numachip_select_pcounter m y c e)"
  have c: "unat c < 8" using u32_le_7_unat [OF assms(2)] by simp
  have y: "counters m y = (counters m x)[unat c := \<lparr>source = 0, compare_mask = 0, count = 0\<rparr>]"
    using assms by (simp add: y_def counters_clear)
  have z: "counters m z = (counters m x)[unat c := \<lparr>source = e, compare_mask = 0, count = 0\<rparr>]"
    using assms c by (simp add: z_def counters_select y)
  have sel: "snd (numachip_select_pcounter m y c e) = NUMACHIP_ERR_OK"
    using assms c by (simp add: status_ok y)
  have msk: "numachip_fullstart_pcounter m x c e k = numachip_mask_pcounter m z c k"
    using sel status_ok(1) [OF assms(1,2), of x]
    by (auto simp: numachip_fullstart_pcounter_def y_def z_def split: prod.splits)
  show "snd (numachip_fullstart_pcounter m x c e k) = NUMACHIP_ERR_OK"
    using assms c by (simp add: msk status_ok z)
  show "counters m (fst (numachip_fullstart_pcounter m x c e k)) =
      (counters m x)[unat c := \<lparr>source = e, compare_mask = event_mask k, count = 0\<rparr>]"
    using assms c by (simp add: msk counters_mask z)
qed

lemmas fullstart_ok = fullstart_eq(1)
lemmas counters_fullstart [counters_simps] = fullstart_eq(2)

section \<open>What a mask counts\<close>





section \<open>Properties\<close>

text \<open>A context whose registers hold leftovers of an earlier user.\<close>

definition stale_context :: numachip_context where
  "stale_context = \<lparr>device = \<lparr>nodeid = 0x12\<rparr>, memfd = 3, csr_space = (\<lambda>_. 0x77777777)\<rparr>"

text \<open>
  C11: \<^verbatim>\<open>numachip_fullstart_pcounter\<close> always succeeds on valid parameters, whatever the
  registers held before: the counter then counts exactly the requested event of the requested
  source from zero, and the seven other counters are not disturbed.
\<close>

theorem fullstart_programs_counter:
  assumes "csr_documented m g" "c \<le> 7" "e \<le> 7" "k \<le> 7"
  shows "snd (numachip_fullstart_pcounter m x c e k) = NUMACHIP_ERR_OK \<and>
    counters m (fst (numachip_fullstart_pcounter m x c e k)) =
      (counters m x)[unat c := \<lparr>source = e, compare_mask = event_mask k, count = 0\<rparr>]"
  using assms by (simp add: fullstart_ok counters_fullstart)

theorem fullstart_programs_counter_witness:
  "snd (numachip_fullstart_pcounter g3_map stale_context 7 1 6) = NUMACHIP_ERR_OK \<and>
   counters g3_map (fst (numachip_fullstart_pcounter g3_map stale_context 7 1 6)) =
     (counters g3_map stale_context)[7 := \<lparr>source = 1, compare_mask = 0x4040, count = 0\<rparr>]"
  using fullstart_programs_counter [OF g3_map_documented, of 7 1 6 stale_context]
  by (simp add: event_mask_def)

text \<open>
  Every outcome of \<^verbatim>\<open>numachip_select_pcounter\<close>. A number out of range is refused; the
  counter is reported busy exactly when its selected source and the requested one have a bit
  in common; otherwise the requested bits are added to those already selected, and no other
  counter changes. A refused call leaves the device as it was. (So selecting source 2 on a
  counter that counts source 1 is not reported busy and selects source 3.)
\<close>

theorem select_outcomes:
  assumes "csr_documented m g"
  shows "numachip_select_pcounter m x c e = (y, r) \<longleftrightarrow>
    (if 7 < c \<or> 7 < e then y = x \<and> r = NUMACHIP_ERR_INVALID_PARAMETER
     else if source (view m x c) AND e \<noteq> 0 then y = x \<and> r = NUMACHIP_ERR_BUSY
     else y = fst (numachip_select_pcounter m x c e) \<and> r = NUMACHIP_ERR_OK \<and>
       (\<forall>d\<le>7. view m y d = (if d = c then (view m x c)\<lparr>source := source (view m x c) OR e\<rparr>
                              else view m x d)))"
proof (cases "7 < c \<or> 7 < e")
  case True
  then show ?thesis by (auto simp: numachip_select_pcounter_def)
next
  case False
  then have "c \<le> 7" "e \<le> 7" by (simp_all add: not_less)
  then show ?thesis
    using view_select [OF assms \<open>c \<le> 7\<close> _ \<open>e \<le> 7\<close>, of _ x]
    by (auto simp: select_result [OF assms])
qed

theorem select_outcomes_witness:
  "numachip_select_pcounter g3_map stale_context 8 1 = (stale_context, NUMACHIP_ERR_INVALID_PARAMETER)"
  by (subst select_outcomes [OF g3_map_documented]) simp

text \<open>
  \<^verbatim>\<open>numachip_stop_pcounter\<close> stops its counter (source 0, mask 0, the count kept), but the
  value it writes to the shared selection register is computed from a constant, not from
  the register: every other counter is left selecting source 7, whatever it counted.
\<close>

theorem stop_reselects_others:
  assumes "csr_documented m g" "c \<le> 7" "d \<le> 7"
  shows "snd (numachip_stop_pcounter m x c) = NUMACHIP_ERR_OK \<and>
    view m (fst (numachip_stop_pcounter m x c)) d =
      (if d = c then (view m x d)\<lparr>source := 0, compare_mask := 0\<rparr>
       else (view m x d)\<lparr>source := 7\<rparr>)"
  using assms by (simp add: status_ok view_stop)

theorem stop_reselects_others_witness:
  "source (view g3_map (fst (numachip_stop_pcounter g3_map
     (fst (numachip_fullstart_pcounter g3_map stale_context 0 1 6)) 3)) 0) = 7"
  using stop_reselects_others [OF g3_map_documented, of 3 0] by simp

text \<open>
  C16: whatever sequence of API calls a program makes, with whatever arguments, only the
  documented performance-counter registers of the chip can change, they all lie inside the
  mapped 32 KB window, and the reserved bits of the selection register stay clear.
\<close>

theorem api_calls_confined:
  assumes "csr_documented m g" "reserved_clear (read_reg x (SELECT_COUNTER m))"
  shows "reserved_clear (read_reg (run_ops m x ps) (SELECT_COUNTER m)) \<and>
    same_elsewhere g x (run_ops m x ps) \<and> (\<forall>i. pcounter_register g i \<longrightarrow> 4 * i + 3 < 32 * 1024)"
proof -
  have "\<forall>i. pcounter_register g i \<longrightarrow> 4 * i + 3 < 32 * 1024"
    using assms(1) by (auto simp: pcounter_register_def csr_documented_def)
  moreover have "reserved_clear (read_reg (run_ops m x ps) (SELECT_COUNTER m)) \<and>
      same_elsewhere g x (run_ops m x ps)"
    using assms(2)
  proof (induction ps arbitrary: x)
    case (Cons p ps)
    then show ?case
      using run_op_reserved [OF assms(1)] run_op_elsewhere [OF assms(1), of x p]
      by (auto intro: same_elsewhere_trans)
  qed simp
  ultimately show ?thesis by simp
qed

theorem api_calls_confined_witness:
  "same_elsewhere 3 stale_context (run_ops g3_map stale_context [Clear 0, Select 0 5, Mask 0 9, Stop 12])"
proof -
  have "reserved_clear (read_reg stale_context (SELECT_COUNTER g3_map))"
    by (simp add: numachip_read_csr_def stale_context_def u32bswap_def reserved_clear_sevens)
  from api_calls_confined [OF g3_map_documented this] show ?thesis by blast
qed

text \<open>
  \<^verbatim>\<open>numachip_all_start_pcounter\<close> starts the counter on every node of the array, and the
  status it leaves is the status of the last node alone: a failure on an earlier node is
  overwritten.
\<close>

theorem all_start_last_status:
  "numachip_all_start_pcounter m cs c e k err =
    (map (\<lambda>x. fst (numachip_fullstart_pcounter m x c e k)) cs,
     if cs = [] then err else snd (numachip_fullstart_pcounter m (last cs) c e k))"
  by (induction cs arbitrary: err) (auto split: prod.splits)



end
