(* ===== verification/PcounterTest.thy ===== *)
theory PcounterTest
  imports Complex_Main Pcounter
begin

text \<open>
  \<^verbatim>\<open>lib/pcounter_test.c\<close>: the layer the command-line tools use. Each \<open>counter_*\<close> function
  wraps one operation of \<^verbatim>\<open>pcounter.c\<close> (and prints the status, which is not modelled), each
  \<open>counter_*_all\<close> applies it to an array of nodes up to the first error, and the
  \<open>count_api_*\<close> functions run the predefined hit/miss measurement. Rates are exact rational
  numbers: the rounding of \<^verbatim>\<open>double\<close> is not modelled.
\<close>

section \<open>One node\<close>

definition counter_select :: "csr_map \<Rightarrow> numachip_context \<Rightarrow> u32 \<Rightarrow> u32 \<Rightarrow> numachip_context \<times> nc_error_t" where
  "counter_select m cntxt counterno val = numachip_select_pcounter m cntxt counterno val"

definition counter_mask :: "csr_map \<Rightarrow> numachip_context \<Rightarrow> u32 \<Rightarrow> u32 \<Rightarrow> numachip_context \<times> nc_error_t" where
  "counter_mask m cntxt counterno val = numachip_mask_pcounter m cntxt counterno val"

definition counter_clear :: "csr_map \<Rightarrow> numachip_context \<Rightarrow> u32 \<Rightarrow> numachip_context \<times> nc_error_t" where
  "counter_clear m cntxt counterno = numachip_clear_pcounter m cntxt counterno"

definition counter_restart :: "csr_map \<Rightarrow> numachip_context \<Rightarrow> u32 \<Rightarrow> numachip_context \<times> nc_error_t" where
  "counter_restart m cntxt counterno = numachip_restart_pcounter m cntxt counterno"

definition counter_stop :: "csr_map \<Rightarrow> numachip_context \<Rightarrow> u32 \<Rightarrow> numachip_context \<times> nc_error_t" where
  "counter_stop m cntxt counterno = numachip_stop_pcounter m cntxt counterno"

definition counter_start ::
    "csr_map \<Rightarrow> numachip_context \<Rightarrow> u32 \<Rightarrow> u32 \<Rightarrow> u32 \<Rightarrow> numachip_context \<times> nc_error_t" where
  "counter_start m cntxt counterno event msk = numachip_fullstart_pcounter m cntxt counterno event msk"

definition counter_read :: "csr_map \<Rightarrow> numachip_context \<Rightarrow> u32 \<Rightarrow> u64" where
  "counter_read m cntxt counterno = fst (numachip_get_pcounter m cntxt counterno)"

section \<open>All nodes\<close>

definition counter_start_all ::
    "csr_map \<Rightarrow> numachip_context list \<Rightarrow> u32 \<Rightarrow> u32 \<Rightarrow> u32 \<Rightarrow> numachip_context list \<times> nc_error_t" where
  "counter_start_all m cntxt counterno event msk =
     numachip_all_start_pcounter m cntxt counterno event msk NUMACHIP_ERR_OK"

definition counter_select_all ::
    "csr_map \<Rightarrow> numachip_context list \<Rightarrow> u32 \<Rightarrow> u32 \<Rightarrow> numachip_context list \<times> nc_error_t" where
  "counter_select_all m cntxt counterno val =
     all_nodes (\<lambda>x. counter_select m x counterno val) NUMACHIP_ERR_OK cntxt"

definition counter_mask_all ::
    "csr_map \<Rightarrow> numachip_context list \<Rightarrow> u32 \<Rightarrow> u32 \<Rightarrow> numachip_context list \<times> nc_error_t" where
  "counter_mask_all m cntxt counterno val =
     all_nodes (\<lambda>x. counter_mask m x counterno val) NUMACHIP_ERR_OK cntxt"

definition counter_clear_all ::
    "csr_map \<Rightarrow> numachip_context list \<Rightarrow> u32 \<Rightarrow> numachip_context list \<times> nc_error_t" where
  "counter_clear_all m cntxt counterno =
     all_nodes (\<lambda>x. counter_clear m x counterno) NUMACHIP_ERR_OK cntxt"

definition counter_restart_all ::
    "csr_map \<Rightarrow> numachip_context list \<Rightarrow> u32 \<Rightarrow> numachip_context list \<times> nc_error_t" where
  "counter_restart_all m cntxt counterno =
     all_nodes (\<lambda>x. counter_restart m x counterno) NUMACHIP_ERR_OK cntxt"

definition counter_stop_all ::
    "csr_map \<Rightarrow> numachip_context list \<Rightarrow> u32 \<Rightarrow> numachip_context list \<times> nc_error_t" where
  "counter_stop_all m cntxt counterno =
     all_nodes (\<lambda>x. counter_stop m x counterno) NUMACHIP_ERR_OK cntxt"

text \<open>The values \<^verbatim>\<open>counter_print_all\<close> prints, node by node.\<close>

definition counter_print_all :: "csr_map \<Rightarrow> numachip_context list \<Rightarrow> u32 \<Rightarrow> u64 list" where
  "counter_print_all m cntxt counterno = map (\<lambda>x. counter_read m x counterno) cntxt"

section \<open>The predefined measurement\<close>

text \<open>
  Counters 0 and 1 count misses (event 6) and hits (event 5) of the remote cache, counters 2
  and 3 hits and misses of the tag cache; the first failure ends the whole measurement.
\<close>

fun start_seq ::
    "csr_map \<Rightarrow> numachip_context \<Rightarrow> (u32 \<times> u32 \<times> u32) list \<Rightarrow> numachip_context \<times> nc_error_t" where
  "start_seq m x [] = (x, NUMACHIP_ERR_OK)"
| "start_seq m x ((c, e, k) # rest) =
     (case numachip_fullstart_pcounter m x c e k of (x', retval) \<Rightarrow>
        if retval \<noteq> NUMACHIP_ERR_OK then (x', retval) else start_seq m x' rest)"

definition count_api_start :: "csr_map \<Rightarrow> numachip_context list \<Rightarrow> numachip_context list \<times> nc_error_t" where
  "count_api_start m cntxt =
     all_nodes (\<lambda>x. start_seq m x [(0, 1, 6), (1, 1, 5), (2, 6, 3), (3, 6, 2)]) NUMACHIP_ERR_OK cntxt"

text \<open>
  The body of the inner loop of \<^verbatim>\<open>count_api_stop\<close> ends in an unconditional \<open>return\<close>, so the
  function leaves after counter 0 of node 0.
\<close>

fun count_api_stop :: "csr_map \<Rightarrow> numachip_context list \<Rightarrow> numachip_context list \<times> nc_error_t" where
  "count_api_stop m [] = ([], NUMACHIP_ERR_OK)"
| "count_api_stop m (x # xs) =
     (case numachip_stop_pcounter m x 0 of (x', retval) \<Rightarrow> (x' # xs, retval))"

record rcache =
  missrate :: rat
  hitrate :: rat
  total :: u64

text \<open>The conversion of a \<^verbatim>\<open>uint64_t\<close> operand of the division.\<close>

definition rat_of_u64 :: "u64 \<Rightarrow> rat" where
  "rat_of_u64 w = of_nat (unat w)"

definition rates :: "u64 \<Rightarrow> u64 \<Rightarrow> u64 \<Rightarrow> rcache" where
  "rates miss hit tot =
     (if tot = 0 then \<lparr>missrate = 0, hitrate = 100, total = tot\<rparr>
      else if miss = 0 then \<lparr>missrate = 0, hitrate = 100, total = tot\<rparr>
      else if hit = 0 then \<lparr>missrate = 100, hitrate = 0, total = tot\<rparr>
      else \<lparr>missrate = 100 * rat_of_u64 miss / rat_of_u64 tot,
            hitrate = 100 * rat_of_u64 hit / rat_of_u64 tot, total = tot\<rparr>)"

definition count_api_read_rcache ::
    "csr_map \<Rightarrow> numachip_context \<Rightarrow> u32 \<Rightarrow> u32 \<Rightarrow> rcache \<times> nc_error_t" where
  "count_api_read_rcache m cntxt misscounter hitcounter =
     (let zero = \<lparr>missrate = 0, hitrate = 0, total = 0\<rparr> in
      case numachip_get_pcounter m cntxt hitcounter of (hit, error) \<Rightarrow>
      if error \<noteq> NUMACHIP_ERR_OK then (zero, error)
      else case numachip_get_pcounter m cntxt misscounter of (miss, error) \<Rightarrow>
      if error \<noteq> NUMACHIP_ERR_OK then (zero, error)
      else
        let (h, _) = numachip_get_pcounter m cntxt hitcounter;
            (mi, error) = numachip_get_pcounter m cntxt misscounter
        in if error \<noteq> NUMACHIP_ERR_OK then (zero\<lparr>total := h + mi\<rparr>, error)
           else (rates miss hit (h + mi), error))"

text \<open>
  \<^verbatim>\<open>count_api_read_rcache2\<close> also hands the two counts out: \<open>*hit\<close> is written before the first
  test, \<open>*miss\<close> keeps the caller's value when the hit counter cannot be read.
\<close>

definition count_api_read_rcache2 ::
    "csr_map \<Rightarrow> numachip_context \<Rightarrow> u32 \<Rightarrow> u32 \<Rightarrow> u64 \<Rightarrow> rcache \<times> u64 \<times> u64 \<times> nc_error_t" where
  "count_api_read_rcache2 m cntxt misscounter hitcounter old_miss =
     (let zero = \<lparr>missrate = 0, hitrate = 0, total = 0\<rparr> in
      case numachip_get_pcounter m cntxt hitcounter of (hit, error) \<Rightarrow>
      if error \<noteq> NUMACHIP_ERR_OK then (zero, old_miss, hit, error)
      else case numachip_get_pcounter m cntxt misscounter of (miss, error) \<Rightarrow>
      if error \<noteq> NUMACHIP_ERR_OK then (zero, miss, hit, error)
      else
        let (h, _) = numachip_get_pcounter m cntxt hitcounter;
            (mi, error) = numachip_get_pcounter m cntxt misscounter
        in if error \<noteq> NUMACHIP_ERR_OK then (zero\<lparr>total := h + mi\<rparr>, miss, hit, error)
           else (rates miss hit (h + mi), miss, hit, error))"

section \<open>Lemmas\<close>

lemmas counter_defs = counter_select_def counter_mask_def counter_clear_def counter_restart_def
  counter_stop_def counter_start_def

lemmas counter_all_defs = counter_select_all_def counter_mask_all_def counter_clear_all_def
  counter_restart_all_def counter_stop_all_def

lemma get_pcounter_ok: "c \<le> 7 \<Longrightarrow> snd (numachip_get_pcounter m x c) = NUMACHIP_ERR_OK"
  by (simp add: numachip_get_pcounter_def Let_def)

lemma get_pcounter_count: "fst (numachip_get_pcounter m x c) = count (view m x c)"
  by (simp add: view_def)

lemma rcache_eq:
  assumes "mc \<le> 7" "hc \<le> 7"
  shows "count_api_read_rcache m x mc hc =
      (rates (count (view m x mc)) (count (view m x hc))
        (count (view m x hc) + count (view m x mc)), NUMACHIP_ERR_OK)"
    and "count_api_read_rcache2 m x mc hc old =
      (rates (count (view m x mc)) (count (view m x hc))
        (count (view m x hc) + count (view m x mc)),
       count (view m x mc), count (view m x hc), NUMACHIP_ERR_OK)"
  using get_pcounter_ok [OF assms(1), of m x] get_pcounter_ok [OF assms(2), of m x]
  by (auto simp: count_api_read_rcache_def count_api_read_rcache2_def
      get_pcounter_count [symmetric] Let_def split: prod.splits)

lemma unat_add_no_wrap:
  "unat (a :: u64) + unat b < 2 ^ 64 \<Longrightarrow> unat (a + b) = unat a + unat b"
  by (simp add: unat_word_ariths)

lemma rat_of_u64_nonneg [simp]: "0 \<le> rat_of_u64 w"
  unfolding rat_of_u64_def by (rule of_nat_0_le_iff)

lemma rat_of_u64_eq_0 [simp]: "rat_of_u64 w = 0 \<longleftrightarrow> w = 0"
  unfolding rat_of_u64_def of_nat_eq_0_iff by (rule unat_eq_zero)

lemma rat_of_u64_add:
  "unat a + unat b < 2 ^ 64 \<Longrightarrow> rat_of_u64 (a + b) = rat_of_u64 a + rat_of_u64 b"
  unfolding rat_of_u64_def by (simp only: unat_add_no_wrap of_nat_add)

lemma rates_sum:
  assumes "unat hit + unat miss < 2 ^ 64"
  shows "missrate (rates miss hit (hit + miss)) + hitrate (rates miss hit (hit + miss)) = 100"
proof (cases "miss = 0 \<or> hit = 0 \<or> hit + miss = 0")
  case True
  then show ?thesis by (auto simp: rates_def)
next
  case False
  define h k where "h = rat_of_u64 hit" and "k = rat_of_u64 miss"
  have sum: "rat_of_u64 (hit + miss) = h + k" by (simp add: h_def k_def rat_of_u64_add [OF assms])
  from False have "rat_of_u64 (hit + miss) \<noteq> 0" by simp
  then have "h + k \<noteq> 0" by (simp only: sum) simp
  then have "100 * (h + k) / (h + k) = 100" by (rule nonzero_mult_div_cancel_right)
  moreover have "100 * k / (h + k) + 100 * h / (h + k) = 100 * (h + k) / (h + k)"
    by (simp only: add_divide_distrib [symmetric] distrib_left [symmetric] add.commute)
  ultimately have "100 * k / (h + k) + 100 * h / (h + k) = 100" by (simp only:)
  with False show ?thesis by (simp add: rates_def sum h_def [symmetric] k_def [symmetric])
qed

lemma rates_bounds:
  "0 \<le> missrate (rates miss hit tot) \<and> 0 \<le> hitrate (rates miss hit tot)"
  by (auto simp: rates_def)

lemma start_seq_counters:
  assumes "csr_documented m g"
  shows "\<forall>(c, e, k)\<in>set ps. c \<le> 7 \<and> e \<le> 7 \<and> k \<le> 7 \<Longrightarrow>
    snd (start_seq m x ps) = NUMACHIP_ERR_OK \<and>
    counters m (fst (start_seq m x ps)) =
      fold (\<lambda>(c, e, k) vs. vs[unat c := \<lparr>source = e, compare_mask = event_mask k, count = 0\<rparr>])
        ps (counters m x)"
proof (induction ps arbitrary: x)
  case (Cons p ps)
  obtain c e k where p: "p = (c, e, k)" by (cases p)
  with Cons.prems have "c \<le> 7" "e \<le> 7" "k \<le> 7" by auto
  note f = fullstart_ok [OF assms this] counters_fullstart [OF assms this]
  have "start_seq m x (p # ps) = start_seq m (fst (numachip_fullstart_pcounter m x c e k)) ps"
    using f(1) [of x] by (auto simp: p split: prod.splits)
  with Cons f show ?case by (simp add: p)
qed simp

text \<open>
  Triples over the nodes of a cluster: \<open>f\<close> succeeds on every node that satisfies \<open>P\<close> and
  leaves it in \<open>Q\<close>.
\<close>

definition node_triple ::
    "(numachip_context \<Rightarrow> bool) \<Rightarrow> (numachip_context \<Rightarrow> numachip_context \<times> nc_error_t) \<Rightarrow>
     (numachip_context \<Rightarrow> bool) \<Rightarrow> bool" where
  "node_triple P f Q \<longleftrightarrow> (\<forall>x. P x \<longrightarrow> snd (f x) = NUMACHIP_ERR_OK \<and> Q (fst (f x)))"

lemma node_tripleI:
  "(\<And>x. P x \<Longrightarrow> snd (f x) = NUMACHIP_ERR_OK) \<Longrightarrow> (\<And>x. P x \<Longrightarrow> Q (fst (f x))) \<Longrightarrow> node_triple P f Q"
  by (simp add: node_triple_def)

lemma all_nodes_triple:
  assumes "node_triple P f Q" "list_all P cs"
  shows "all_nodes f NUMACHIP_ERR_OK cs = (map (fst \<circ> f) cs, NUMACHIP_ERR_OK)"
    and "list_all Q (fst (all_nodes f NUMACHIP_ERR_OK cs))"
proof -
  have "\<And>c. c \<in> set cs \<Longrightarrow> snd (f c) = NUMACHIP_ERR_OK"
    using assms by (auto simp: node_triple_def list_all_iff)
  then show *: "all_nodes f NUMACHIP_ERR_OK cs = (map (fst \<circ> f) cs, NUMACHIP_ERR_OK)"
    by (rule all_nodes_ok)
  show "list_all Q (fst (all_nodes f NUMACHIP_ERR_OK cs))"
    using assms by (auto simp: * node_triple_def list_all_iff)
qed

section \<open>Properties\<close>

text \<open>
  \<^verbatim>\<open>count_api_start\<close> succeeds on every array of nodes, and afterwards counters 0 to 3 of each
  node are set up as the header of the API says (remote-cache misses and hits, tag-cache hits
  and misses, all from zero) with counters 4 to 7 untouched.
\<close>

theorem count_api_start_sets_up:
  assumes "csr_documented m g"
  shows "snd (count_api_start m cs) = NUMACHIP_ERR_OK \<and>
    map (counters m) (fst (count_api_start m cs)) =
      map (\<lambda>x. [\<lparr>source = 1, compare_mask = event_mask 6, count = 0\<rparr>,
               \<lparr>source = 1, compare_mask = event_mask 5, count = 0\<rparr>,
               \<lparr>source = 6, compare_mask = event_mask 3, count = 0\<rparr>,
               \<lparr>source = 6, compare_mask = event_mask 2, count = 0\<rparr>] @ drop 4 (counters m x)) cs"
proof -
  let ?f = "\<lambda>x. start_seq m x [(0, 1, 6), (1, 1, 5), (2, 6, 3), (3, 6, 2)]"
  have f: "snd (?f x) = NUMACHIP_ERR_OK" and
    c: "counters m (fst (?f x)) = [\<lparr>source = 1, compare_mask = event_mask 6, count = 0\<rparr>,
               \<lparr>source = 1, compare_mask = event_mask 5, count = 0\<rparr>,
               \<lparr>source = 6, compare_mask = event_mask 3, count = 0\<rparr>,
               \<lparr>source = 6, compare_mask = event_mask 2, count = 0\<rparr>] @ drop 4 (counters m x)" for x
    using start_seq_counters [OF assms, of "[(0, 1, 6), (1, 1, 5), (2, 6, 3), (3, 6, 2)]" x]
    by (simp_all add: counters_def)
  show ?thesis
    using f c by (simp add: count_api_start_def all_nodes_ok)
qed

theorem count_api_start_sets_up_witness:
  "snd (count_api_start g3_map [stale_context, stale_context]) = NUMACHIP_ERR_OK"
  using count_api_start_sets_up [OF g3_map_documented, of "[stale_context, stale_context]"] by simp

text \<open>
  \<^verbatim>\<open>count_api_stop\<close>, meant to stop counters 0 to 3 of every node, touches counter 0 of the
  first node only: all other nodes are returned as they were, and on the first node the masks
  and counts of counters 1 to 7 are as before, so they keep counting.
\<close>

theorem count_api_stop_first_only:
  assumes "csr_documented m g"
  shows "count_api_stop m (x # xs) = (fst (numachip_stop_pcounter m x 0) # xs, NUMACHIP_ERR_OK) \<and>
    (\<forall>d\<le>7. d \<noteq> 0 \<longrightarrow>
      compare_mask (view m (hd (fst (count_api_stop m (x # xs)))) d) = compare_mask (view m x d) \<and>
      count (view m (hd (fst (count_api_stop m (x # xs)))) d) = count (view m x d))"
  using status_ok(3) [OF assms, of 0 x] view_stop [OF assms, of 0 _ x]
  by (auto split: prod.splits)

theorem count_api_stop_first_only_witness:
  "fst (count_api_stop g3_map [stale_context, stale_context]) ! 1 = stale_context"
  using count_api_stop_first_only [OF g3_map_documented, of stale_context "[stale_context]"] by simp

text \<open>
  The rates \<^verbatim>\<open>count_api_read_rcache\<close> reports are percentages: neither is negative and they
  add up to 100, for every pair of valid counters whose counts do not overflow 64 bits
  together.
\<close>

theorem rcache_rates_are_percentages:
  assumes "mc \<le> 7" "hc \<le> 7"
    and "unat (counter_read m x hc) + unat (counter_read m x mc) < 2 ^ 64"
  shows "snd (count_api_read_rcache m x mc hc) = NUMACHIP_ERR_OK \<and>
    0 \<le> missrate (fst (count_api_read_rcache m x mc hc)) \<and>
    0 \<le> hitrate (fst (count_api_read_rcache m x mc hc)) \<and>
    missrate (fst (count_api_read_rcache m x mc hc)) + hitrate (fst (count_api_read_rcache m x mc hc)) = 100"
  using assms
  by (simp add: rcache_eq rates_bounds rates_sum counter_read_def get_pcounter_count)

theorem rcache_rates_are_percentages_witness:
  "missrate (fst (count_api_read_rcache g3_map stale_context 0 1)) +
     hitrate (fst (count_api_read_rcache g3_map stale_context 0 1)) = 100"
proof -
  have "unat (counter_read g3_map stale_context 1) + unat (counter_read g3_map stale_context 0) < 2 ^ 64"
    by (simp add: counter_read_def numachip_get_pcounter_def Let_def numachip_read_csr_def
        stale_context_def u32bswap_def)
  then show ?thesis using rcache_rates_are_percentages [of 0 1 g3_map stale_context] by simp
qed

text \<open>
  What the loops over nodes promise about errors: when \<^verbatim>\<open>counter_select_all\<close> reports an
  error, some node reported it, every node before that one was selected successfully, and the
  nodes after it were not touched.
\<close>

theorem select_all_stops_at_error:
  assumes "snd (counter_select_all m cs c e) = r" "r \<noteq> NUMACHIP_ERR_OK"
  shows "\<exists>pre x post. cs = pre @ x # post \<and>
    snd (counter_select m x c e) = r \<and>
    (\<forall>y\<in>set pre. snd (counter_select m y c e) = NUMACHIP_ERR_OK) \<and>
    fst (counter_select_all m cs c e) =
      map (\<lambda>y. fst (counter_select m y c e)) pre @ fst (counter_select m x c e) # post"
  using all_nodes_error [OF assms(1) [unfolded counter_select_all_def] assms(2)]
  by (simp add: counter_select_all_def o_def)

theorem select_all_stops_at_error_witness:
  "\<exists>pre x post. [stale_context, stale_context] = pre @ x # post \<and>
    snd (counter_select g3_map x 9 0) = NUMACHIP_ERR_INVALID_PARAMETER"
proof -
  have "snd (counter_select_all g3_map [stale_context, stale_context] 9 0) =
      NUMACHIP_ERR_INVALID_PARAMETER"
    by (simp add: counter_select_all_def counter_select_def numachip_select_pcounter_def)
  from select_all_stops_at_error [OF this] show ?thesis by blast
qed

end
