(* ===== verification/NcStatD.thy ===== *)
theory NcStatD
  imports PcounterTest
begin

text \<open>
  \<^verbatim>\<open>nc_test/nc_stat_d/nc_stat_d.c\<close>: the statistics server. It programs the eight counters of
  every chip (remote-cache misses and hits, then six counters on the cHT-Cave), and answers
  each request of its client with the counts of all nodes. The parallel arrays
  \<^verbatim>\<open>countstat\<close>, \<^verbatim>\<open>totalhit\<close> and \<^verbatim>\<open>totalmiss\<close> are one list with a record per node. The
  part under \<^verbatim>\<open>WITH_PAPI\<close>, which the Makefile leaves out, is not modelled.
\<close>

section \<open>Statistics of a node\<close>

record msgstats_t =
  hit :: u64
  miss :: u64
  totalhit :: u64
  totalmiss :: u64
  cave_in :: u64
  cave_out :: u64
  tot_cave_in :: u64
  tot_cave_out :: u64
  tot_probe_in :: u64
  tot_probe_out :: u64

record node_stats =
  countstat :: msgstats_t
  sum_hit :: u64
  sum_miss :: u64

text \<open>The counter numbers, sources and masks at the head of the file.\<close>

abbreviation (input) "src_cave \<equiv> (7 :: u32)"
abbreviation (input) "src_cache \<equiv> (1 :: u32)"
abbreviation (input) "no_cachehit \<equiv> (0 :: u32)"
abbreviation (input) "no_cachemiss \<equiv> (1 :: u32)"
abbreviation (input) "no_cave_in \<equiv> (2 :: u32)"
abbreviation (input) "no_cave_out \<equiv> (3 :: u32)"
abbreviation (input) "no_tot_cave_in \<equiv> (4 :: u32)"
abbreviation (input) "no_tot_cave_out \<equiv> (5 :: u32)"
abbreviation (input) "no_tot_probe_in \<equiv> (6 :: u32)"
abbreviation (input) "no_tot_probe_out \<equiv> (7 :: u32)"
abbreviation (input) "cave_in_mask \<equiv> (0 :: u32)"
abbreviation (input) "cave_out_mask \<equiv> (4 :: u32)"
abbreviation (input) "probe_in_mask \<equiv> (3 :: u32)"
abbreviation (input) "probe_out_mask \<equiv> (7 :: u32)"
abbreviation (input) "cachehit_mask \<equiv> (6 :: u32)"
abbreviation (input) "cachemiss_mask \<equiv> (5 :: u32)"

definition avghitrate :: "node_stats \<Rightarrow> rat" where
  "avghitrate n =
     (if sum_hit n + sum_miss n = 0 then 100
      else if sum_miss n = 0 then 100
      else if sum_hit n = 0 then 0
      else 100 * rat_of_u64 (sum_hit n) / rat_of_u64 (sum_hit n + sum_miss n))"

text \<open>
  \<open>mc\<close> is the variable \<^verbatim>\<open>miss_cnt\<close>, which keeps its value from node to node when a read
  fails.
\<close>

fun count_rate :: "csr_map \<Rightarrow> u64 \<Rightarrow> numachip_context list \<Rightarrow> node_stats list \<Rightarrow> node_stats list" where
  "count_rate m mc (c # cs) (n # ns) =
     (case count_api_read_rcache2 m c 0 1 mc of (_, miss_cnt, hit_cnt, _) \<Rightarrow>
        n\<lparr>countstat := (countstat n)\<lparr>hit := hit_cnt, miss := miss_cnt,
             totalhit := hit_cnt + sum_hit n, totalmiss := miss_cnt + sum_miss n\<rparr>,
          sum_hit := hit_cnt + sum_hit n, sum_miss := miss_cnt + sum_miss n\<rparr>
        # count_rate m miss_cnt cs ns)"
| "count_rate m mc _ ns = ns"

fun get_cave :: "csr_map \<Rightarrow> numachip_context list \<Rightarrow> node_stats list \<Rightarrow> node_stats list" where
  "get_cave m (c # cs) (n # ns) =
     n\<lparr>countstat := (countstat n)\<lparr>
          cave_in := counter_read m c no_cave_in, cave_out := counter_read m c no_cave_out,
          tot_cave_in := counter_read m c no_tot_cave_in,
          tot_cave_out := counter_read m c no_tot_cave_out,
          tot_probe_in := counter_read m c no_tot_probe_in,
          tot_probe_out := counter_read m c no_tot_probe_out\<rparr>\<rparr>
     # get_cave m cs ns"
| "get_cave m _ ns = ns"

definition init_numachip_counters :: "nat \<Rightarrow> node_stats list" where
  "init_numachip_counters n =
     replicate n
       \<lparr>countstat = \<lparr>hit = 0, miss = 0, totalhit = 0, totalmiss = 0, cave_in = 0, cave_out = 0,
          tot_cave_in = 0, tot_cave_out = 0, tot_probe_in = 0, tot_probe_out = 0\<rparr>,
        sum_hit = 0, sum_miss = 0\<rparr>"

section \<open>Programming the counters\<close>

type_synonym nodes = "numachip_context list"

text \<open>A call that ends the function with -1 when some counter is busy.\<close>

definition unless_busy :: "nodes \<times> nc_error_t \<Rightarrow> (nodes \<Rightarrow> nodes \<times> 'a) \<Rightarrow> 'a \<Rightarrow> nodes \<times> 'a" where
  "unless_busy r k failed =
     (case r of (cs, e) \<Rightarrow> if e = NUMACHIP_ERR_BUSY then (cs, failed) else k cs)"

text \<open>
  The first calls and the tests that follow them; the result is -1 or what the rest of the
  function, \<open>k\<close>, returns.
\<close>

definition setup_cave :: "csr_map \<Rightarrow> nodes \<Rightarrow> (nodes \<Rightarrow> nodes \<times> 'a) \<Rightarrow> 'a \<Rightarrow> nodes \<times> 'a" where
  "setup_cave m cs k failed =
     (let cs = fst (counter_clear_all m cs no_cave_in);
          cs = fst (counter_clear_all m cs no_cave_out);
          cs = fst (counter_clear_all m cs no_tot_cave_in);
          cs = fst (counter_clear_all m cs no_tot_cave_out);
          cs = fst (counter_clear_all m cs no_tot_probe_in);
          cs = fst (counter_clear_all m cs no_tot_probe_out)
      in
        unless_busy (counter_select_all m cs no_cave_in src_cave) (\<lambda>cs.
        unless_busy (counter_select_all m cs no_cave_out src_cave) (\<lambda>cs.
        unless_busy (counter_mask_all m cs no_cave_in cave_in_mask) (\<lambda>cs.
        unless_busy (counter_mask_all m cs no_cave_out cave_out_mask) (\<lambda>cs.
        unless_busy (counter_select_all m cs no_tot_cave_in src_cave) (\<lambda>cs.
        unless_busy (counter_select_all m cs no_tot_cave_out src_cave) (\<lambda>cs.
        unless_busy (counter_mask_all m cs no_tot_cave_in cave_in_mask) (\<lambda>cs.
        unless_busy (counter_mask_all m cs no_tot_cave_out cave_out_mask) (\<lambda>cs.
        unless_busy (counter_select_all m cs no_tot_probe_in src_cave) (\<lambda>cs.
        unless_busy (counter_select_all m cs no_tot_probe_out src_cave) (\<lambda>cs.
        unless_busy (counter_mask_all m cs no_tot_probe_in probe_in_mask) (\<lambda>cs.
        unless_busy (counter_mask_all m cs no_tot_probe_out probe_out_mask) k
          failed) failed) failed) failed) failed) failed) failed) failed) failed) failed) failed)
          failed)"

text \<open>The block both \<^verbatim>\<open>start_numachip_counters\<close> and the server's loop contain.\<close>

definition refresh_counters :: "csr_map \<Rightarrow> nodes \<Rightarrow> nodes" where
  "refresh_counters m cs =
     (let cs = fst (counter_restart_all m cs no_cave_in);
          cs = fst (counter_restart_all m cs no_cave_out);
          cs = fst (counter_stop_all m cs no_cachehit);
          cs = fst (counter_stop_all m cs no_cachemiss);
          cs = fst (counter_start_all m cs no_cachehit src_cache cachehit_mask)
      in fst (counter_start_all m cs no_cachemiss src_cache cachemiss_mask))"

definition start_numachip_counters ::
    "csr_map \<Rightarrow> nodes \<Rightarrow> node_stats list \<Rightarrow> nodes \<times> node_stats list \<times> int" where
  "start_numachip_counters m cs ns =
     setup_cave m cs
       (\<lambda>cs. let cs = refresh_counters m cs
              in (cs, get_cave m cs (count_rate m 0 cs ns), 0))
       (ns, -1)"

section \<open>The effect of the loops over nodes\<close>

text \<open>
  \<open>abs m cs\<close> is the cluster as its user sees it: for each node the list of its eight
  counters. Every call of the API is a map over it.
\<close>

definition cluster :: "csr_map \<Rightarrow> nodes \<Rightarrow> pcounter list list" where
  "cluster m cs = map (counters m) cs"

lemma in_cluster_length: "v \<in> set (cluster m cs) \<Longrightarrow> length v = 8"
  by (auto simp: cluster_def)

lemma map_cluster_cong:
  "(\<And>v. length v = 8 \<Longrightarrow> f v = g v) \<Longrightarrow> map f (cluster m cs) = map g (cluster m cs)"
  by (simp add: cluster_def)

lemma cluster_clear_all:
  assumes "csr_documented m g" "c \<le> 7"
  shows "cluster m (fst (counter_clear_all m cs c)) =
    map (\<lambda>v. v[unat c := \<lparr>source = 0, compare_mask = 0, count = 0\<rparr>]) (cluster m cs)"
  using assms
  by (simp add: cluster_def counter_clear_all_def counter_clear_def all_nodes_ok status_ok counters_clear)

lemma cluster_restart_all:
  assumes "csr_documented m g" "c \<le> 7"
  shows "cluster m (fst (counter_restart_all m cs c)) =
    map (\<lambda>v. v[unat c := (v ! unat c)\<lparr>count := 0\<rparr>]) (cluster m cs)"
  using assms
  by (simp add: cluster_def counter_restart_all_def counter_restart_def all_nodes_ok status_ok counters_restart)

lemma cluster_stop_all:
  assumes "csr_documented m g" "c \<le> 7"
  shows "cluster m (fst (counter_stop_all m cs c)) =
    map (\<lambda>v. (map (source_update (\<lambda>_. 7)) v)
      [unat c := (v ! unat c)\<lparr>source := 0, compare_mask := 0\<rparr>]) (cluster m cs)"
  using assms
  by (simp add: cluster_def counter_stop_all_def counter_stop_def all_nodes_ok status_ok counters_stop)

lemma all_start_nodes:
  "fst (numachip_all_start_pcounter m cs c e k err) =
    map (\<lambda>x. fst (numachip_fullstart_pcounter m x c e k)) cs"
  by (induction cs arbitrary: err) (simp_all add: case_prod_beta)

lemma cluster_start_all:
  assumes "csr_documented m g" "c \<le> 7" "e \<le> 7" "k \<le> 7"
  shows "cluster m (fst (counter_start_all m cs c e k)) =
    map (\<lambda>v. v[unat c := \<lparr>source = e, compare_mask = event_mask k, count = 0\<rparr>]) (cluster m cs)"
  using assms
  by (simp add: cluster_def counter_start_all_def all_start_nodes counters_fullstart)

lemma cluster_select_all:
  assumes "csr_documented m g" "c \<le> 7" "e \<le> 7"
    and "\<forall>v\<in>set (cluster m cs). source (v ! unat c) AND e = 0"
  shows "snd (counter_select_all m cs c e) = NUMACHIP_ERR_OK"
    and "cluster m (fst (counter_select_all m cs c e)) =
      map (\<lambda>v. v[unat c := (v ! unat c)\<lparr>source := source (v ! unat c) OR e\<rparr>]) (cluster m cs)"
  using assms
  by (simp_all add: cluster_def counter_select_all_def counter_select_def all_nodes_ok status_ok
      counters_select)

lemma cluster_mask_all:
  assumes "csr_documented m g" "c \<le> 7" "k \<le> 7"
    and "\<forall>v\<in>set (cluster m cs). compare_mask (v ! unat c) AND event_mask k = 0"
  shows "snd (counter_mask_all m cs c k) = NUMACHIP_ERR_OK"
    and "cluster m (fst (counter_mask_all m cs c k)) =
      map (\<lambda>v. v[unat c := (v ! unat c)\<lparr>compare_mask := event_mask k\<rparr>]) (cluster m cs)"
  using assms
  by (simp_all add: cluster_def counter_mask_all_def counter_mask_def all_nodes_ok status_ok
      counters_mask)

text \<open>
  The chip as the daemons want it, with \<open>t\<close> the counts of the four counters that are never
  reset.
\<close>

definition daemon_counters :: "u64 list \<Rightarrow> pcounter list" where
  "daemon_counters t =
     [\<lparr>source = 1, compare_mask = event_mask 6, count = 0\<rparr>,
      \<lparr>source = 1, compare_mask = event_mask 5, count = 0\<rparr>,
      \<lparr>source = 7, compare_mask = event_mask 0, count = 0\<rparr>,
      \<lparr>source = 7, compare_mask = event_mask 4, count = 0\<rparr>,
      \<lparr>source = 7, compare_mask = event_mask 0, count = t ! 0\<rparr>,
      \<lparr>source = 7, compare_mask = event_mask 4, count = t ! 1\<rparr>,
      \<lparr>source = 7, compare_mask = event_mask 3, count = t ! 2\<rparr>,
      \<lparr>source = 7, compare_mask = event_mask 7, count = t ! 3\<rparr>]"

lemma list8:
  assumes "length v = 8"
  obtains a b c d e f g h where "v = [a, b, c, d, e, f, g, h]"
  using assms by (auto simp: length_Suc_conv eval_nat_numeral)

lemma refresh_cluster:
  assumes "csr_documented m g"
  shows "cluster m (refresh_counters m cs) =
    map (\<lambda>v. [\<lparr>source = 1, compare_mask = event_mask 6, count = 0\<rparr>,
              \<lparr>source = 1, compare_mask = event_mask 5, count = 0\<rparr>,
              (v ! 2)\<lparr>source := 7, count := 0\<rparr>, (v ! 3)\<lparr>source := 7, count := 0\<rparr>,
              (v ! 4)\<lparr>source := 7\<rparr>, (v ! 5)\<lparr>source := 7\<rparr>, (v ! 6)\<lparr>source := 7\<rparr>,
              (v ! 7)\<lparr>source := 7\<rparr>]) (cluster m cs)"
  by (simp add: refresh_counters_def Let_def cluster_restart_all [OF assms] cluster_stop_all [OF assms]
      cluster_start_all [OF assms] o_def)
    (auto dest!: in_cluster_length elim!: list8)

definition programmed :: "pcounter list \<Rightarrow> bool" where
  "programmed v \<longleftrightarrow> map (\<lambda>p. (source p, compare_mask p)) v =
     map (\<lambda>p. (source p, compare_mask p)) (daemon_counters [0, 0, 0, 0])"

lemma daemon_counters_refresh:
  assumes "csr_documented m g" "\<forall>v\<in>set (cluster m cs). programmed v"
  shows "cluster m (refresh_counters m cs) =
    map (\<lambda>v. daemon_counters (map count (drop 4 v))) (cluster m cs)"
proof -
  have "[\<lparr>source = 1, compare_mask = event_mask 6, count = 0\<rparr>,
              \<lparr>source = 1, compare_mask = event_mask 5, count = 0\<rparr>,
              (v ! 2)\<lparr>source := 7, count := 0\<rparr>, (v ! 3)\<lparr>source := 7, count := 0\<rparr>,
              (v ! 4)\<lparr>source := 7\<rparr>, (v ! 5)\<lparr>source := 7\<rparr>, (v ! 6)\<lparr>source := 7\<rparr>,
              (v ! 7)\<lparr>source := 7\<rparr>] = daemon_counters (map count (drop 4 v))"
    if v: "v \<in> set (cluster m cs)" for v
  proof -
    obtain a b c d e f g h where l: "v = [a, b, c, d, e, f, g, h]"
      using in_cluster_length [OF v] by (rule list8)
    from assms(2) v have "programmed v" by blast
    then show ?thesis
      by (simp add: l programmed_def daemon_counters_def)
  qed
  then show ?thesis by (simp add: refresh_cluster [OF assms(1)] del: list.map)
qed

lemma programmed_daemon_counters: "programmed (daemon_counters t)"
  by (simp add: programmed_def daemon_counters_def)

text \<open>
  \<open>tail_is m V L c\<close>: on every node counters 2 to 7 are \<open>L\<close>, and counters 0 and 1 are still
  what they were in \<open>V\<close>. Each guarded call of \<open>setup_cave\<close> is one step of this form.
\<close>

definition tail_is :: "csr_map \<Rightarrow> pcounter list list \<Rightarrow> pcounter list \<Rightarrow> nodes \<Rightarrow> bool" where
  "tail_is m V L c \<longleftrightarrow> cluster m c = map (\<lambda>v. take 2 v @ L) V \<and> (\<forall>v\<in>set V. length v = 8)"

lemma unless_busy_ok: "snd r = NUMACHIP_ERR_OK \<Longrightarrow> unless_busy r k x = k (fst r)"
  by (auto simp: unless_busy_def split: prod.splits)

lemma step_select:
  assumes "csr_documented m g" "tail_is m V L c" "2 \<le> unat n" "n \<le> 7" "e \<le> 7"
    and "source (L ! (unat n - 2)) AND e = 0"
    and "\<And>c'. tail_is m V (L[unat n - 2 := (L ! (unat n - 2))\<lparr>source := source (L ! (unat n - 2)) OR e\<rparr>]) c' \<Longrightarrow>
      \<exists>cs'. k c' = K cs' \<and> tail_is m V L' cs'"
  shows "\<exists>cs'. unless_busy (counter_select_all m c n e) k x = K cs' \<and> tail_is m V L' cs'"
proof -
  have c: "\<forall>v\<in>set (cluster m c). source (v ! unat n) AND e = 0"
    using assms(2,3,6) by (auto simp: tail_is_def nth_append)
  note s = cluster_select_all [OF assms(1,4,5) c]
  have "tail_is m V (L[unat n - 2 := (L ! (unat n - 2))\<lparr>source := source (L ! (unat n - 2)) OR e\<rparr>])
      (fst (counter_select_all m c n e))"
    using assms(2,3) by (auto simp: tail_is_def s(2) nth_append list_update_append)
  from assms(7) [OF this] show ?thesis by (simp add: unless_busy_ok [OF s(1)])
qed

lemma step_mask:
  assumes "csr_documented m g" "tail_is m V L c" "2 \<le> unat n" "n \<le> 7" "e \<le> 7"
    and "compare_mask (L ! (unat n - 2)) AND event_mask e = 0"
    and "\<And>c'. tail_is m V (L[unat n - 2 := (L ! (unat n - 2))\<lparr>compare_mask := event_mask e\<rparr>]) c' \<Longrightarrow>
      \<exists>cs'. k c' = K cs' \<and> tail_is m V L' cs'"
  shows "\<exists>cs'. unless_busy (counter_mask_all m c n e) k x = K cs' \<and> tail_is m V L' cs'"
proof -
  have c: "\<forall>v\<in>set (cluster m c). compare_mask (v ! unat n) AND event_mask e = 0"
    using assms(2,3,6) by (auto simp: tail_is_def nth_append)
  note s = cluster_mask_all [OF assms(1,4,5) c]
  have "tail_is m V (L[unat n - 2 := (L ! (unat n - 2))\<lparr>compare_mask := event_mask e\<rparr>])
      (fst (counter_mask_all m c n e))"
    using assms(2,3) by (auto simp: tail_is_def s(2) nth_append list_update_append)
  from assms(7) [OF this] show ?thesis by (simp add: unless_busy_ok [OF s(1)])
qed

lemma setup_cave_ok:
  assumes "csr_documented m g"
  shows "\<exists>cs'. setup_cave m cs k x = k cs' \<and>
    tail_is m (cluster m cs) (drop 2 (daemon_counters [0, 0, 0, 0])) cs'"
proof -
  let ?z = "\<lparr>source = 0, compare_mask = 0, count = 0\<rparr> :: pcounter"
  note clr = cluster_clear_all [OF assms]
  define c1 where "c1 = fst (counter_clear_all m (fst (counter_clear_all m (fst (counter_clear_all m
    (fst (counter_clear_all m (fst (counter_clear_all m (fst (counter_clear_all m cs 2)) 3)) 4)) 5)) 6)) 7)"
  have c1: "tail_is m (cluster m cs) [?z, ?z, ?z, ?z, ?z, ?z] c1"
    unfolding c1_def tail_is_def
    by (simp add: clr o_def in_cluster_length) (auto dest!: in_cluster_length elim!: list8)
  show ?thesis
    unfolding setup_cave_def Let_def c1_def [symmetric]
    apply (rule step_select [OF assms c1], simp (no_asm), simp (no_asm), simp (no_asm), simp (no_asm))
    apply (((rule step_select [OF assms] | rule step_mask [OF assms]), assumption,
          simp (no_asm), simp (no_asm), simp (no_asm), simp (no_asm), simp)+)
    by (auto simp: daemon_counters_def)
qed

lemma start_cluster:
  assumes "csr_documented m g"
  shows "snd (snd (start_numachip_counters m cs ns)) = 0"
    and "cluster m (fst (start_numachip_counters m cs ns)) = map (\<lambda>_. daemon_counters [0, 0, 0, 0]) cs"
proof -
  let ?k = "\<lambda>cs. let cs = refresh_counters m cs in (cs, get_cave m cs (count_rate m 0 cs ns), 0 :: int)"
  obtain c where c: "start_numachip_counters m cs ns = ?k c"
      "tail_is m (cluster m cs) (drop 2 (daemon_counters [0, 0, 0, 0])) c"
    unfolding start_numachip_counters_def using setup_cave_ok [OF assms, of cs ?k "(ns, -1)"] by blast
  show "snd (snd (start_numachip_counters m cs ns)) = 0" by (simp add: c(1) Let_def)
  have "cluster m (refresh_counters m c) = map (\<lambda>_. daemon_counters [0, 0, 0, 0]) (cluster m cs)"
    using c(2)
    by (simp add: refresh_cluster [OF assms] tail_is_def nth_append daemon_counters_def)
  then show "cluster m (fst (start_numachip_counters m cs ns)) = map (\<lambda>_. daemon_counters [0, 0, 0, 0]) cs"
    by (simp add: c(1) Let_def) (simp add: cluster_def o_def)
qed

lemma length_count_rate [simp]: "length (count_rate m mc cs ns) = length ns"
  by (induction m mc cs ns rule: count_rate.induct) (simp_all split: prod.splits)

lemma length_get_cave [simp]: "length (get_cave m cs ns) = length ns"
  by (induction m cs ns rule: get_cave.induct) simp_all

text \<open>What one round of reading stores, node by node.\<close>

definition node_report :: "pcounter list \<Rightarrow> node_stats \<Rightarrow> node_stats" where
  "node_report v n =
     \<lparr>countstat = \<lparr>hit = count (v ! 1), miss = count (v ! 0),
        totalhit = count (v ! 1) + sum_hit n, totalmiss = count (v ! 0) + sum_miss n,
        cave_in = count (v ! 2), cave_out = count (v ! 3),
        tot_cave_in = count (v ! 4), tot_cave_out = count (v ! 5),
        tot_probe_in = count (v ! 6), tot_probe_out = count (v ! 7)\<rparr>,
      sum_hit = count (v ! 1) + sum_hit n, sum_miss = count (v ! 0) + sum_miss n\<rparr>"

lemma read_round:
  "length cs = length ns \<Longrightarrow>
    get_cave m cs (count_rate m mc cs ns) = map2 (\<lambda>x n. node_report (counters m x) n) cs ns"
proof (induction cs ns arbitrary: mc rule: list_induct2)
  case (Cons c cs n ns)
  then show ?case
    by (simp add: rcache_eq counter_read_def get_pcounter_count node_report_def counters_def)
qed simp

section \<open>The server\<close>

record server =
  nodes :: nodes
  stats :: "node_stats list"
  listens :: nat
  replies :: "msgstats_t list list"

definition sizeof_cmd_packet :: nat where "sizeof_cmd_packet = 4 + 4 + 20 + 20"
definition sizeof_msgstats_t :: nat where "sizeof_msgstats_t = 10 * 8"
definition sizeof_buf :: nat where "sizeof_buf = 4096"

text \<open>
  The comparison of an \<^verbatim>\<open>int\<close> with a \<^verbatim>\<open>sizeof\<close>: the \<^verbatim>\<open>int\<close> is converted to the unsigned type.
\<close>

definition lt_sizeof :: "int \<Rightarrow> nat \<Rightarrow> bool" where
  "lt_sizeof n k \<longleftrightarrow> (of_int n :: u64) < of_nat k"

text \<open>
  \<^verbatim>\<open>socklisten\<close> compares the pointer \<^verbatim>\<open>newsockfd\<close> with 0, so it returns whatever
  \<^verbatim>\<open>accept\<close> does.
\<close>

definition socklisten :: "server \<Rightarrow> server" where
  "socklisten st = st\<lparr>listens := listens st + 1\<rparr>"

text \<open>
  One turn of the loop of \<^verbatim>\<open>main\<close>: \<open>rd\<close>, \<open>wr1\<close> and \<open>wr2\<close> are what the \<^verbatim>\<open>read\<close> and the two
  \<^verbatim>\<open>write\<close> calls return; \<open>None\<close> is a copy past the end of \<^verbatim>\<open>buf\<close>.
\<close>

definition server_step :: "csr_map \<Rightarrow> int \<times> int \<times> int \<Rightarrow> server \<Rightarrow> server option" where
  "server_step m req st =
     (case req of (rd, wr1, wr2) \<Rightarrow>
      if rd \<le> 0 then Some (socklisten st)
      else if lt_sizeof rd sizeof_cmd_packet then Some (socklisten st)
      else if lt_sizeof wr1 sizeof_cmd_packet then Some (socklisten st)
      else
        let cs = refresh_counters m (nodes st);
            ns = get_cave m cs (count_rate m 0 cs (stats st));
            st = st\<lparr>nodes := cs, stats := ns\<rparr>;
            msgsize = length cs * sizeof_msgstats_t
        in if msgsize > sizeof_buf then None
           else let st = st\<lparr>replies := replies st @ [map countstat ns]\<rparr>
             in if wr2 < int msgsize then Some (socklisten st) else Some st)"

fun run_server :: "csr_map \<Rightarrow> (int \<times> int \<times> int) list \<Rightarrow> server \<Rightarrow> server option" where
  "run_server m [] st = Some st"
| "run_server m (r # rs) st =
     (case server_step m r st of None \<Rightarrow> None | Some st' \<Rightarrow> run_server m rs st')"

definition server_ok :: "csr_map \<Rightarrow> server \<Rightarrow> bool" where
  "server_ok m st \<longleftrightarrow> (\<forall>v\<in>set (cluster m (nodes st)). programmed v) \<and> length (stats st) = length (nodes st)"

lemma length_refresh: "csr_documented m g \<Longrightarrow> length (refresh_counters m cs) = length cs"
  using arg_cong [OF refresh_cluster, of m g length cs] by (simp add: cluster_def)

lemma server_step_ok:
  assumes "csr_documented m g" "server_ok m st" "length (nodes st) \<le> 51"
  shows "\<exists>st'. server_step m r st = Some st' \<and> server_ok m st' \<and> length (nodes st') = length (nodes st)"
proof -
  have "\<forall>v\<in>set (cluster m (refresh_counters m (nodes st))). programmed v"
    using assms(2) by (auto simp: server_ok_def daemon_counters_refresh [OF assms(1)] programmed_daemon_counters)
  then show ?thesis
    using assms(2,3) length_refresh [OF assms(1), of "nodes st"]
    by (auto simp: server_step_def server_ok_def socklisten_def sizeof_msgstats_t_def sizeof_buf_def Let_def
        split: prod.splits)
qed

lemma hit_after_reset: "hit (countstat (node_report (daemon_counters t) n)) = 0"
  by (simp add: node_report_def daemon_counters_def)

section \<open>Properties\<close>

definition demo_server :: server where
  "demo_server =
     \<lparr>nodes = fst (start_numachip_counters g3_map [stale_context, stale_context] (init_numachip_counters 2)),
      stats = init_numachip_counters 2, listens = 1, replies = []\<rparr>"

lemma demo_server_ok: "server_ok g3_map demo_server" "length (nodes demo_server) = 2"
proof -
  have c: "cluster g3_map (nodes demo_server) = [daemon_counters [0, 0, 0, 0], daemon_counters [0, 0, 0, 0]]"
    by (simp add: demo_server_def start_cluster(2) [OF g3_map_documented])
  then show l: "length (nodes demo_server) = 2"
    by (metis cluster_def length_map length_Cons list.size(3) numeral_2_eq_2)
  show "server_ok g3_map demo_server"
    unfolding server_ok_def l using c
    by (simp add: programmed_daemon_counters) (simp add: demo_server_def init_numachip_counters_def)
qed

text \<open>
  C28: from any state of the registers of any number of chips, \<^verbatim>\<open>start_numachip_counters\<close>
  returns 0 (never the -1 of a busy counter) and leaves on every chip exactly the intended
  configuration of all eight counters, each count at zero, although the calls of
  \<^verbatim>\<open>numachip_stop_pcounter\<close> it makes rewrite the sources of the other counters.
\<close>

theorem start_programs_every_chip:
  assumes "csr_documented m g"
  shows "snd (snd (start_numachip_counters m cs ns)) = 0 \<and>
    map (counters m) (fst (start_numachip_counters m cs ns)) = map (\<lambda>_. daemon_counters [0, 0, 0, 0]) cs"
  using start_cluster [OF assms] by (simp add: cluster_def)

theorem start_programs_every_chip_witness:
  "map (counters g3_map) (fst (start_numachip_counters g3_map [stale_context] (init_numachip_counters 1))) =
    [daemon_counters [0, 0, 0, 0]]"
  using start_programs_every_chip [OF g3_map_documented, of "[stale_context]"] by simp

text \<open>
  C27: the server keeps the configuration of every chip through any sequence of requests, of
  any length and in whatever way they arrive (short reads, closed connections, failed writes),
  as long as there are at most 51 chips, the number whose statistics fit its buffer.
\<close>

theorem server_keeps_configuration:
  assumes "csr_documented m g" "server_ok m st" "length (nodes st) \<le> 51"
  shows "\<exists>st'. run_server m rs st = Some st' \<and> server_ok m st' \<and> length (nodes st') = length (nodes st)"
  using assms(2,3)
proof (induction rs arbitrary: st)
  case (Cons r rs)
  from server_step_ok [OF assms(1) Cons.prems] obtain st' where
    "server_step m r st = Some st'" "server_ok m st'" "length (nodes st') = length (nodes st)" by blast
  with Cons.IH [of st'] Cons.prems(2) show ?case by simp
qed simp

theorem server_keeps_configuration_witness:
  "\<exists>st'. run_server g3_map [(48, 48, 160), (-1, 0, 0), (48, 20, 0), (48, 48, 3)] demo_server = Some st' \<and>
    server_ok g3_map st'"
proof -
  have "length (nodes demo_server) \<le> 51" by (simp add: demo_server_ok(2))
  from server_keeps_configuration [OF g3_map_documented demo_server_ok(1) this] show ?thesis by blast
qed

text \<open>
  A complete request overruns the 4096-byte buffer exactly when the cluster has more than
  51 chips.
\<close>

theorem server_overruns_buffer:
  assumes "csr_documented m g" "0 < rd" "\<not> lt_sizeof rd sizeof_cmd_packet" "\<not> lt_sizeof wr1 sizeof_cmd_packet"
  shows "server_step m (rd, wr1, wr2) st = None \<longleftrightarrow> 51 < length (nodes st)"
  using assms(2-4) length_refresh [OF assms(1), of "nodes st"]
  by (simp add: server_step_def sizeof_msgstats_t_def sizeof_buf_def Let_def)

theorem server_overruns_buffer_witness:
  "server_step g3_map (48, 48, 0) \<lparr>nodes = replicate 52 stale_context, stats = init_numachip_counters 52,
     listens = 1, replies = []\<rparr> = None"
  by (subst server_overruns_buffer [OF g3_map_documented]) (simp_all add: lt_sizeof_def sizeof_cmd_packet_def)

text \<open>
  What a reply contains: the counters of hits, misses and of the cave's in- and outgoing
  traffic are reset in the same turn of the loop, just before they are read, so without an
  event in between a reply reports zero for them and leaves the running totals as they were;
  only the four counters that are never reset carry information to the client.
\<close>

theorem reply_after_reset:
  assumes "csr_documented m g" "server_ok m st" "length (nodes st) \<le> 51"
    and "0 < rd" "\<not> lt_sizeof rd sizeof_cmd_packet" "\<not> lt_sizeof wr1 sizeof_cmd_packet"
  shows "\<exists>st'. server_step m (rd, wr1, wr2) st = Some st' \<and>
    replies st' = replies st @ [map countstat (stats st')] \<and>
    stats st' = map2 (\<lambda>v n. node_report (daemon_counters (map count (drop 4 v))) n)
      (cluster m (nodes st)) (stats st)"
proof -
  let ?cs = "refresh_counters m (nodes st)"
  have c: "map (counters m) ?cs = map (\<lambda>v. daemon_counters (map count (drop 4 v))) (cluster m (nodes st))"
    using daemon_counters_refresh [OF assms(1), of "nodes st"] assms(2)
    by (simp add: server_ok_def cluster_def)
  have l: "length ?cs = length (nodes st)" by (rule length_refresh [OF assms(1)])
  have "map2 (\<lambda>x n. node_report (counters m x) n) ?cs (stats st) = map2 node_report (map (counters m) ?cs) (stats st)"
    by (simp add: zip_map1 case_prod_beta o_def)
  also have "\<dots> = map2 (\<lambda>v n. node_report (daemon_counters (map count (drop 4 v))) n)
      (cluster m (nodes st)) (stats st)"
    unfolding c by (simp add: zip_map1 case_prod_beta o_def)
  finally show ?thesis
    using assms(2-6) l read_round [of ?cs "stats st" m 0]
    by (auto simp: server_step_def server_ok_def sizeof_msgstats_t_def sizeof_buf_def socklisten_def Let_def)
qed

theorem reply_after_reset_witness:
  "\<exists>st'. server_step g3_map (48, 48, 160) demo_server = Some st' \<and>
    map hit (map countstat (stats st')) = [0, 0]"
proof -
  have v: "\<not> lt_sizeof 48 sizeof_cmd_packet" by (simp add: lt_sizeof_def sizeof_cmd_packet_def)
  have c: "cluster g3_map (nodes demo_server) = [daemon_counters [0, 0, 0, 0], daemon_counters [0, 0, 0, 0]]"
    by (simp add: demo_server_def start_cluster(2) [OF g3_map_documented])
  have n: "length (nodes demo_server) \<le> 51" by (simp add: demo_server_ok(2))
  from reply_after_reset [OF g3_map_documented demo_server_ok(1) n _ v v, of 160]
  obtain st' where st': "server_step g3_map (48, 48, 160) demo_server = Some st'"
    "stats st' = map2 (\<lambda>v n. node_report (daemon_counters (map count (drop 4 v))) n)
      (cluster g3_map (nodes demo_server)) (stats demo_server)" by auto
  have "length (stats demo_server) = 2"
    by (simp add: demo_server_def init_numachip_counters_def)
  then obtain y z where s: "stats demo_server = [y, z]"
    by (cases "stats demo_server"; cases "tl (stats demo_server)"; simp)
  have "map hit (map countstat (stats st')) = [0, 0]"
    unfolding st'(2) c s by (simp add: hit_after_reset)
  with st'(1) show ?thesis by (intro exI [of _ st'] conjI)
qed

end
