(* ===== verification/NcLog.thy ===== *)
theory NcLog
  imports NcStatD
begin

text \<open>
  \<^verbatim>\<open>nc_test/nc_log_d/nc_log_d.c\<close>: the logging daemon. Its counter set-up is the text of
  \<^verbatim>\<open>nc_stat_d.c\<close>; what it adds are the lines it prints, which are modelled by their values (the
  shell commands of \<^verbatim>\<open>get_system_string\<close> are not), and an endless loop of rounds. \<open>hw i\<close>
  is what the chips count while the daemon sleeps before round \<open>i\<close>.
\<close>

section \<open>Printed lines\<close>

record rate_row =
  d_miss :: rat
  d_hit :: rat
  d_trans :: u64
  t_miss :: rat
  t_hit :: rat
  t_trans :: u64

definition rate_row_of :: "rcache \<Rightarrow> node_stats \<Rightarrow> rate_row" where
  "rate_row_of r n =
     \<lparr>d_miss = missrate r, d_hit = hitrate r, d_trans = total r,
      t_miss = 100 - avghitrate n, t_hit = avghitrate n, t_trans = sum_hit n + sum_miss n\<rparr>"

fun log_count_rate ::
    "csr_map \<Rightarrow> u64 \<Rightarrow> nodes \<Rightarrow> node_stats list \<Rightarrow> node_stats list \<times> rate_row list" where
  "log_count_rate m mc (c # cs) (n # ns) =
     (case count_api_read_rcache2 m c 0 1 mc of (r, miss_cnt, hit_cnt, _) \<Rightarrow>
        let n' = n\<lparr>countstat := (countstat n)\<lparr>hit := hit_cnt, miss := miss_cnt,
                   totalhit := hit_cnt + sum_hit n, totalmiss := miss_cnt + sum_miss n\<rparr>,
                   sum_hit := hit_cnt + sum_hit n, sum_miss := miss_cnt + sum_miss n\<rparr>
        in case log_count_rate m miss_cnt cs ns of (ns', rows) \<Rightarrow>
             (n' # ns', rate_row_of r n' # rows))"
| "log_count_rate m mc _ ns = (ns, [])"

definition cave_row :: "node_stats \<Rightarrow> u64 list" where
  "cave_row n = [cave_in (countstat n), cave_out (countstat n), tot_cave_in (countstat n),
     tot_cave_out (countstat n), tot_probe_in (countstat n), tot_probe_out (countstat n)]"

fun log_get_cave :: "csr_map \<Rightarrow> nodes \<Rightarrow> node_stats list \<Rightarrow> node_stats list \<times> u64 list list" where
  "log_get_cave m (c # cs) (n # ns) =
     (let n' = n\<lparr>countstat := (countstat n)\<lparr>
          cave_in := counter_read m c no_cave_in, cave_out := counter_read m c no_cave_out,
          tot_cave_in := counter_read m c no_tot_cave_in,
          tot_cave_out := counter_read m c no_tot_cave_out,
          tot_probe_in := counter_read m c no_tot_probe_in,
          tot_probe_out := counter_read m c no_tot_probe_out\<rparr>\<rparr>
      in case log_get_cave m cs ns of (ns', rows) \<Rightarrow> (n' # ns', cave_row n' # rows))"
| "log_get_cave m _ ns = (ns, [])"

section \<open>Set-up and rounds\<close>

record log_state =
  log_nodes :: nodes
  log_stats :: "node_stats list"
  rate_log :: "rate_row list list"
  cave_log :: "u64 list list list"

definition log_read :: "csr_map \<Rightarrow> log_state \<Rightarrow> log_state" where
  "log_read m st =
     (let cs = refresh_counters m (log_nodes st);
          (ns, rows) = log_count_rate m 0 cs (log_stats st);
          (ns, caves) = log_get_cave m cs ns
      in \<lparr>log_nodes = cs, log_stats = ns, rate_log = rate_log st @ [rows],
          cave_log = cave_log st @ [caves]\<rparr>)"

definition log_start_numachip_counters :: "csr_map \<Rightarrow> log_state \<Rightarrow> log_state \<times> int" where
  "log_start_numachip_counters m st =
     (case setup_cave m (log_nodes st) (\<lambda>cs. (cs, 0 :: int)) (-1) of (cs, r) \<Rightarrow>
        if r = -1 then (st\<lparr>log_nodes := cs\<rparr>, -1)
        else (log_read m (st\<lparr>log_nodes := cs\<rparr>), 0))"

text \<open>The endless loop, observed for \<open>k\<close> rounds.\<close>

fun log_rounds :: "csr_map \<Rightarrow> (nat \<Rightarrow> nodes \<Rightarrow> nodes) \<Rightarrow> nat \<Rightarrow> log_state \<Rightarrow> log_state" where
  "log_rounds m hw 0 st = st"
| "log_rounds m hw (Suc k) st =
     (let st = log_rounds m hw k st
      in log_read m (st\<lparr>log_nodes := hw k (log_nodes st)\<rparr>))"

text \<open>
  \<^verbatim>\<open>main\<close>: \<open>devs\<close> is the result of \<^verbatim>\<open>numachip_get_device_list\<close>, each device with the context
  \<^verbatim>\<open>numachip_open_device\<close> returns for it. Only the first context is tested; the value
  \<open>None\<close> is the use of another one that is NULL.
\<close>

definition log_main ::
    "csr_map \<Rightarrow> (nat \<Rightarrow> nodes \<Rightarrow> nodes) \<Rightarrow> nat \<Rightarrow> numachip_context option list option
     \<Rightarrow> (log_state + int) option" where
  "log_main m hw k devs =
     (case devs of
        None \<Rightarrow> Some (Inr (-1))
      | Some [] \<Rightarrow> None
      | Some (None # _) \<Rightarrow> Some (Inr (-1))
      | Some (Some c # rest) \<Rightarrow>
          if None \<in> set rest then None
          else
            let cs = c # map the rest;
                st = \<lparr>log_nodes = cs, log_stats = init_numachip_counters (length cs),
                      rate_log = [], cave_log = []\<rparr>;
                st = fst (log_start_numachip_counters m st)
            in Some (Inl (log_rounds m hw k st)))"

section \<open>Lemmas\<close>

lemma log_count_rate_fst: "fst (log_count_rate m mc cs ns) = count_rate m mc cs ns"
  by (induction cs ns arbitrary: mc rule: list_induct2') (simp_all add: case_prod_beta Let_def)

lemma log_get_cave_fst: "fst (log_get_cave m cs ns) = get_cave m cs ns"
  by (induction m cs ns rule: log_get_cave.induct) (simp_all add: case_prod_beta Let_def)

text \<open>A round in which the chips are as the daemon wants them and no event has been summed up.\<close>

definition quiet :: "node_stats \<Rightarrow> bool" where
  "quiet n \<longleftrightarrow> sum_hit n = 0 \<and> sum_miss n = 0"

definition no_events_row :: rate_row where
  "no_events_row = \<lparr>d_miss = 0, d_hit = 100, d_trans = 0, t_miss = 0, t_hit = 100, t_trans = 0\<rparr>"

lemma log_count_rate_quiet:
  "length cs = length ns \<Longrightarrow> \<forall>c\<in>set cs. \<exists>t. counters m c = daemon_counters t \<Longrightarrow> list_all quiet ns \<Longrightarrow>
    snd (log_count_rate m mc cs ns) = replicate (length ns) no_events_row \<and>
    list_all quiet (fst (log_count_rate m mc cs ns))"
proof (induction cs ns arbitrary: mc rule: list_induct2)
  case (Cons c cs n ns)
  then obtain t where "counters m c = daemon_counters t" by auto
  then have "count (view m c 0) = 0" "count (view m c 1) = 0"
    by (simp_all add: counters_def daemon_counters_def)
  with Cons show ?case
    by (simp add: rcache_eq case_prod_beta Let_def quiet_def rate_row_of_def avghitrate_def rates_def
        no_events_row_def)
qed simp

definition log_ok :: "csr_map \<Rightarrow> log_state \<Rightarrow> bool" where
  "log_ok m st \<longleftrightarrow> (\<forall>v\<in>set (cluster m (log_nodes st)). programmed v) \<and>
     length (log_stats st) = length (log_nodes st) \<and> list_all quiet (log_stats st) \<and>
     set (rate_log st) \<subseteq> {replicate (length (log_nodes st)) no_events_row}"

lemma list_all_quiet_get_cave: "list_all quiet ns \<Longrightarrow> list_all quiet (get_cave m cs ns)"
  by (induction m cs ns rule: get_cave.induct) (simp_all add: quiet_def)

lemma log_read_ok:
  assumes "csr_documented m g" "log_ok m st"
  shows "log_ok m (log_read m st)" "length (log_nodes (log_read m st)) = length (log_nodes st)"
proof -
  let ?cs = "refresh_counters m (log_nodes st)"
  have c: "cluster m ?cs = map (\<lambda>v. daemon_counters (map count (drop 4 v))) (cluster m (log_nodes st))"
    using assms by (simp add: daemon_counters_refresh log_ok_def)
  have l: "length ?cs = length (log_nodes st)" by (rule length_refresh [OF assms(1)])
  have "counters m x \<in> set (cluster m ?cs)" if "x \<in> set ?cs" for x
    using that by (simp add: cluster_def)
  then have d: "\<forall>x\<in>set ?cs. \<exists>t. counters m x = daemon_counters t" by (auto simp: c)
  have r: "log_read m st = \<lparr>log_nodes = ?cs, log_stats = get_cave m ?cs (count_rate m 0 ?cs (log_stats st)),
      rate_log = rate_log st @ [snd (log_count_rate m 0 ?cs (log_stats st))],
      cave_log = cave_log st @ [snd (log_get_cave m ?cs (count_rate m 0 ?cs (log_stats st)))]\<rparr>"
    by (simp add: log_read_def Let_def case_prod_beta log_count_rate_fst log_get_cave_fst)
  have q: "snd (log_count_rate m 0 ?cs (log_stats st)) = replicate (length ?cs) no_events_row"
    "list_all quiet (count_rate m 0 ?cs (log_stats st))"
    using log_count_rate_quiet [OF _ d, of "log_stats st" 0] assms(2) l
    by (simp_all add: log_ok_def log_count_rate_fst)
  show "log_ok m (log_read m st)"
    using assms(2) q l
    by (auto simp: log_ok_def r c programmed_daemon_counters list_all_quiet_get_cave)
  show "length (log_nodes (log_read m st)) = length (log_nodes st)" by (simp add: r l)
qed

text \<open>What the chips may do while the daemon sleeps: count.\<close>

definition counts_only :: "csr_map \<Rightarrow> (nat \<Rightarrow> nodes \<Rightarrow> nodes) \<Rightarrow> bool" where
  "counts_only m hw \<longleftrightarrow> (\<forall>i cs. map (map (\<lambda>p. (source p, compare_mask p))) (cluster m (hw i cs)) =
     map (map (\<lambda>p. (source p, compare_mask p))) (cluster m cs))"

lemma counts_only_ok:
  assumes "counts_only m hw" "log_ok m st"
  shows "log_ok m (st\<lparr>log_nodes := hw i (log_nodes st)\<rparr>)" "length (hw i (log_nodes st)) = length (log_nodes st)"
proof -
  let ?f = "map (\<lambda>p. (source p, compare_mask p))"
  have e: "map ?f (cluster m (hw i (log_nodes st))) = map ?f (cluster m (log_nodes st))"
    using assms(1) unfolding counts_only_def by blast
  show l: "length (hw i (log_nodes st)) = length (log_nodes st)"
    using arg_cong [OF e, of length] by (simp add: cluster_def)
  have "?f ` set (cluster m (hw i (log_nodes st))) = ?f ` set (cluster m (log_nodes st))"
    using arg_cong [OF e, of set] by simp
  moreover have "\<forall>v\<in>set (cluster m (log_nodes st)). programmed v"
    using assms(2) by (simp add: log_ok_def)
  ultimately have "\<forall>v\<in>set (cluster m (hw i (log_nodes st))). programmed v"
    unfolding programmed_def by (metis (no_types, lifting) image_iff)
  then show "log_ok m (st\<lparr>log_nodes := hw i (log_nodes st)\<rparr>)"
    using assms(2) l by (simp add: log_ok_def)
qed

lemma log_rounds_ok:
  assumes "csr_documented m g" "counts_only m hw" "log_ok m st"
  shows "log_ok m (log_rounds m hw k st) \<and> length (log_nodes (log_rounds m hw k st)) = length (log_nodes st) \<and>
    length (rate_log (log_rounds m hw k st)) = length (rate_log st) + k"
proof (induction k)
  case 0
  then show ?case using assms by simp
next
  case (Suc k)
  note c = counts_only_ok [OF assms(2) conjunct1 [OF Suc], of k]
  have "length (rate_log (log_read m x)) = Suc (length (rate_log x))" for x
    by (simp add: log_read_def Let_def case_prod_beta)
  with log_read_ok [OF assms(1) c(1)] c(2) Suc show ?case by (simp add: Let_def)
qed

lemma log_start_ok:
  assumes "csr_documented m g" "log_stats st = init_numachip_counters (length (log_nodes st))" "rate_log st = []"
  shows "snd (log_start_numachip_counters m st) = 0" "log_ok m (fst (log_start_numachip_counters m st))"
    "length (log_nodes (fst (log_start_numachip_counters m st))) = length (log_nodes st)"
    "length (rate_log (fst (log_start_numachip_counters m st))) = 1"
proof -
  obtain c where c: "setup_cave m (log_nodes st) (\<lambda>cs. (cs, 0 :: int)) (-1) = (c, 0)"
      "tail_is m (cluster m (log_nodes st)) (drop 2 (daemon_counters [0, 0, 0, 0])) c"
    using setup_cave_ok [OF assms(1), of "log_nodes st" "\<lambda>cs. (cs, 0 :: int)" "-1"] by blast
  let ?cs = "refresh_counters m c"
  have l: "length c = length (log_nodes st)"
    using c(2) by (auto simp: tail_is_def cluster_def dest: map_eq_imp_length_eq)
  have r: "cluster m ?cs = map (\<lambda>_. daemon_counters [0, 0, 0, 0]) (cluster m (log_nodes st))"
    using c(2) by (simp add: refresh_cluster [OF assms(1)] tail_is_def nth_append daemon_counters_def)
  have lr: "length ?cs = length c" by (rule length_refresh [OF assms(1)])
  have "counters m x \<in> set (cluster m ?cs)" if "x \<in> set ?cs" for x
    using that by (simp add: cluster_def)
  then have d: "\<forall>x\<in>set ?cs. \<exists>t. counters m x = daemon_counters t" by (auto simp: r)
  have e: "fst (log_start_numachip_counters m st) = log_read m (st\<lparr>log_nodes := c\<rparr>)"
    by (simp add: log_start_numachip_counters_def c(1))
  have q: "list_all quiet (init_numachip_counters n)" for n
    by (auto simp: init_numachip_counters_def quiet_def list_all_iff)
  have z: "length (init_numachip_counters n) = n" for n by (simp add: init_numachip_counters_def)
  note lc = log_count_rate_quiet [of ?cs "init_numachip_counters (length (log_nodes st))" m 0, OF _ d q]
  show "snd (log_start_numachip_counters m st) = 0"
    by (simp add: log_start_numachip_counters_def c(1))
  show "log_ok m (fst (log_start_numachip_counters m st))"
    unfolding e using lc l lr
    by (auto simp: log_read_def Let_def case_prod_beta log_ok_def r programmed_daemon_counters z
        log_count_rate_fst log_get_cave_fst list_all_quiet_get_cave assms(2,3))
  show "length (log_nodes (fst (log_start_numachip_counters m st))) = length (log_nodes st)"
    by (simp add: e log_read_def Let_def case_prod_beta l lr)
  show "length (rate_log (fst (log_start_numachip_counters m st))) = 1"
    by (simp add: e log_read_def Let_def case_prod_beta assms(3))
qed

section \<open>Properties\<close>

text \<open>
  The daemon never logs a miss. However many rounds it runs and whatever the chips count
  while it sleeps, each round resets the counters before it reads them, so (unless an event
  falls between the two) every line it has printed for every node says 0 per cent misses,
  100 per cent hits and no transactions, and so do the running totals.
\<close>

theorem log_never_reports_a_miss:
  assumes "csr_documented m g" "counts_only m hw"
  shows "\<exists>st. log_main m hw k (Some (map Some (c # cs))) = Some (Inl st) \<and>
    rate_log st = replicate (k + 1) (replicate (length (c # cs)) no_events_row) \<and>
    (\<forall>x\<in>set (log_nodes st). programmed (counters m x))"
proof -
  let ?init = "\<lparr>log_nodes = c # cs, log_stats = init_numachip_counters (length (c # cs)),
    rate_log = [], cave_log = []\<rparr>"
  let ?st = "fst (log_start_numachip_counters m ?init)"
  have s: "log_ok m ?st" "length (log_nodes ?st) = length (c # cs)" "length (rate_log ?st) = 1"
    using log_start_ok [OF assms(1), of ?init] by simp_all
  note r = log_rounds_ok [OF assms s(1), of k]
  have "log_main m hw k (Some (map Some (c # cs))) = Some (Inl (log_rounds m hw k ?st))"
    by (auto simp: log_main_def Let_def o_def)
  moreover have "rate_log (log_rounds m hw k ?st) = replicate (k + 1) (replicate (length (c # cs)) no_events_row)"
    using r s(2,3) by (intro replicate_eqI) (auto simp: log_ok_def)
  moreover have "\<forall>x\<in>set (log_nodes (log_rounds m hw k ?st)). programmed (counters m x)"
    using r by (auto simp: log_ok_def cluster_def)
  ultimately show ?thesis by (intro exI [of _ "log_rounds m hw k ?st"] conjI)
qed

lemma counting_hw: "counts_only g3_map (\<lambda>_. map (\<lambda>x. write_reg x (perf_lower g3_map 1) 5))"
  by (auto simp: counts_only_def cluster_def counters_def view_simps read_write [OF g3_map_documented])

theorem log_never_reports_a_miss_witness:
  "\<exists>st. log_main g3_map (\<lambda>_. map (\<lambda>x. write_reg x (perf_lower g3_map 1) 5)) 2 (Some [Some stale_context]) =
      Some (Inl st) \<and> rate_log st = [[no_events_row], [no_events_row], [no_events_row]]"
  using log_never_reports_a_miss [OF g3_map_documented counting_hw, of 2 stale_context "[]"]
  by (auto simp: eval_nat_numeral)

end
