(* ===== verification/NcTest.thy ===== *)
theory NcTest
  imports PcounterTest
begin

text \<open>
  \<^verbatim>\<open>nc_test/nc_stat/test.c\<close>: the command-line tool that drives the tracer of the chip and the
  predefined hit/miss measurement. The offsets of the tracer's registers are a parameter; what
  the code relies on is that they denote different registers. The status register is written
  by the chip, so the effect of a write to the control register is the parameter \<open>hw\<close>.
\<close>

section \<open>Registers of the tracer\<close>

record tracer_map =
  TRACERCTRL :: u32
  TRACERSTAT :: u32
  HREQ_CTRL :: u32
  WATCH_BUS_SELECT :: u32
  TRACER_EVENT_ADDRESS_UPPER_BITS :: u32
  TRACER_EVENT_ADDRESS_LOWER_BITS :: u32
  TRACER_SELECT_COMPARE_AND_MASK :: u32
  MCTAG_MAINTR :: u32
  CDATA_MAINTR :: u32
  TRACER_RAM_0 :: u32

definition tracer_regs :: "tracer_map \<Rightarrow> u32 list" where
  "tracer_regs t = [TRACERCTRL t, TRACERSTAT t, HREQ_CTRL t, WATCH_BUS_SELECT t,
     TRACER_EVENT_ADDRESS_UPPER_BITS t, TRACER_EVENT_ADDRESS_LOWER_BITS t,
     TRACER_SELECT_COMPARE_AND_MASK t, MCTAG_MAINTR t, CDATA_MAINTR t]"

definition tracer_distinct :: "tracer_map \<Rightarrow> bool" where
  "tracer_distinct t \<longleftrightarrow> distinct (map (\<lambda>r. csr_index (ucast r)) (tracer_regs t))"

text \<open>The offsets the comments of \<^verbatim>\<open>test.c\<close> give (G3xC00 and so on).\<close>

definition doc_tracer_map :: tracer_map where
  "doc_tracer_map = \<lparr>TRACERCTRL = 0x3C04, TRACERSTAT = 0x3C08, HREQ_CTRL = 0x3400,
     WATCH_BUS_SELECT = 0x3C00, TRACER_EVENT_ADDRESS_UPPER_BITS = 0x3C0C,
     TRACER_EVENT_ADDRESS_LOWER_BITS = 0x3C10, TRACER_SELECT_COMPARE_AND_MASK = 0x3C14,
     MCTAG_MAINTR = 0x4700, CDATA_MAINTR = 0x4F00, TRACER_RAM_0 = 0x5000\<rparr>"

lemma doc_tracer_distinct: "tracer_distinct doc_tracer_map"
  by (simp add: tracer_distinct_def tracer_regs_def doc_tracer_map_def csr_index_def)

section \<open>The report on the request control register\<close>

text \<open>Kilocycles of delay for lock assertion; the tested bits are 15, 14 and 13.\<close>

definition lock_delay :: "u32 \<Rightarrow> rat" where
  "lock_delay value =
     (if value AND 0x8000 \<noteq> 0 \<and> value AND 0x4000 \<noteq> 0 \<and> value AND 0x2000 \<noteq> 0 then 30
      else if value AND 0x8000 \<noteq> 0 \<and> value AND 0x4000 \<noteq> 0 then 16
      else if value AND 0x8000 \<noteq> 0 \<and> value AND 0x2000 \<noteq> 0 then 8
      else if value AND 0x8000 \<noteq> 0 then 4
      else if value AND 0x4000 \<noteq> 0 \<and> value AND 0x2000 \<noteq> 0 then 2
      else if value AND 0x4000 \<noteq> 0 then 1
      else if value AND 0x2000 \<noteq> 0 then 1 / 2
      else 0)"

definition cache_size :: "u32 \<Rightarrow> nat" where
  "cache_size value =
     (if value AND 0x8000000 \<noteq> 0 \<and> value AND 0x4000000 \<noteq> 0 then 16
      else if value AND 0x8000000 \<noteq> 0 then 8
      else if value AND 0x4000000 \<noteq> 0 then 4
      else 2)"

definition event_mode :: "u32 \<Rightarrow> nat" where
  "event_mode value =
     (if value AND 0x20000000 \<noteq> 0 \<and> value AND 0x10000000 \<noteq> 0 then 3
      else if value AND 0x20000000 \<noteq> 0 then 2
      else if value AND 0x10000000 \<noteq> 0 then 1
      else 0)"

definition address_mode :: "u32 \<Rightarrow> nat" where
  "address_mode value =
     (if value AND 0x80000000 \<noteq> 0 \<and> value AND 0x40000000 \<noteq> 0 then 3
      else if value AND 0x80000000 \<noteq> 0 then 2
      else if value AND 0x40000000 \<noteq> 0 then 1
      else 0)"

record hreq_report =
  by_firmware :: bool
  delay :: rat
  smi_shutdown :: bool
  error_bit :: bool
  nxa_bit :: bool
  weak_ordering :: bool
  cache_gb :: nat
  ev_mode :: nat
  addr_mode :: nat

definition report_hreq :: "u32 \<Rightarrow> hreq_report" where
  "report_hreq value =
     \<lparr>by_firmware = (value AND 0x1000 \<noteq> 0), delay = lock_delay value,
      smi_shutdown = (value AND 0x10000 \<noteq> 0), error_bit = (value AND 0x20000 \<noteq> 0),
      nxa_bit = (value AND 0x40000 \<noteq> 0), weak_ordering = (value AND 0x80000 \<noteq> 0),
      cache_gb = cache_size value, ev_mode = event_mode value, addr_mode = address_mode value\<rparr>"

section \<open>Setting the tracer up and reading it out\<close>

record tracer_outcome =
  returned :: nat
  report :: "hreq_report option"
  not_running :: bool

definition tracer_setup ::
    "tracer_map \<Rightarrow> (numachip_context \<Rightarrow> numachip_context) \<Rightarrow> numachip_context
     \<Rightarrow> numachip_context \<times> tracer_outcome" where
  "tracer_setup t hw cntxt =
     (let cntxt = hw (write_reg cntxt (TRACERCTRL t) 3);
          value = read_reg cntxt (TRACERSTAT t)
      in if value AND 1 \<noteq> 0
         then (cntxt, \<lparr>returned = 1, report = None, not_running = False\<rparr>)
         else
           let cntxt = write_reg cntxt (WATCH_BUS_SELECT t) 0x20;
               cntxt = write_reg cntxt (TRACER_EVENT_ADDRESS_UPPER_BITS t) 0x40;
               cntxt = write_reg cntxt (TRACER_EVENT_ADDRESS_LOWER_BITS t) 0x4000008;
               cntxt = write_reg cntxt (TRACER_SELECT_COMPARE_AND_MASK t) 0x13F3F;
               cntxt = write_reg cntxt (MCTAG_MAINTR t) 0x107;
               cntxt = write_reg cntxt (CDATA_MAINTR t) 0x107;
               value = read_reg cntxt (HREQ_CTRL t);
               cntxt = write_reg cntxt (HREQ_CTRL t) (0xF0000000 OR value);
               value = read_reg cntxt (HREQ_CTRL t);
               cntxt = hw (write_reg cntxt (TRACERCTRL t) 2);
               stopped = read_reg cntxt (TRACERSTAT t)
           in (cntxt, \<lparr>returned = 0, report = Some (report_hreq value),
                       not_running = (stopped AND 1 = 0)\<rparr>))"

text \<open>The loop over the tracer RAM: the words read, at offsets 0, 4, \dots up to \<open>end_addr\<close>.\<close>

function dump_ram :: "tracer_map \<Rightarrow> numachip_context \<Rightarrow> u32 \<Rightarrow> nat \<Rightarrow> (nat \<times> u32) list" where
  "dump_ram t cntxt end_addr k =
     (if k \<le> unat end_addr
      then (k, read_reg cntxt (TRACER_RAM_0 t + of_nat k)) # dump_ram t cntxt end_addr (k + 4)
      else [])"
  by auto
termination by (relation "measure (\<lambda>(t, c, e, k). Suc (unat e) - k)") auto

declare dump_ram.simps [simp del]

definition tracer_result ::
    "tracer_map \<Rightarrow> (numachip_context \<Rightarrow> numachip_context) \<Rightarrow> numachip_context
     \<Rightarrow> numachip_context \<times> (nat \<times> u32) list" where
  "tracer_result t hw cntxt =
     (let cntxt = hw (write_reg cntxt (TRACERCTRL t) 3);
          data = read_reg cntxt (TRACERSTAT t);
          tracerEndAddr = data AND 0xFFE
      in if tracerEndAddr = 0 then (cntxt, [])
         else (cntxt, dump_ram t cntxt tracerEndAddr 0))"

section \<open>The command line\<close>

text \<open>The rates \<^verbatim>\<open>count_rate\<close> prints: counter 1 as misses, counter 0 as hits.\<close>

definition test_count_rate :: "csr_map \<Rightarrow> numachip_context list \<Rightarrow> rcache list" where
  "test_count_rate m cntxt = map (\<lambda>x. fst (count_api_read_rcache m x 1 0)) cntxt"

datatype tool_output = Tracer tracer_outcome | Ram "(nat \<times> u32) list" | Rates "rcache list" | Dump

definition on_first ::
    "(numachip_context \<Rightarrow> numachip_context \<times> 'a) \<Rightarrow> ('a \<Rightarrow> tool_output) \<Rightarrow> numachip_context list
     \<Rightarrow> (numachip_context list \<times> tool_output list) option" where
  "on_first f out cntxt =
     (case cntxt of [] \<Rightarrow> None | x # xs \<Rightarrow> (case f x of (x', r) \<Rightarrow> Some (x' # xs, [out r])))"

text \<open>
  One argument; \<open>None\<close> is the use of \<^verbatim>\<open>cntxt[1]\<close> on a system with one chip. An argument the
  tool does not know is skipped.
\<close>

definition test_arg ::
    "csr_map \<Rightarrow> tracer_map \<Rightarrow> (numachip_context \<Rightarrow> numachip_context) \<Rightarrow> string \<Rightarrow> numachip_context list
     \<Rightarrow> (numachip_context list \<times> tool_output list) option" where
  "test_arg m t hw arg cntxt =
     (if arg = ''-dump-scc-csr'' then if length cntxt < 2 then None else Some (cntxt, [Dump, Dump])
      else if arg = ''-dump-phy-regs'' then if length cntxt < 2 then None else Some (cntxt, [Dump, Dump])
      else if arg = ''-setup-tracer'' then on_first (tracer_setup t hw) Tracer cntxt
      else if arg = ''-tracer-result'' then on_first (tracer_result t hw) Ram cntxt
      else if arg = ''-count-start'' then Some (fst (count_api_start m cntxt), [])
      else if arg = ''-count-stop'' then Some (fst (count_api_stop m cntxt), [])
      else if arg = ''-count-rate'' then
        let cntxt = fst (count_api_stop m cntxt);
            cntxt = fst (count_api_start m cntxt)
        in Some (cntxt, [Rates (test_count_rate m cntxt)])
      else Some (cntxt, []))"

fun test_args ::
    "csr_map \<Rightarrow> tracer_map \<Rightarrow> (numachip_context \<Rightarrow> numachip_context) \<Rightarrow> string list \<Rightarrow> numachip_context list
     \<Rightarrow> (numachip_context list \<times> tool_output list) option" where
  "test_args m t hw [] cntxt = Some (cntxt, [])"
| "test_args m t hw (a # as) cntxt =
     (case test_arg m t hw a cntxt of
        None \<Rightarrow> None
      | Some (cntxt', out) \<Rightarrow>
          (case test_args m t hw as cntxt' of
             None \<Rightarrow> None
           | Some (cntxt'', out') \<Rightarrow> Some (cntxt'', out @ out')))"

section \<open>Lemmas\<close>

lemma and_bit_test:
  "(v :: u32) AND 0x1000 \<noteq> 0 \<longleftrightarrow> bit v 12" "v AND 0x2000 \<noteq> 0 \<longleftrightarrow> bit v 13"
  "v AND 0x4000 \<noteq> 0 \<longleftrightarrow> bit v 14" "v AND 0x8000 \<noteq> 0 \<longleftrightarrow> bit v 15"
  "v AND 0x4000000 \<noteq> 0 \<longleftrightarrow> bit v 26" "v AND 0x8000000 \<noteq> 0 \<longleftrightarrow> bit v 27"
  "v AND 0x10000000 \<noteq> 0 \<longleftrightarrow> bit v 28" "v AND 0x20000000 \<noteq> 0 \<longleftrightarrow> bit v 29"
  "v AND 0x40000000 \<noteq> 0 \<longleftrightarrow> bit v 30" "v AND 0x80000000 \<noteq> 0 \<longleftrightarrow> bit v 31"
  using and_exp_eq_0_iff_not_bit [of v 12] and_exp_eq_0_iff_not_bit [of v 13]
    and_exp_eq_0_iff_not_bit [of v 14] and_exp_eq_0_iff_not_bit [of v 15]
    and_exp_eq_0_iff_not_bit [of v 26] and_exp_eq_0_iff_not_bit [of v 27]
    and_exp_eq_0_iff_not_bit [of v 28] and_exp_eq_0_iff_not_bit [of v 29]
    and_exp_eq_0_iff_not_bit [of v 30] and_exp_eq_0_iff_not_bit [of v 31]
  by simp_all

text \<open>A field of two bits as a number.\<close>

definition field2 :: "nat \<Rightarrow> u32 \<Rightarrow> nat" where
  "field2 n v = unat (take_bit 2 (drop_bit n v))"

lemma field2_bits: "field2 n v = of_bool (bit v n) + 2 * of_bool (bit v (Suc n))"
proof -
  have "take_bit 2 (drop_bit n v) = of_bool (bit v n) + 2 * of_bool (bit v (Suc n))"
    by (simp add: numeral_2_eq_2 take_bit_Suc bit_iff_odd_drop_bit drop_bit_Suc mod_2_eq_odd
      flip: drop_bit_Suc drop_bit_half)
  then show ?thesis by (simp add: field2_def)
qed

lemma event_mode_field: "event_mode v = field2 28 v"
  unfolding event_mode_def and_bit_test field2_bits by simp

lemma address_mode_field: "address_mode v = field2 30 v"
  unfolding address_mode_def and_bit_test field2_bits by simp

lemma cache_size_field: "cache_size v = 2 ^ (field2 26 v + 1)"
  unfolding cache_size_def and_bit_test field2_bits by simp

lemma dump_ram_eq:
  "dump_ram t x e k = map (\<lambda>i. (k + 4 * i, read_reg x (TRACER_RAM_0 t + of_nat (k + 4 * i))))
     [0..<(if k \<le> unat e then Suc ((unat e - k) div 4) else 0)]"
proof (induction t x e k rule: dump_ram.induct)
  case (1 t x e k)
  show ?case
  proof (cases "k \<le> unat e")
    case True
    let ?n = "if k + 4 \<le> unat e then Suc ((unat e - (k + 4)) div 4) else 0"
    have n: "Suc ((unat e - k) div 4) = Suc ?n" using True by auto
    have "dump_ram t x e k = (k, read_reg x (TRACER_RAM_0 t + of_nat k)) # dump_ram t x e (k + 4)"
      using True by (simp add: dump_ram.simps [of t x e k])
    also have "dump_ram t x e (k + 4) =
        map (\<lambda>i. (k + 4 * Suc i, read_reg x (TRACER_RAM_0 t + of_nat (k + 4 * Suc i)))) [0..<?n]"
      unfolding 1 [OF True] by (simp add: add.assoc add.commute)
    also have "(k, read_reg x (TRACER_RAM_0 t + of_nat k)) # \<dots> =
        map (\<lambda>i. (k + 4 * i, read_reg x (TRACER_RAM_0 t + of_nat (k + 4 * i)))) [0..<Suc ?n]"
      by (simp only: map_upt_Suc) simp
    finally show ?thesis unfolding n [symmetric] using True by simp
  qed (simp add: dump_ram.simps)
qed

text \<open>What the chip may do to its registers when the tracer is started or stopped.\<close>

definition status_only :: "tracer_map \<Rightarrow> (numachip_context \<Rightarrow> numachip_context) \<Rightarrow> bool" where
  "status_only t hw \<longleftrightarrow> (\<forall>x r. csr_index r \<noteq> csr_index (ucast (TRACERSTAT t)) \<longrightarrow>
     numachip_read_csr (hw x) r = numachip_read_csr x r)"

definition obedient_hw :: "numachip_context \<Rightarrow> numachip_context" where
  "obedient_hw x = write_reg x (TRACERSTAT doc_tracer_map)
     (if read_reg x (TRACERCTRL doc_tracer_map) = 2 then 1 else 0x16)"

lemma obedient_status_only: "status_only doc_tracer_map obedient_hw"
  by (auto simp: status_only_def obedient_hw_def csr.rd_wr)

section \<open>Properties\<close>

text \<open>
  \<^verbatim>\<open>tracer_setup\<close> stops the tracer; if it still runs the call returns 1, having written
  nothing but the control register. Otherwise it writes the values of the comments to six
  registers, sets the four top bits of the request control register (event mode 3 and address
  mode 3; the comment there asks for \<^verbatim>\<open>32'hB002_0000\<close>, address mode 2), reports its fields, and
  starts the tracer. All other registers, the status register apart, stay as they were.
\<close>

theorem tracer_setup_programs:
  assumes "tracer_distinct t" "status_only t hw"
  shows "(let y = fst (tracer_setup t hw x); out = snd (tracer_setup t hw x);
       h = 0xF0000000 OR read_reg x (HREQ_CTRL t)
     in if read_reg (hw (write_reg x (TRACERCTRL t) 3)) (TRACERSTAT t) AND 1 \<noteq> 0
        then returned out = 1 \<and> report out = None \<and>
          read_reg y (TRACERCTRL t) = 3 \<and>
          (\<forall>r. csr_index r \<notin> {csr_index (ucast (TRACERCTRL t)), csr_index (ucast (TRACERSTAT t))} \<longrightarrow>
             numachip_read_csr y r = numachip_read_csr x r)
        else returned out = 0 \<and> report out = Some (report_hreq h) \<and>
          read_reg y (TRACERCTRL t) = 2 \<and> read_reg y (WATCH_BUS_SELECT t) = 0x20 \<and>
          read_reg y (TRACER_EVENT_ADDRESS_UPPER_BITS t) = 0x40 \<and>
          read_reg y (TRACER_EVENT_ADDRESS_LOWER_BITS t) = 0x4000008 \<and>
          read_reg y (TRACER_SELECT_COMPARE_AND_MASK t) = 0x13F3F \<and>
          read_reg y (MCTAG_MAINTR t) = 0x107 \<and> read_reg y (CDATA_MAINTR t) = 0x107 \<and>
          read_reg y (HREQ_CTRL t) = h \<and>
          (\<forall>r. csr_index r \<notin> (\<lambda>q. csr_index (ucast q)) ` set (tracer_regs t) \<longrightarrow>
             numachip_read_csr y r = numachip_read_csr x r) \<and>
          (not_running out \<longleftrightarrow> read_reg y (TRACERSTAT t) AND 1 = 0))"
proof -
  have d: "distinct (map (\<lambda>r. csr_index (ucast r)) (tracer_regs t))"
    using assms(1) by (simp add: tracer_distinct_def)
  have hw: "csr_index (ucast r) \<noteq> csr_index (ucast (TRACERSTAT t)) \<Longrightarrow> read_reg (hw y) r = read_reg y r"
    "csr_index (ucast (TRACERSTAT t)) \<noteq> csr_index (ucast r) \<Longrightarrow> read_reg (hw y) r = read_reg y r" for y r
    using assms(2) by (simp_all add: status_only_def)
  have other: "csr_index p \<noteq> csr_index q \<Longrightarrow> numachip_read_csr (numachip_write_csr c p v) q = numachip_read_csr c q"
    "csr_index q \<noteq> csr_index p \<Longrightarrow> numachip_read_csr (numachip_write_csr c p v) q = numachip_read_csr c q"
    "numachip_read_csr (numachip_write_csr c p v) p = v" for p q c v
    by (simp_all add: csr.rd_wr)
  define s1 where "s1 = hw (write_reg x (TRACERCTRL t) 3)"
  define y where "y = write_reg (write_reg (write_reg (write_reg (write_reg (write_reg s1
    (WATCH_BUS_SELECT t) 0x20) (TRACER_EVENT_ADDRESS_UPPER_BITS t) 0x40)
    (TRACER_EVENT_ADDRESS_LOWER_BITS t) 0x4000008) (TRACER_SELECT_COMPARE_AND_MASK t) 0x13F3F)
    (MCTAG_MAINTR t) 0x107) (CDATA_MAINTR t) 0x107"
  define z where "z = write_reg y (HREQ_CTRL t) (0xF0000000 OR read_reg y (HREQ_CTRL t))"
  define e where "e = hw (write_reg z (TRACERCTRL t) 2)"
  have code: "tracer_setup t hw x =
      (if read_reg s1 (TRACERSTAT t) AND 1 \<noteq> 0
       then (s1, \<lparr>returned = 1, report = None, not_running = False\<rparr>)
       else (e, \<lparr>returned = 0, report = Some (report_hreq (read_reg z (HREQ_CTRL t))),
                 not_running = (read_reg e (TRACERSTAT t) AND 1 = 0)\<rparr>))"
    by (simp only: tracer_setup_def Let_def s1_def y_def z_def e_def)
  have hw': "csr_index r \<noteq> csr_index (ucast (TRACERSTAT t)) \<Longrightarrow> numachip_read_csr (hw y) r = numachip_read_csr y r" for y r
    using assms(2) by (simp add: status_only_def)
  have s1: "read_reg s1 (TRACERCTRL t) = 3" using d by (simp add: tracer_regs_def s1_def hw csr.rd_wr)
  have r1: "numachip_read_csr s1 r = numachip_read_csr x r"
    if "csr_index r \<notin> {csr_index (ucast (TRACERCTRL t)), csr_index (ucast (TRACERSTAT t))}" for r
    using that by (simp add: s1_def hw' csr.rd_wr)
  have ee: "numachip_read_csr e r = numachip_read_csr x r"
    if "csr_index r \<notin> (\<lambda>q. csr_index (ucast q)) ` set (tracer_regs t)" for r
    using that by (simp add: tracer_regs_def e_def z_def y_def s1_def hw' csr.rd_wr)
  have ry: "read_reg y (HREQ_CTRL t) = read_reg x (HREQ_CTRL t)"
    using d by (simp add: tracer_regs_def y_def s1_def hw other)
  have rz: "read_reg z (HREQ_CTRL t) = 0xF0000000 OR read_reg x (HREQ_CTRL t)"
    by (simp add: z_def other ry)
  have re: "read_reg e (TRACERCTRL t) = 2" "read_reg e (HREQ_CTRL t) = read_reg z (HREQ_CTRL t)"
    using d by (simp_all add: tracer_regs_def e_def hw other)
  have rw: "read_reg e (WATCH_BUS_SELECT t) = 0x20" "read_reg e (TRACER_EVENT_ADDRESS_UPPER_BITS t) = 0x40"
    "read_reg e (TRACER_EVENT_ADDRESS_LOWER_BITS t) = 0x4000008"
    "read_reg e (TRACER_SELECT_COMPARE_AND_MASK t) = 0x13F3F"
    "read_reg e (MCTAG_MAINTR t) = 0x107" "read_reg e (CDATA_MAINTR t) = 0x107"
    using d by (simp_all add: tracer_regs_def e_def z_def y_def hw other)
  show ?thesis
    unfolding code s1_def [symmetric] Let_def using s1 r1 ee rz re rw by simp
qed

theorem tracer_setup_programs_witness:
  "returned (snd (tracer_setup doc_tracer_map obedient_hw
     \<lparr>device = \<lparr>nodeid = 1\<rparr>, memfd = 3, csr_space = (\<lambda>_. 0)\<rparr>)) = 0"
proof -
  let ?x = "\<lparr>device = \<lparr>nodeid = 1\<rparr>, memfd = 3, csr_space = (\<lambda>_. 0)\<rparr>"
  have "read_reg (obedient_hw (write_reg ?x (TRACERCTRL doc_tracer_map) 3)) (TRACERSTAT doc_tracer_map) AND 1 = 0"
    by (simp add: obedient_hw_def csr.rd_wr)
  then show ?thesis
    using tracer_setup_programs [OF doc_tracer_distinct obedient_status_only, of ?x] by (simp add: Let_def)
qed

text \<open>
  The cascades of tests in the report on the request control register decode its
  fields: bits 31:30 and 29:28 as numbers, the cache size as a power of two of bits 27:26, and
  the lock delay from bits 15:13 (0, then half a kilocycle doubling with each step up to 16,
  and 30 for the largest value).
\<close>

theorem report_decodes_fields:
  "addr_mode (report_hreq v) = field2 30 v \<and> ev_mode (report_hreq v) = field2 28 v \<and>
   cache_gb (report_hreq v) = 2 ^ (field2 26 v + 1) \<and>
   delay (report_hreq v) =
     (let f = of_bool (bit v 13) + 2 * of_bool (bit v 14) + 4 * of_bool (bit v 15) :: nat
      in if f = 0 then 0 else if f = 7 then 30 else 2 ^ (f - 1) / 2)"
proof -
  have "lock_delay v =
     (let f = of_bool (bit v 13) + 2 * of_bool (bit v 14) + 4 * of_bool (bit v 15) :: nat
      in if f = 0 then 0 else if f = 7 then 30 else 2 ^ (f - 1) / 2)"
    unfolding lock_delay_def and_bit_test
    by (cases "bit v 13"; cases "bit v 14"; cases "bit v 15"; simp)
  then show ?thesis
    by (simp add: report_hreq_def address_mode_field event_mode_field cache_size_field)
qed

text \<open>
  \<^verbatim>\<open>tracer_result\<close> dumps only half of what was captured. The status register holds the index
  \<open>a\<close> of the last valid word in bits 10:1, and the comment asks for the words up to byte
  address \<open>4 a\<close>; the code uses bits 11:0 with bit 0 masked, which is \<open>2 a\<close>, so it reads the
  words 0 to \<open>a div 2\<close>.
\<close>

theorem tracer_result_dumps_half:
  assumes "tracer_distinct t" "a < 2 ^ 10" "0 < a"
    and "read_reg (hw (write_reg x (TRACERCTRL t) 3)) (TRACERSTAT t) = of_nat (2 * a)"
  shows "snd (tracer_result t hw x) =
    map (\<lambda>i. (4 * i, read_reg (hw (write_reg x (TRACERCTRL t) 3)) (TRACER_RAM_0 t + of_nat (4 * i))))
      [0..<Suc (a div 2)]"
proof -
  have "of_nat (2 * a) AND 0xFFE = (of_nat (2 * a) :: u32)"
  proof (rule bit_word_eqI)
    fix n assume n: "n < LENGTH(32)"
    have e: "(0xFFE :: u32) = push_bit 1 (mask 11)" by (simp add: mask_eq_exp_minus_1)
    have m: "bit (0xFFE :: u32) n \<longleftrightarrow> 0 < n \<and> n < 12"
      using n unfolding e bit_push_bit_iff bit_mask_iff by auto
    have "2 * a = take_bit 11 (2 * a)" using assms(2) by (simp add: take_bit_nat_eq_self)
    then have "bit (2 * a) n \<Longrightarrow> n < 11" by (metis bit_take_bit_iff)
    moreover have "\<not> bit (2 * a) 0" by (simp add: bit_0)
    ultimately have "bit (2 * a) n \<Longrightarrow> 0 < n \<and> n < 12" by (cases "n = 0") auto
    then show "bit (of_nat (2 * a) AND 0xFFE :: u32) n = bit (of_nat (2 * a) :: u32) n"
      unfolding bit_and_iff m bit_of_nat_iff by blast
  qed
  moreover have "unat (of_nat (2 * a) :: u32) = 2 * a"
    using assms(2) by (simp only: unsigned_of_nat of_nat_id) (rule take_bit_nat_eq_self, simp)
  ultimately show ?thesis
    using assms(3,4) by (simp add: tracer_result_def Let_def dump_ram_eq flip: unat_eq_zero)
qed

text \<open>
  The rates \<^verbatim>\<open>count_rate\<close> of the tool prints are swapped: it reads counter 1 as the misses and
  counter 0 as the hits, while \<^verbatim>\<open>count_api_start\<close> of the same tool counts ctag misses (event 6) in
  counter 0 and hits (event 5) in counter 1; the printed miss rate is the share of hits.
\<close>

theorem printed_rates_swapped:
  assumes "count (view m x 0) \<noteq> 0" "count (view m x 1) \<noteq> 0"
    and "unat (count (view m x 0)) + unat (count (view m x 1)) < 2 ^ 64"
  shows "map missrate (test_count_rate m [x]) =
      [100 * rat_of_u64 (count (view m x 1)) /
         (rat_of_u64 (count (view m x 0)) + rat_of_u64 (count (view m x 1)))] \<and>
    map hitrate (test_count_rate m [x]) =
      [100 * rat_of_u64 (count (view m x 0)) /
         (rat_of_u64 (count (view m x 0)) + rat_of_u64 (count (view m x 1)))]"
proof -
  have s: "count (view m x 0) + count (view m x 1) \<noteq> 0"
    using assms(1,3) unat_add_no_wrap [OF assms(3)] by (metis add_is_0 unat_0 unat_eq_zero)
  then show ?thesis
    using assms(1,2) rat_of_u64_add [OF assms(3)]
    by (simp add: test_count_rate_def rcache_eq rates_def)
qed

theorem tracer_result_dumps_half_witness:
  "map fst (snd (tracer_result doc_tracer_map obedient_hw
     \<lparr>device = \<lparr>nodeid = 1\<rparr>, memfd = 3, csr_space = (\<lambda>_. 0)\<rparr>)) = [0, 4, 8, 12, 16, 20]"
proof -
  let ?x = "\<lparr>device = \<lparr>nodeid = 1\<rparr>, memfd = 3, csr_space = (\<lambda>_. 0)\<rparr>"
  have "read_reg (obedient_hw (write_reg ?x (TRACERCTRL doc_tracer_map) 3)) (TRACERSTAT doc_tracer_map) = of_nat (2 * 11)"
    by (simp add: obedient_hw_def csr.rd_wr)
  then show ?thesis
    using tracer_result_dumps_half [OF doc_tracer_distinct, of 11 obedient_hw ?x] by (simp add: upt_rec o_def)
qed

definition counted_context :: numachip_context where
  "counted_context = write_reg (write_reg \<lparr>device = \<lparr>nodeid = 1\<rparr>, memfd = 3, csr_space = (\<lambda>_. 0)\<rparr>
     (perf_lower g3_map 0) 30) (perf_lower g3_map 1) 10"

lemma counted_context_counts: "count (view g3_map counted_context 0) = 30" "count (view g3_map counted_context 1) = 10"
  by (simp_all add: counted_context_def view_simps csr.rd_wr layout_simps [OF g3_map_documented])
    (simp_all add: numachip_read_csr_def u32bswap_def)

theorem printed_rates_swapped_witness:
  "map missrate (test_count_rate g3_map [counted_context]) = [25]"
  using printed_rates_swapped [of g3_map counted_context]
  by (simp add: counted_context_counts rat_of_u64_def)

end
