(* ===== verification/NcPerf.thy ===== *)
theory NcPerf
  imports PcounterTest CStrings
begin

text \<open>
  \<^verbatim>\<open>nc_test/nc_perf/nc_perf.c\<close>: the command-line tool over the counter API. The command line is
  \<^verbatim>\<open>argv\<close> without the program name; the loop of \<^verbatim>\<open>main\<close> is a recursion over what is left of it.
  Help texts are one constructor each.
\<close>

section \<open>Numbers on the command line\<close>

text \<open>An argument is read by \<^verbatim>\<open>strtol\<close> and converted to \<^verbatim>\<open>uint32_t\<close>.\<close>

definition arg_u32 :: "string \<Rightarrow> u32" where
  "arg_u32 s = of_int (strtol10 s)"

section \<open>Commands\<close>

datatype perf_out = Usage | BusyNote | Reading "u64 list" | Help string

type_synonym perf_result = "(numachip_context list \<times> perf_out list)"

definition busy_note :: "nc_error_t \<Rightarrow> perf_out list" where
  "busy_note e = (if e = NUMACHIP_ERR_BUSY then [BusyNote] else [])"

text \<open>
  The branch for \<^verbatim>\<open>all\<close>: every command it knows ends the loop; \<open>None\<close> is a command it does not
  know. \<open>has_val\<close> is the test \<^verbatim>\<open>argc>counter+3\<close>.
\<close>

definition perf_all ::
    "csr_map \<Rightarrow> numachip_context list \<Rightarrow> string \<Rightarrow> bool \<Rightarrow> u32 \<Rightarrow> u32 \<Rightarrow> u32 \<Rightarrow> perf_result option" where
  "perf_all m cs cmd has_val counterno val val2 =
     (if cmd = ''-counter-select'' then
        case counter_select_all m cs counterno val of (cs', e) \<Rightarrow> Some (cs', busy_note e)
      else if cmd = ''-counter-mask'' then
        case counter_mask_all m cs counterno val of (cs', e) \<Rightarrow> Some (cs', busy_note e)
      else if cmd = ''-counter-clear'' then Some (fst (counter_clear_all m cs counterno), [])
      else if cmd = ''-counter-read'' then Some (cs, [Reading (counter_print_all m cs counterno)])
      else if cmd = ''-counter-stop'' then Some (fst (counter_stop_all m cs counterno), [])
      else if cmd = ''-counter-start'' then
        if \<not> has_val then Some (cs, [Usage])
        else Some (fst (counter_start_all m cs counterno val val2), [])
      else None)"

text \<open>The branch for one node, whose index was checked.\<close>

definition perf_node ::
    "csr_map \<Rightarrow> numachip_context list \<Rightarrow> string \<Rightarrow> nat \<Rightarrow> u32 \<Rightarrow> u32 \<Rightarrow> u32 \<Rightarrow> perf_result option" where
  "perf_node m cs cmd i counterno val val2 =
     (if cmd = ''-counter-select'' then
        case counter_select m (cs ! i) counterno val of (x, e) \<Rightarrow> Some (cs[i := x], busy_note e)
      else if cmd = ''-counter-mask'' then
        case counter_mask m (cs ! i) counterno val of (x, e) \<Rightarrow> Some (cs[i := x], busy_note e)
      else if cmd = ''-counter-clear'' then
        Some (cs[i := fst (counter_clear m (cs ! i) counterno)], [])
      else if cmd = ''-counter-read'' then Some (cs, [Reading [counter_read m (cs ! i) counterno]])
      else if cmd = ''-counter-stop'' then
        Some (cs[i := fst (counter_stop m (cs ! i) counterno)], [])
      else if cmd = ''-counter-start'' then
        Some (cs[i := fst (counter_start m (cs ! i) counterno val val2)], [])
      else None)"

fun perf_loop :: "csr_map \<Rightarrow> string list \<Rightarrow> numachip_context list \<Rightarrow> perf_result" where
  "perf_loop m [] cs = (cs, [])"
| "perf_loop m (cmd # rest) cs =
     (if length rest < 2 then (cs, [Usage])
      else
        let counterno = arg_u32 (rest ! 1);
            val = (if 2 < length rest then arg_u32 (rest ! 2) else 0);
            val2 = (if 3 < length rest then arg_u32 (rest ! 3) else 0)
        in if rest ! 0 = ''all'' then
             (case perf_all m cs cmd (2 < length rest) counterno val val2 of
                Some r \<Rightarrow> r
              | None \<Rightarrow> perf_loop m rest cs)
           else
             let nodeix = unat (arg_u32 (rest ! 0))
             in if nodeix \<ge> length cs then (cs, [Usage])
                else (case perf_node m cs cmd nodeix counterno val val2 of
                        Some r \<Rightarrow> r
                      | None \<Rightarrow> (case perf_loop m rest cs of (cs', out) \<Rightarrow> (cs', Usage # out))))"

definition perf_help :: "string list \<Rightarrow> perf_out list" where
  "perf_help args =
     (case args of
        [] \<Rightarrow> []
      | a # _ \<Rightarrow> if a \<in> set [''-counter-select'', ''-counter-mask'', ''-counter-clear'', ''-counter-stop'',
                     ''-counter-read'', ''-counter-start''] then [Help a] else [Usage])"

definition perf_main :: "csr_map \<Rightarrow> string list \<Rightarrow> numachip_context list \<Rightarrow> perf_result \<times> int" where
  "perf_main m argv cs =
     (case argv of
        [] \<Rightarrow> ((cs, [Usage]), -1)
      | a # args \<Rightarrow> if a = ''help'' then ((cs, perf_help args), 0) else (perf_loop m argv cs, 0))"

section \<open>Lemmas\<close>


lemma start_all_nodes:
  "fst (counter_start_all m cs c e k) = map (\<lambda>x. fst (numachip_fullstart_pcounter m x c e k)) cs"
proof -
  have "fst (numachip_all_start_pcounter m cs c e k err) =
      map (\<lambda>x. fst (numachip_fullstart_pcounter m x c e k)) cs" for err
    by (induction cs arbitrary: err) (simp_all add: case_prod_beta)
  then show ?thesis by (simp add: counter_start_all_def)
qed


section \<open>What the commands mean\<close>






section \<open>Properties\<close>


lemma arg_u32_digits: "arg_u32 ''0'' = 0" "arg_u32 ''1'' = 1" "arg_u32 ''2'' = 2" "arg_u32 ''6'' = 6"
  by (simp_all add: arg_u32_def strtol10_def signed_digits_def isspace_def isdigit_def)


text \<open>
  \<^verbatim>\<open>nc_perf -counter-start all\<close> with three numbers in range succeeds on every chip: the
  counter of each is programmed as asked, from zero, whatever its registers held, and the
  other seven are left alone; nothing is printed.
\<close>

theorem nc_perf_start_all:
  assumes "csr_documented m g" "arg_u32 s1 \<le> 7" "arg_u32 s2 \<le> 7" "arg_u32 s3 \<le> 7"
  shows "(let ((cs', out), ret) = perf_main m [''-counter-start'', ''all'', s1, s2, s3] cs
     in out = [] \<and> ret = 0 \<and>
       map (counters m) cs' = map (\<lambda>x. (counters m x)[unat (arg_u32 s1) :=
         \<lparr>source = arg_u32 s2, compare_mask = event_mask (arg_u32 s3), count = 0\<rparr>]) cs)"
proof -
  have "perf_main m [''-counter-start'', ''all'', s1, s2, s3] cs =
      ((fst (counter_start_all m cs (arg_u32 s1) (arg_u32 s2) (arg_u32 s3)), []), 0)"
    by (simp add: perf_main_def perf_all_def Let_def)
  then show ?thesis
    using assms by (simp add: start_all_nodes counters_fullstart)
qed

theorem nc_perf_start_all_witness:
  "map (\<lambda>x. counters g3_map x ! 2)
     (fst (fst (perf_main g3_map [''-counter-start'', ''all'', ''2'', ''1'', ''6''] [stale_context]))) =
    [\<lparr>source = 1, compare_mask = event_mask 6, count = 0\<rparr>]"
proof -
  have l: "length (counters g3_map stale_context) = 8" by simp
  show ?thesis
    using nc_perf_start_all [OF g3_map_documented, of "''2''" "''1''" "''6''" "[stale_context]"]
    by (auto simp: arg_u32_digits Let_def case_prod_beta)
qed

text \<open>
  At most one command takes effect. When the first argument is a command \<^verbatim>\<open>nc_perf\<close> knows
  for one node, with a node index in range, the outcome is that of this command alone: the
  rest of the line is only read for its numbers, and all other nodes are returned as they were.
\<close>

theorem nc_perf_single_command:
  assumes "perf_node m cs cmd (unat (arg_u32 node)) (arg_u32 c) v w = Some r" "cmd \<noteq> ''help''"
    and "node \<noteq> ''all''" "unat (arg_u32 node) < length cs"
    and "v = (if rest = [] then 0 else arg_u32 (hd rest))"
    and "w = (if length rest < 2 then 0 else arg_u32 (rest ! 1))"
  shows "perf_main m (cmd # node # c # rest) cs = (r, 0) \<and>
    (\<forall>i. i \<noteq> unat (arg_u32 node) \<longrightarrow> fst r ! i = cs ! i)"
proof -
  have "perf_loop m (cmd # node # c # rest) cs = r"
    using assms(1,3-6) by (cases rest; cases "tl rest") (auto simp: Let_def)
  moreover have "\<forall>i. i \<noteq> unat (arg_u32 node) \<longrightarrow> fst r ! i = cs ! i"
    using assms(1) by (auto simp: perf_node_def split: if_splits prod.splits)
  ultimately show ?thesis using assms(2) by (simp add: perf_main_def del: perf_loop.simps)
qed

theorem nc_perf_single_command_witness:
  "perf_main g3_map [''-counter-stop'', ''1'', ''0'', ''-counter-clear''] [stale_context, stale_context] =
    (([stale_context, fst (counter_stop g3_map stale_context 0)], []), 0)"
proof -
  have "perf_node g3_map [stale_context, stale_context] ''-counter-stop'' (unat (arg_u32 ''1'')) (arg_u32 ''0'')
      (arg_u32 ''-counter-clear'') 0 = Some ([stale_context, fst (counter_stop g3_map stale_context 0)], [])"
    by (simp add: perf_node_def arg_u32_digits)
  from nc_perf_single_command [OF this, of "[''-counter-clear'']"] show ?thesis
    by (simp add: arg_u32_digits)
qed

end
