(* ===== verification/NumachipInit.thy ===== *)
theory NumachipInit
  imports NumachipDevice
begin

text \<open>
  \<^verbatim>\<open>lib/init.c\<close> and the first half of \<^verbatim>\<open>lib/device.c\<close>: enumeration of the chips of a cluster
  from the firmware's OEMN table, the cached device list, and the opening and closing of a
  device. The outcomes of \<^verbatim>\<open>malloc\<close>, \<^verbatim>\<open>realloc\<close>, \<^verbatim>\<open>open\<close> and \<^verbatim>\<open>mmap\<close> are parameters; a write
  outside an allocated block is the value \<open>None\<close>.
\<close>

section \<open>The growing list of devices\<close>

text \<open>
  \<open>slots\<close> is the block \<^verbatim>\<open>*dev_list\<close> points to, at the size that was really allocated;
  \<open>list_size\<close> is the size the code believes it has.
\<close>

record dev_list =
  slots :: "numachip_device option list"
  ndevices :: nat
  list_size :: nat

definition realloc_slots :: "nat \<Rightarrow> numachip_device option list \<Rightarrow> numachip_device option list" where
  "realloc_slots n xs = take n xs @ replicate (n - length xs) None"

definition put_device :: "numachip_device \<Rightarrow> dev_list \<Rightarrow> dev_list option" where
  "put_device dev d =
     (if ndevices d < length (slots d)
      then Some (d\<lparr>slots := (slots d)[ndevices d := Some dev], ndevices := ndevices d + 1\<rparr>)
      else None)"

definition add_device :: "bool \<Rightarrow> bool \<Rightarrow> u32 \<Rightarrow> dev_list \<Rightarrow> dev_list option" where
  "add_device malloc_ok realloc_ok nid d =
     (if \<not> malloc_ok then Some d
      else let dev = \<lparr>nodeid = nid\<rparr> in
        if list_size d \<le> ndevices d then
          let d' = d\<lparr>list_size := (if list_size d \<noteq> 0 then list_size d * 2 else 1)\<rparr> in
          if \<not> realloc_ok then Some d'
          else put_device dev (d'\<lparr>slots := realloc_slots (list_size d') (slots d')\<rparr>)
        else put_device dev d)"

section \<open>Enumeration\<close>


definition size_x :: "u32 \<Rightarrow> nat" where "size_x g = unat (take_bit 4 (drop_bit 4 g))"
definition size_y :: "u32 \<Rightarrow> nat" where "size_y g = unat (take_bit 4 (drop_bit 8 g))"
definition size_z :: "u32 \<Rightarrow> nat" where "size_z g = unat (take_bit 4 (drop_bit 12 g))"

definition at_least_1 :: "nat \<Rightarrow> nat" where
  "at_least_1 n = (if n = 0 then 1 else n)"

definition sciid_of :: "nat \<Rightarrow> nat \<Rightarrow> nat \<Rightarrow> nat" where
  "sciid_of z y x = 256 * z + 16 * y + x"

definition sciids :: "u32 \<Rightarrow> nat list" where
  "sciids g =
     [sciid_of z y x. z \<leftarrow> [0..<at_least_1 (size_z g)], y \<leftarrow> [0..<at_least_1 (size_y g)],
        x \<leftarrow> [0..<at_least_1 (size_x g)]]"



section \<open>The cached device list\<close>




section \<open>Opening and closing a device\<close>

text \<open>The resources of the process that the two functions use.\<close>

record os_state =
  live_blocks :: nat
  open_fds :: "int list"
  csr_maps :: "u64 list"

text \<open>
  The shift of \<^verbatim>\<open>device->nodeid\<close> is done at 32 bits, the rest at 64.
\<close>

definition csr_base :: "numachip_device \<Rightarrow> u64" where
  "csr_base dev = 0x3fff00000000 OR ucast (push_bit 16 (nodeid dev)) OR push_bit 15 1"

definition CSR_SPACE_SIZE :: nat where "CSR_SPACE_SIZE = 32 * 1024"

definition numachip_open_device ::
    "bool \<Rightarrow> int \<Rightarrow> (u64 \<Rightarrow> (nat \<Rightarrow> u32) option) \<Rightarrow> numachip_device \<Rightarrow> os_state
     \<Rightarrow> os_state \<times> numachip_context option" where
  "numachip_open_device malloc_ok fd mmap dev os =
     (if \<not> malloc_ok then (os, None)
      else
        let os = os\<lparr>live_blocks := live_blocks os + 1\<rparr> in
        if fd < 0 then (os\<lparr>live_blocks := live_blocks os - 1\<rparr>, None)
        else
          let os = os\<lparr>open_fds := fd # open_fds os\<rparr> in
          case mmap (csr_base dev) of
            None \<Rightarrow> (os\<lparr>open_fds := remove1 fd (open_fds os),
                        live_blocks := live_blocks os - 1\<rparr>, None)
          | Some space \<Rightarrow>
              (os\<lparr>csr_maps := csr_base dev # csr_maps os\<rparr>,
               Some \<lparr>device = dev, memfd = fd, csr_space = space\<rparr>))"

definition numachip_close_device :: "numachip_context \<Rightarrow> os_state \<Rightarrow> os_state \<times> int" where
  "numachip_close_device context os =
     (os\<lparr>csr_maps := remove1 (csr_base (device context)) (csr_maps os),
         open_fds := remove1 (memfd context) (open_fds os),
         live_blocks := live_blocks os - 1\<rparr>, 0)"

section \<open>Lemmas\<close>

text \<open>The list is sound: the code's idea of its size is the allocated size.\<close>

definition dev_list_ok :: "dev_list \<Rightarrow> bool" where
  "dev_list_ok d \<longleftrightarrow> length (slots d) = list_size d \<and> ndevices d \<le> list_size d"

lemma length_realloc_slots [simp]: "length (realloc_slots n xs) = n"
  by (simp add: realloc_slots_def)

lemma take_realloc_slots [simp]: "k \<le> length xs \<Longrightarrow> k \<le> n \<Longrightarrow> take k (realloc_slots n xs) = take k xs"
  by (simp add: realloc_slots_def min_def)



lemma size_bounds: "size_x g < 16" "size_y g < 16" "size_z g < 16"
  by (simp_all add: size_x_def size_y_def size_z_def unsigned_take_bit_eq take_bit_nat_less_exp [of 4, simplified])

lemma at_least_1_bounds: "n < 16 \<Longrightarrow> 0 < at_least_1 n \<and> at_least_1 n < 16"
  by (simp add: at_least_1_def)





lemma in_sciids_iff:
  "n \<in> set (sciids g) \<longleftrightarrow> (\<exists>z y x. n = sciid_of z y x \<and>
    z < at_least_1 (size_z g) \<and> y < at_least_1 (size_y g) \<and> x < at_least_1 (size_x g))"
proof -
  have "n \<in> set (sciids g) \<longleftrightarrow> (\<exists>z<at_least_1 (size_z g). \<exists>y<at_least_1 (size_y g).
      \<exists>x<at_least_1 (size_x g). n = sciid_of z y x)"
    by (auto simp: sciids_def image_iff) (blast | force)+
  then show ?thesis by blast
qed

lemma sciids_bound: "n \<in> set (sciids g) \<Longrightarrow> n < 4096"
  using size_bounds [of g, THEN at_least_1_bounds]
  by (auto simp: in_sciids_iff sciid_of_def)


lemma unat_or_disjoint:
  "(a :: u64) AND b = 0 \<Longrightarrow> unat a + unat b < 2 ^ 64 \<Longrightarrow> unat (a OR b) = unat a + unat b"
  using word_plus_and_or [of a b] by (simp add: unat_word_ariths)

lemma high_low_disjoint: "push_bit 32 (c :: u64) AND ucast (w :: u32) = 0"
  by (rule bit_word_eqI) (auto simp: bit_simps dest: bit_imp_le_length)

lemma bit_15_disjoint: "(push_bit 32 (c :: u64) OR ucast (push_bit 16 (w :: u32))) AND push_bit 15 1 = 0"
  (is "?a AND _ = 0")
proof (rule bit_word_eqI)
  have "\<not> bit ?a 15" by (auto simp: bit_simps)
  moreover have "bit (push_bit 15 1 :: u64) n \<longleftrightarrow> n = 15" for n
    unfolding push_bit_of_1 bit_exp_iff by auto
  ultimately show "bit (?a AND push_bit 15 1) n = bit 0 n" for n
    unfolding bit_and_iff by auto
qed

lemma csr_base_unat:
  assumes "unat (nodeid dev) < 2 ^ 16"
  shows "unat (csr_base dev) = 0x3fff00008000 + 65536 * unat (nodeid dev)"
proof -
  let ?c = "push_bit 32 0x3fff :: u64" and ?w = "ucast (push_bit 16 (nodeid dev)) :: u64"
  have w: "unat ?w = 65536 * unat (nodeid dev)"
    using assms by (simp add: push_bit_eq_mult unsigned_ucast_eq unat_word_ariths take_bit_nat_eq_self)
  have c: "unat ?c = 0x3fff00000000" by simp
  have b: "0x3fff00000000 + 65536 * unat (nodeid dev) < 2 ^ 64"
      "0x3fff00000000 + 65536 * unat (nodeid dev) + 32768 < 2 ^ 64"
    using assms by simp_all
  have d: "unat (push_bit 15 1 :: u64) = 32768" by simp
  have cw: "unat (?c OR ?w) = 0x3fff00000000 + 65536 * unat (nodeid dev)"
    using unat_or_disjoint [OF high_low_disjoint [of "0x3fff" "push_bit 16 (nodeid dev)"]] b(1)
    unfolding w c by blast
  have "csr_base dev = (?c OR ?w) OR push_bit 15 1" by (simp add: csr_base_def or.assoc)
  then show ?thesis
    using unat_or_disjoint [OF bit_15_disjoint [of "0x3fff" "nodeid dev"]] b(2)
    unfolding cw d by simp
qed






section \<open>Properties\<close>



text \<open>
  A failing \<^verbatim>\<open>realloc\<close> in \<^verbatim>\<open>add_device\<close> corrupts the list: the call returns quietly with
  \<open>list_size\<close> already doubled, so the next device is written one element past the block that
  is really allocated.
\<close>

theorem realloc_failure_overruns:
  assumes "dev_list_ok d" "ndevices d = list_size d" "0 < list_size d"
  shows "\<exists>d'. add_device True False n d = Some d' \<and> slots d' = slots d \<and>
    ndevices d' = length (slots d') \<and> ndevices d' < list_size d' \<and>
    add_device True ok n' d' = None"
  using assms by (auto simp: add_device_def put_device_def dev_list_ok_def Let_def)

theorem realloc_failure_overruns_witness:
  "\<exists>d'. add_device True False 1 \<lparr>slots = [Some \<lparr>nodeid = 0\<rparr>], ndevices = 1, list_size = 1\<rparr> = Some d' \<and>
    add_device True True 16 d' = None"
  using realloc_failure_overruns
    [of "\<lparr>slots = [Some \<lparr>nodeid = 0\<rparr>], ndevices = 1, list_size = 1\<rparr>" 1 True 16]
  by (auto simp: dev_list_ok_def)

text \<open>
  Opening a device maps a 32 KB window that no other device of the fabric overlaps, all
  windows lying below the end of the physical address space; an open that fails gives back
  everything it acquired, and closing an opened device restores the process's resources.
\<close>

theorem open_close_device:
  assumes "numachip_open_device mok fd mmap \<lparr>nodeid = of_nat n\<rparr> os = (os', r)"
    and "n \<in> set (sciids g)"
  shows "(case r of
      None \<Rightarrow> os' = os
    | Some c \<Rightarrow> numachip_close_device c os' = (os, 0) \<and> csr_maps os' = csr_base (device c) # csr_maps os \<and>
        unat (csr_base (device c)) + CSR_SPACE_SIZE \<le> 2 ^ 48 \<and>
        (\<forall>k\<in>set (sciids g). k \<noteq> n \<longrightarrow>
           unat (csr_base (device c)) + CSR_SPACE_SIZE \<le> unat (csr_base \<lparr>nodeid = of_nat k\<rparr>) \<or>
           unat (csr_base \<lparr>nodeid = of_nat k\<rparr>) + CSR_SPACE_SIZE \<le> unat (csr_base (device c))))"
proof -
  have id: "unat (of_nat k :: u32) = k" if "k \<in> set (sciids g)" for k
    using sciids_bound [OF that] by (simp add: unsigned_of_nat take_bit_nat_eq_self)
  have base: "unat (csr_base \<lparr>nodeid = of_nat k\<rparr>) = 0x3fff00008000 + 65536 * k"
    if "k \<in> set (sciids g)" for k
    using sciids_bound [OF that] csr_base_unat [of "\<lparr>nodeid = of_nat k\<rparr>"] by (simp add: id [OF that])
  have apart: "0x3fff00008000 + 65536 * n + CSR_SPACE_SIZE \<le> 2 ^ 48 \<and>
      (k \<noteq> n \<longrightarrow> 0x3fff00008000 + 65536 * n + CSR_SPACE_SIZE \<le> 0x3fff00008000 + 65536 * k \<or>
        0x3fff00008000 + 65536 * k + CSR_SPACE_SIZE \<le> 0x3fff00008000 + 65536 * n)" for k
    using sciids_bound [OF assms(2)] by (simp add: CSR_SPACE_SIZE_def) linarith
  show ?thesis
  proof (cases r)
    case None
    with assms(1) show ?thesis
      by (auto simp: numachip_open_device_def Let_def split: if_splits option.splits)
  next
    case (Some c)
    with assms(1) have c: "device c = \<lparr>nodeid = of_nat n\<rparr>" "numachip_close_device c os' = (os, 0)"
        "csr_maps os' = csr_base (device c) # csr_maps os"
      by (auto simp: numachip_open_device_def numachip_close_device_def Let_def
          split: if_splits option.splits)
    show ?thesis
      using c(2,3) apart by (simp add: Some c(1) base [OF assms(2)] base)
  qed
qed

theorem open_close_device_witness:
  "numachip_open_device True 5 (\<lambda>_. Some (\<lambda>_. 0)) \<lparr>nodeid = of_nat 17\<rparr>
      \<lparr>live_blocks = 2, open_fds = [1], csr_maps = []\<rparr> =
    (\<lparr>live_blocks = 3, open_fds = [5, 1], csr_maps = [csr_base \<lparr>nodeid = 17\<rparr>]\<rparr>,
     Some \<lparr>device = \<lparr>nodeid = 17\<rparr>, memfd = 5, csr_space = (\<lambda>_. 0)\<rparr>) \<and>
   numachip_close_device \<lparr>device = \<lparr>nodeid = 17\<rparr>, memfd = 5, csr_space = (\<lambda>_. 0)\<rparr>
      \<lparr>live_blocks = 3, open_fds = [5, 1], csr_maps = [csr_base \<lparr>nodeid = 17\<rparr>]\<rparr> =
    (\<lparr>live_blocks = 2, open_fds = [1], csr_maps = []\<rparr>, 0)"
proof -
  have o: "numachip_open_device True 5 (\<lambda>_. Some (\<lambda>_. 0)) \<lparr>nodeid = of_nat 17\<rparr>
      \<lparr>live_blocks = 2, open_fds = [1], csr_maps = []\<rparr> =
    (\<lparr>live_blocks = 3, open_fds = [5, 1], csr_maps = [csr_base \<lparr>nodeid = 17\<rparr>]\<rparr>,
     Some \<lparr>device = \<lparr>nodeid = 17\<rparr>, memfd = 5, csr_space = (\<lambda>_. 0)\<rparr>)"
    by (simp add: numachip_open_device_def)
  have "17 \<in> set (sciids 0x0223)"
    by (simp add: sciids_def size_x_def size_y_def size_z_def at_least_1_def sciid_of_def upt_rec)
  from open_close_device [OF o this] o show ?thesis by simp
qed

end
