(* ===== verification/BteContext.thy ===== *)
theory BteContext
  imports BteTransfer "HOL-Library.Multiset"
begin

text \<open>
  The resources of \<^verbatim>\<open>lib/libncbte.c\<close>: contexts, pinned regions and completions. The results of
  the system (allocation, mapping, the driver's \<^verbatim>\<open>ioctl\<close>, the PCI scan, the processor the caller
  runs on) are parameters; the resources a process holds are a multiset, so that a leak or a
  double release is visible. The ticket lock around the table of completion pages is modelled
  apart; here the calls run one after the other.
\<close>

section \<open>State\<close>

datatype resource =
    ContextStruct | RegionStruct | CompletionStruct | Bitmask | PhysTable | CompRegions | CompQueues
  | DevFd int
  | IoMapping u64
  | Mapping u64 u64
  | Pinned u64 u64

type_synonym resources = "resource multiset"

record ncbte_context =
  bte_io :: u64
  comp_regions :: "ncbte_region option list"
  comp_queues :: "u64 list"
  devfd :: int
  num_chips :: int
  numa_per_chip :: int

text \<open>What the system answers to the calls of \<^verbatim>\<open>ncbte_alloc_region\<close>.\<close>

record region_env =
  region_malloc :: bool
  nodemask_ok :: bool
  cpuid :: nat
  mmap_addr :: u64
  page_status :: "int list option"
  phys_malloc :: bool
  pin_result :: "u64 list option"

text \<open>
  The processor id shifted by 12, divided as a 32-bit unsigned number; \<open>None\<close> is the division by 0.
\<close>

definition get_current_chip :: "region_env \<Rightarrow> ncbte_context \<Rightarrow> int option" where
  "get_current_chip env ctx =
     (let per_chip = nat (numa_per_chip ctx mod 2 ^ 32)
      in if per_chip = 0 then None else Some (int (cpuid env div 4096 div per_chip)))"

text \<open>\<open>None\<close> is an error of \<^verbatim>\<open>move_pages\<close>; otherwise there is one status per page.\<close>

fun statuses_ok :: "nat set \<Rightarrow> int list \<Rightarrow> bool" where
  "statuses_ok m [] = True"
| "statuses_ok m (s # ss) = (if s < 0 then False else if nat s \<notin> m then False else statuses_ok m ss)"

definition check_numa_mask :: "region_env \<Rightarrow> nat set \<Rightarrow> int" where
  "check_numa_mask env m =
     (case page_status env of None \<Rightarrow> -1 | Some ss \<Rightarrow> if statuses_ok m ss then 0 else -1)"

definition chip_mask :: "ncbte_context \<Rightarrow> int \<Rightarrow> nat set" where
  "chip_mask ctx chip = set (map nat [chip * numa_per_chip ctx .. chip * numa_per_chip ctx + numa_per_chip ctx - 1])"

definition set_current_chip_mask :: "region_env \<Rightarrow> ncbte_context \<Rightarrow> nat set \<Rightarrow> (int \<times> nat set) option" where
  "set_current_chip_mask env ctx m =
     (case get_current_chip env ctx of
        None \<Rightarrow> None
      | Some chip \<Rightarrow> Some (if chip < 0 then (-1, m) else (0, m \<union> chip_mask ctx chip)))"

section \<open>Regions\<close>

definition round_up :: "u64 \<Rightarrow> u64 \<Rightarrow> u64" where
  "round_up len alignment = ((len + alignment - 1) div alignment) * alignment"

definition pages_of :: "u64 \<Rightarrow> nat" where
  "pages_of len = unat (ucast ((len + 4096 - 1) div 4096) :: u32)"

text \<open>The clean-up at the label \<^verbatim>\<open>err\<close> and in \<^verbatim>\<open>ncbte_free_region\<close>.\<close>

definition release_region :: "bool \<Rightarrow> bool \<Rightarrow> ncbte_region \<Rightarrow> resources \<Rightarrow> resources" where
  "release_region has_phys has_bmp r res =
     (let res = (if has_phys then res - {#PhysTable#} else res);
          res = (if allocated r \<and> addr (mem r) \<noteq> 0
                 then res - {#Mapping (addr (mem r)) (size (mem r))#} else res);
          res = (if has_bmp then res - {#Bitmask#} else res)
      in res - {#RegionStruct#})"

definition empty_region :: ncbte_region where
  "empty_region = \<lparr>mem = \<lparr>addr = 0, size = 0, phys_addr = []\<rparr>, bmp = {}, allocated = False\<rparr>"

text \<open>The part after the choice of the buffer: size table and pinning.\<close>

definition pin_region :: "region_env \<Rightarrow> ncbte_region \<Rightarrow> resources \<Rightarrow> resources \<times> (u64 \<times> ncbte_region) option" where
  "pin_region env r res =
     (if \<not> phys_malloc env then (release_region False True r res, None)
      else
        let res = add_mset PhysTable res
        in case pin_result env of
             None \<Rightarrow> (release_region True True r res, None)
           | Some phys \<Rightarrow>
               (add_mset (Pinned (addr (mem r)) (size (mem r))) res,
                Some (addr (mem r), r\<lparr>mem := (mem r)\<lparr>phys_addr := take (pages_of (size (mem r))) phys\<rparr>\<rparr>)))"

text \<open>\<open>None\<close> is the division by 0 in \<^verbatim>\<open>get_current_chip\<close>.\<close>

definition ncbte_alloc_region ::
    "region_env \<Rightarrow> ncbte_context option \<Rightarrow> u64 \<Rightarrow> u64 \<Rightarrow> bool \<Rightarrow> bool \<Rightarrow> resources
     \<Rightarrow> (resources \<times> (u64 \<times> ncbte_region) option) option" where
  "ncbte_alloc_region env context ptr len hugepage has_regionp res =
     (case context of
        None \<Rightarrow> Some (res, None)
      | Some ctx \<Rightarrow>
          if \<not> has_regionp then Some (res, None)
          else if \<not> region_malloc env then Some (res, None)
          else
            let res = add_mset RegionStruct res; region = empty_region
            in if \<not> nodemask_ok env then Some (release_region False False region res, None)
            else
              let res = add_mset Bitmask res
              in case set_current_chip_mask env ctx {} of
                   None \<Rightarrow> None
                 | Some (e, m) \<Rightarrow> Some (
              let region = region\<lparr>bmp := m\<rparr>
              in if e < 0 then (release_region False True region res, None)
              else if ptr = 0 then
                let len = round_up len (if hugepage then 2 * 1024 * 1024 else 4096);
                    vaddr = mmap_addr env
                in if vaddr = 0 then (release_region False True region res, None)
                   else pin_region env
                     (region\<lparr>allocated := True, mem := \<lparr>addr = vaddr, size = len, phys_addr = []\<rparr>\<rparr>)
                     (add_mset (Mapping vaddr len) res)
              else if ptr AND 4095 \<noteq> 0 then (release_region False True region res, None)
              else if check_numa_mask env m < 0 then (release_region False True region res, None)
              else pin_region env (region\<lparr>mem := \<lparr>addr = ptr, size = len, phys_addr = []\<rparr>\<rparr>) res))"

definition ncbte_free_region ::
    "bool \<Rightarrow> ncbte_context option \<Rightarrow> ncbte_region option \<Rightarrow> resources \<Rightarrow> resources \<times> int" where
  "ncbte_free_region unpin_ok context region res =
     (case (context, region) of
        (Some ctx, Some r) \<Rightarrow>
          if \<not> unpin_ok then (res, -1)
          else (release_region True True r (res - {#Pinned (addr (mem r)) (size (mem r))#}), 0)
      | _ \<Rightarrow> (res, -1))"

section \<open>Completions\<close>

text \<open>
  The loop of \<^verbatim>\<open>_get_available_queue\<close> with \<open>n\<close> bits to go: the word of the queues after the
  attempts, and the bit taken or -1.
\<close>

fun take_queue :: "nat \<Rightarrow> nat \<Rightarrow> u64 \<Rightarrow> u64 \<times> int" where
  "take_queue 0 i w = (w, -1)"
| "take_queue (Suc n) i w = (if \<not> bit w i then (set_bit i w, int i) else take_queue n (Suc i) (set_bit i w))"

definition get_available_queue :: "ncbte_context \<Rightarrow> nat \<Rightarrow> ncbte_context \<times> int" where
  "get_available_queue ctx chip =
     (case take_queue 64 0 (comp_queues ctx ! chip) of
        (w, q) \<Rightarrow> (ctx\<lparr>comp_queues := (comp_queues ctx)[chip := w]\<rparr>, q))"

text \<open>
  \<open>None\<close> is the use of a table beyond the number of chips, or the division by 0. The inner result is NULL or the
  completion.
\<close>

definition ncbte_alloc_completion ::
    "bool \<Rightarrow> region_env \<Rightarrow> ncbte_context option \<Rightarrow> resources
     \<Rightarrow> (ncbte_context option \<times> resources \<times> ncbte_completion option) option" where
  "ncbte_alloc_completion malloc_ok env context res =
     (case context of
        None \<Rightarrow> Some (None, res, None)
      | Some ctx \<Rightarrow>
          if \<not> malloc_ok then Some (context, res, None)
          else
            let res = add_mset CompletionStruct res
            in case get_current_chip env ctx of
              None \<Rightarrow> None
            | Some chip \<Rightarrow>
            if chip < 0 then Some (context, res - {#CompletionStruct#}, None)
            else if length (comp_queues ctx) \<le> nat chip \<or> length (comp_regions ctx) \<le> nat chip then None
            else case get_available_queue ctx (nat chip) of (ctx, q) \<Rightarrow>
              if q < 0 then Some (Some ctx, res - {#CompletionStruct#}, None)
              else
                let finish = (\<lambda>ctx r. Some \<lparr>fence_paddr = phys_addr (mem r) ! 0 + of_int q * 64,
                       fence_addr = addr (mem r) + of_int q * 64, queue_num = q, chip_no = chip\<rparr>)
                in case comp_regions ctx ! nat chip of
                     Some r \<Rightarrow> Some (Some ctx, res, finish ctx r)
                   | None \<Rightarrow>
                       (case ncbte_alloc_region env (Some ctx) 0 4096 False True res of
                          None \<Rightarrow> None
                        | Some (res, None) \<Rightarrow> Some (Some ctx, res - {#CompletionStruct#}, None)
                        | Some (res, Some (_, r)) \<Rightarrow>
                            let ctx = ctx\<lparr>comp_regions := (comp_regions ctx)[nat chip := Some r]\<rparr>
                            in Some (Some ctx, res, finish ctx r)))"

definition ncbte_free_completion ::
    "ncbte_context option \<Rightarrow> ncbte_completion option \<Rightarrow> resources \<Rightarrow> ncbte_context option \<times> resources \<times> int" where
  "ncbte_free_completion context completion res =
     (case (context, completion) of
        (Some ctx, Some c) \<Rightarrow>
          (Some (ctx\<lparr>comp_queues := (comp_queues ctx)
             [nat (chip_no c) := unset_bit (nat (queue_num c)) (comp_queues ctx ! nat (chip_no c))]\<rparr>),
           res - {#CompletionStruct#}, 0)
      | _ \<Rightarrow> (context, res, -1))"

text \<open>\<open>fence\<close> is the word the hardware clears when the transfers are done; \<open>None\<close> is the division by 0.\<close>

definition ncbte_check_completion ::
    "region_env \<Rightarrow> u32 \<Rightarrow> ncbte_context option \<Rightarrow> ncbte_completion option \<Rightarrow> int option" where
  "ncbte_check_completion env fence context completion =
     (case (context, completion) of
        (Some ctx, Some c) \<Rightarrow>
          map_option (\<lambda>chip. if chip_no c \<noteq> chip then -1 else (if fence = 0 then 1 else 0)) (get_current_chip env ctx)
      | _ \<Rightarrow> Some (-1))"

text \<open>
  The wait loop over the values \<open>fences\<close> that the word takes; the result is how many of them
  it saw, \<open>None\<close> while it is still waiting.
\<close>

fun wait_fence :: "u32 list \<Rightarrow> nat option" where
  "wait_fence [] = None"
| "wait_fence (f # fs) = (if f \<noteq> 0 then map_option Suc (wait_fence fs) else Some 0)"

text \<open>The outer \<open>None\<close> is the division by 0.\<close>

definition ncbte_wait_completion ::
    "region_env \<Rightarrow> u32 list \<Rightarrow> ncbte_context option \<Rightarrow> ncbte_completion option \<Rightarrow> nat option option" where
  "ncbte_wait_completion env fences context completion =
     (case (context, completion) of
        (Some ctx, Some c) \<Rightarrow>
          map_option (\<lambda>chip. if chip_no c \<noteq> chip then Some 0 else wait_fence fences) (get_current_chip env ctx)
      | _ \<Rightarrow> Some (Some 0))"

section \<open>Opening and closing\<close>

text \<open>The PCI devices as pairs of vendor and device id; \<open>None\<close> when \<^verbatim>\<open>pci_alloc\<close> fails.\<close>

definition get_numachips :: "(nat \<times> nat) list option \<Rightarrow> int" where
  "get_numachips pci =
     (case pci of None \<Rightarrow> -1 | Some ds \<Rightarrow> int (length (filter (\<lambda>d. d = (0x1B47, 0x0700)) ds)))"

record open_env =
  ctx_malloc :: bool
  open_fd :: int
  numa_nodes :: int
  pci_devices :: "(nat \<times> nat) list option"
  regions_malloc :: bool
  queues_malloc :: bool
  io_mmap :: "u64 option"

definition open_err :: "bool \<Rightarrow> bool \<Rightarrow> int \<Rightarrow> resources \<Rightarrow> resources" where
  "open_err has_queues has_regions fd res =
     (let res = (if has_queues then res - {#CompQueues#} else res);
          res = (if has_regions then res - {#CompRegions#} else res);
          res = (if fd \<ge> 0 then res - {#DevFd fd#} else res)
      in res - {#ContextStruct#})"

text \<open>
  \<^verbatim>\<open>ncbte_open\<close>; the outer \<open>None\<close> is the division by a number of chips that is 0. The division
  of C truncates.
\<close>

definition quot :: "int \<Rightarrow> int \<Rightarrow> int" where
  "quot a b = sgn a * sgn b * (\<bar>a\<bar> div \<bar>b\<bar>)"

definition rem :: "int \<Rightarrow> int \<Rightarrow> int" where
  "rem a b = a - b * quot a b"

definition ncbte_open :: "open_env \<Rightarrow> resources \<Rightarrow> (resources \<times> ncbte_context option) option" where
  "ncbte_open env res =
     (if \<not> ctx_malloc env then Some (res, None)
      else
        let res = add_mset ContextStruct res; fd = open_fd env
        in if fd < 0 then Some (open_err False False fd res, None)
        else
          let res = add_mset (DevFd fd) res; chips = get_numachips (pci_devices env)
          in if chips = 0 then None
          else if rem (numa_nodes env) chips \<noteq> 0 then Some (open_err False False fd res, None)
          else if \<not> regions_malloc env then Some (open_err False False fd res, None)
          else
            let res = add_mset CompRegions res
            in if \<not> queues_malloc env then Some (open_err False True fd res, None)
            else
              let res = add_mset CompQueues res
              in case io_mmap env of
                   None \<Rightarrow> Some (open_err True True fd res, None)
                 | Some io \<Rightarrow>
                     Some (add_mset (IoMapping io) res,
                       Some \<lparr>bte_io = io, comp_regions = replicate (nat chips) None,
                             comp_queues = replicate (nat chips) 0, devfd = fd, num_chips = chips,
                             numa_per_chip = quot (numa_nodes env) chips\<rparr>))"

fun free_comp_regions ::
    "bool list \<Rightarrow> ncbte_context \<Rightarrow> ncbte_region option list \<Rightarrow> resources \<Rightarrow> resources \<times> bool" where
  "free_comp_regions (ok # oks) ctx (Some r # rs) res =
     (case ncbte_free_region ok (Some ctx) (Some r) res of
        (res, e) \<Rightarrow> if e < 0 then (res, False) else free_comp_regions oks ctx rs res)"
| "free_comp_regions (ok # oks) ctx (None # rs) res = free_comp_regions oks ctx rs res"
| "free_comp_regions oks ctx rs res = (res, True)"

definition ncbte_close :: "bool list \<Rightarrow> ncbte_context \<Rightarrow> resources \<Rightarrow> resources \<times> int" where
  "ncbte_close unpin_ok ctx res =
     (case free_comp_regions unpin_ok ctx (comp_regions ctx) res of
        (res, ok) \<Rightarrow>
          if \<not> ok then (res, -1)
          else (res - {#CompRegions#} - {#CompQueues#} - {#IoMapping (bte_io ctx)#} -
                {#DevFd (devfd ctx)#} - {#ContextStruct#}, 0))"

section \<open>Lemmas\<close>

lemma get_current_chip_nonneg: "get_current_chip env ctx = Some chip \<Longrightarrow> 0 \<le> chip"
  by (auto simp: get_current_chip_def Let_def split: if_splits)

lemma pin_region_result:
  "pin_region env r res = (res', x) \<Longrightarrow>
    (case x of
       None \<Rightarrow> \<exists>p b. res' = release_region p True r (if p then add_mset PhysTable res else res)
     | Some (v, r') \<Rightarrow> v = addr (mem r) \<and> addr (mem r') = addr (mem r) \<and> size (mem r') = size (mem r) \<and>
         allocated r' = allocated r \<and> bmp r' = bmp r \<and>
         res' = add_mset (Pinned (addr (mem r)) (size (mem r))) (add_mset PhysTable res))"
  by (auto simp: pin_region_def Let_def split: if_splits option.splits)

lemma take_queue_spec:
  "take_queue n i w = (w', q) \<Longrightarrow> i + n \<le> 64 \<Longrightarrow>
    (if \<forall>j. i \<le> j \<and> j < i + n \<longrightarrow> bit w j then w' = w \<and> q = -1
     else \<exists>k. q = int k \<and> i \<le> k \<and> k < i + n \<and> \<not> bit w k \<and> (\<forall>j. i \<le> j \<and> j < k \<longrightarrow> bit w j) \<and> w' = set_bit k w)"
proof (induction n arbitrary: i w)
  case (Suc n)
  show ?case
  proof (cases "bit w i")
    case False
    with Suc.prems have "w' = set_bit i w" "q = int i" by auto
    with False Suc.prems(2) show ?thesis by (auto intro: exI [of _ i])
  next
    case True
    have s: "set_bit i w = w" using True by (intro bit_word_eqI) (auto simp: bit_simps)
    with True Suc.prems have r: "take_queue n (Suc i) w = (w', q)" by simp
    have b: "Suc i + n \<le> 64" using Suc.prems(2) by simp
    have e: "(\<forall>j. i \<le> j \<and> j < i + Suc n \<longrightarrow> bit w j) \<longleftrightarrow> (\<forall>j. Suc i \<le> j \<and> j < Suc i + n \<longrightarrow> bit w j)"
      using True by (metis Suc_leD Suc_le_eq add_Suc_right add_Suc le_neq_implies_less)
    have k: "(\<forall>j. i \<le> j \<and> j < k \<longrightarrow> bit w j) \<longleftrightarrow> (\<forall>j. Suc i \<le> j \<and> j < k \<longrightarrow> bit w j)" for k
      using True by (metis Suc_leD Suc_le_eq le_neq_implies_less)
    show ?thesis
      using Suc.IH [OF r b] unfolding e k by (auto intro: Suc_leD split: if_splits)
  qed
qed simp

lemma get_available_queue_spec:
  assumes "get_available_queue ctx chip = (ctx', q)"
  shows "if \<forall>j<64. bit (comp_queues ctx ! chip) j
    then q = -1 \<and> comp_queues ctx' = (comp_queues ctx)[chip := comp_queues ctx ! chip]
    else \<exists>k<64. q = int k \<and> \<not> bit (comp_queues ctx ! chip) k \<and> (\<forall>j<k. bit (comp_queues ctx ! chip) j) \<and>
      comp_queues ctx' = (comp_queues ctx)[chip := set_bit k (comp_queues ctx ! chip)]"
    and "comp_regions ctx' = comp_regions ctx" "numa_per_chip ctx' = numa_per_chip ctx"
proof -
  obtain w where w: "take_queue 64 0 (comp_queues ctx ! chip) = (w, q)"
    using assms by (auto simp: get_available_queue_def split: prod.splits)
  with assms have c: "ctx' = ctx\<lparr>comp_queues := (comp_queues ctx)[chip := w]\<rparr>"
    by (simp add: get_available_queue_def)
  show "if \<forall>j<64. bit (comp_queues ctx ! chip) j
    then q = -1 \<and> comp_queues ctx' = (comp_queues ctx)[chip := comp_queues ctx ! chip]
    else \<exists>k<64. q = int k \<and> \<not> bit (comp_queues ctx ! chip) k \<and> (\<forall>j<k. bit (comp_queues ctx ! chip) j) \<and>
      comp_queues ctx' = (comp_queues ctx)[chip := set_bit k (comp_queues ctx ! chip)]"
    using take_queue_spec [OF w] by (auto simp: c split: if_splits)
  show "comp_regions ctx' = comp_regions ctx" "numa_per_chip ctx' = numa_per_chip ctx" by (simp_all add: c)
qed

section \<open>Properties\<close>

text \<open>
  C15: \<^verbatim>\<open>ncbte_alloc_region\<close> leaks nothing: whichever of its steps fails, the process holds
  exactly the resources it held before; and freeing an allocated region gives back exactly
  what the allocation took, the mapping included only when the library made it. Only a context
  without nodes on a chip makes it divide by zero.
\<close>

theorem region_alloc_free:
  "case ncbte_alloc_region env (Some ctx) ptr len hugepage True res of
      None \<Rightarrow> numa_per_chip ctx mod 2 ^ 32 = 0
    | Some (res', None) \<Rightarrow> res' = res
    | Some (res', Some (v, reg)) \<Rightarrow>
        v \<noteq> 0 \<and> addr (mem reg) = v \<and> (allocated reg \<longleftrightarrow> ptr = 0) \<and> (ptr \<noteq> 0 \<longrightarrow> v = ptr) \<and>
        ncbte_free_region True (Some ctx) (Some reg) res' = (res, 0)"
proof -
  note defs = ncbte_alloc_region_def set_current_chip_mask_def release_region_def empty_region_def
    ncbte_free_region_def pin_region_def Let_def
  have "numa_per_chip ctx mod 2 ^ 32 = 0" if "get_current_chip env ctx = None"
    using that by (auto simp: get_current_chip_def Let_def split: if_splits)
  then show ?thesis
    using get_current_chip_nonneg [of env ctx] by (auto simp: defs split: option.split)
qed

definition demo_region_env :: region_env where
  "demo_region_env = \<lparr>region_malloc = True, nodemask_ok = True, cpuid = 0x3005, mmap_addr = 0x7f0000000000,
     page_status = Some [0], phys_malloc = True, pin_result = Some [0x100000]\<rparr>"

definition demo_ncbte_context :: ncbte_context where
  "demo_ncbte_context = \<lparr>bte_io = 0x10000, comp_regions = [None, None], comp_queues = [0, 7], devfd = 3,
     num_chips = 2, numa_per_chip = 2\<rparr>"

theorem region_alloc_free_witness:
  "\<exists>reg. ncbte_alloc_region demo_region_env (Some demo_ncbte_context) 0 100 False True {#DevFd 3#} =
      Some ({#Pinned 0x7f0000000000 4096, PhysTable, Mapping 0x7f0000000000 4096, Bitmask, RegionStruct, DevFd 3#},
       Some (0x7f0000000000, reg)) \<and>
    ncbte_free_region True (Some demo_ncbte_context) (Some reg)
      {#Pinned 0x7f0000000000 4096, PhysTable, Mapping 0x7f0000000000 4096, Bitmask, RegionStruct, DevFd 3#} =
      ({#DevFd 3#}, 0)"
proof -
  obtain reg where r: "ncbte_alloc_region demo_region_env (Some demo_ncbte_context) 0 100 False True {#DevFd 3#} =
      Some ({#Pinned 0x7f0000000000 4096, PhysTable, Mapping 0x7f0000000000 4096, Bitmask, RegionStruct, DevFd 3#},
       Some (0x7f0000000000, reg))"
    by (simp add: ncbte_alloc_region_def set_current_chip_mask_def demo_region_env_def empty_region_def
        pin_region_def round_up_def Let_def get_current_chip_def demo_ncbte_context_def)
  from region_alloc_free [where env = demo_region_env and ctx = demo_ncbte_context and ptr = 0 and len = 100 and hugepage = False and res = "{#DevFd 3#}"] r
  show ?thesis by auto
qed

text \<open>
  C34: When a completion page exists, \<^verbatim>\<open>ncbte_alloc_completion\<close> takes the lowest free one of the
  chip's 64 queues, marks only it as taken, and gives the completion its own cache line of
  the page; \<^verbatim>\<open>ncbte_free_completion\<close> makes exactly that queue free again and returns all
  resources. NULL is returned, with nothing taken, exactly when all 64 queues are in use.
\<close>

theorem completion_alloc_free:
  assumes "get_current_chip env ctx = Some (int chip)" "chip < length (comp_queues ctx)"
    and "length (comp_regions ctx) = length (comp_queues ctx)" "comp_regions ctx ! chip = Some r"
  shows "\<exists>ctx' res' c. ncbte_alloc_completion True env (Some ctx) res = Some (Some ctx', res', c) \<and>
    (case c of
       None \<Rightarrow> (\<forall>j<64. bit (comp_queues ctx ! chip) j) \<and> res' = res \<and> comp_queues ctx' = comp_queues ctx
     | Some c \<Rightarrow> \<exists>k<64. queue_num c = int k \<and> \<not> bit (comp_queues ctx ! chip) k \<and>
         (\<forall>j<k. bit (comp_queues ctx ! chip) j) \<and>
         comp_queues ctx' = (comp_queues ctx)[chip := set_bit k (comp_queues ctx ! chip)] \<and>
         fence_addr c = addr (mem r) + of_nat (64 * k) \<and> 64 * k + 64 \<le> 4096 \<and>
         fence_paddr c = phys_addr (mem r) ! 0 + of_nat (64 * k) \<and>
         (\<exists>ctx''. ncbte_free_completion (Some ctx') (Some c) res' = (Some ctx'', res, 0) \<and>
            comp_queues ctx'' = comp_queues ctx))"
proof -
  obtain ctx' q where q: "get_available_queue ctx chip = (ctx', q)" by (cases "get_available_queue ctx chip")
  note sp = get_available_queue_spec [OF q]
  show ?thesis
  proof (cases "\<forall>j<64. bit (comp_queues ctx ! chip) j")
    case True
    with sp(1) have "q = -1" "comp_queues ctx' = comp_queues ctx" by auto
    then show ?thesis
      using True assms q by (auto simp: ncbte_alloc_completion_def Let_def)
  next
    case False
    with sp(1) obtain k where k: "k < 64" "q = int k" "\<not> bit (comp_queues ctx ! chip) k"
      "\<forall>j<k. bit (comp_queues ctx ! chip) j"
      "comp_queues ctx' = (comp_queues ctx)[chip := set_bit k (comp_queues ctx ! chip)]" by auto
    let ?c = "\<lparr>fence_paddr = phys_addr (mem r) ! 0 + of_int q * 64, fence_addr = addr (mem r) + of_int q * 64,
      queue_num = q, chip_no = int chip\<rparr>"
    have a: "ncbte_alloc_completion True env (Some ctx) res = Some (Some ctx', add_mset CompletionStruct res, Some ?c)"
      using assms q k(2) sp(2) by (simp add: ncbte_alloc_completion_def Let_def)
    have "unset_bit k (set_bit k (comp_queues ctx ! chip)) = comp_queues ctx ! chip"
      using k(3) by (intro bit_word_eqI) (auto simp: bit_simps)
    then have f: "ncbte_free_completion (Some ctx') (Some ?c) (add_mset CompletionStruct res) =
        (Some (ctx'\<lparr>comp_queues := comp_queues ctx\<rparr>), res, 0)"
      using assms(1,2) k(2,5) by (simp add: ncbte_free_completion_def)
    show ?thesis
      unfolding a using k f
      by (intro exI [of _ ctx'] exI [of _ "add_mset CompletionStruct res"] exI [of _ "Some ?c"] conjI)
        (auto intro!: exI [of _ k] simp: mult.commute)
  qed
qed

theorem completion_alloc_free_witness:
  "\<exists>ctx' res' c. ncbte_alloc_completion True demo_region_env
     (Some (demo_ncbte_context\<lparr>comp_regions := [None, Some demo_local]\<rparr>)) {#} = Some (Some ctx', res', Some c) \<and>
     queue_num c = 3"
proof -
  let ?ctx = "demo_ncbte_context\<lparr>comp_regions := [None, Some demo_local]\<rparr>"
  have "get_current_chip demo_region_env ?ctx = Some (int 1)"
    by (simp add: get_current_chip_def demo_region_env_def demo_ncbte_context_def)
  from completion_alloc_free [OF this, of demo_local "{#}"] obtain ctx' res' c where
    a: "ncbte_alloc_completion True demo_region_env (Some ?ctx) {#} = Some (Some ctx', res', c)"
    "case c of
       None \<Rightarrow> (\<forall>j<64. bit (7 :: u64) j) \<and> res' = {#} \<and> comp_queues ctx' = comp_queues ?ctx
     | Some c \<Rightarrow> \<exists>k<64. queue_num c = int k \<and> \<not> bit (7 :: u64) k \<and> (\<forall>j<k. bit (7 :: u64) j)"
    by (force simp: demo_ncbte_context_def split: option.splits)
  have b: "bit (7 :: u64) j \<longleftrightarrow> j < 3" if "j < 64" for j
  proof -
    have "(7 :: u64) = mask 3" by (simp add: mask_eq_exp_minus_1)
    then show ?thesis using that by (simp only: bit_mask_iff) auto
  qed
  show ?thesis
  proof (cases c)
    case None
    with a(2) have "\<forall>j<64. bit (7 :: u64) j" by auto
    then have "bit (7 :: u64) 5" by (rule allE [of _ 5]) simp
    with b [of 5] show ?thesis by simp
  next
    case (Some d)
    with a(2) obtain k where k: "k < 64" "queue_num d = int k" "\<not> bit (7 :: u64) k" "\<forall>j<k. bit (7 :: u64) j"
      by auto
    have "\<not> k < 3" using b [OF k(1)] k(3) by simp
    moreover have "\<not> 3 < k" using k(4) b [of 3] by auto
    ultimately have "queue_num d = 3" using k(2) by simp
    with a(1) Some show ?thesis by blast
  qed
qed

text \<open>
  The error path of \<^verbatim>\<open>ncbte_alloc_completion\<close> loses a queue: when the page for the
  completions cannot be allocated the call returns NULL and gives back its memory, but the
  bit of the queue it had taken stays set, and no later call can clear it.
\<close>

theorem failed_completion_loses_queue:
  assumes "get_current_chip env ctx = Some (int chip)" "chip < length (comp_queues ctx)"
    and "length (comp_regions ctx) = length (comp_queues ctx)" "comp_regions ctx ! chip = None"
    and "k < 64" "\<not> bit (comp_queues ctx ! chip) k" "\<forall>j<k. bit (comp_queues ctx ! chip) j"
    and "pin_result env = None"
  shows "\<exists>ctx'. ncbte_alloc_completion True env (Some ctx) res = Some (Some ctx', res, None) \<and>
    comp_queues ctx' = (comp_queues ctx)[chip := set_bit k (comp_queues ctx ! chip)]"
proof -
  obtain ctx' q where q: "get_available_queue ctx chip = (ctx', q)" by (cases "get_available_queue ctx chip")
  note sp = get_available_queue_spec [OF q]
  from sp(1) assms(5,6) obtain i where i: "q = int i" "\<not> bit (comp_queues ctx ! chip) i"
    "\<forall>j<i. bit (comp_queues ctx ! chip) j"
    "comp_queues ctx' = (comp_queues ctx)[chip := set_bit i (comp_queues ctx ! chip)]" by (auto split: if_splits)
  have "i = k" using i(2,3) assms(6,7) by (metis linorder_neqE_nat)
  moreover have "get_current_chip env ctx' = Some (int chip)" using assms(1) sp(3) by (simp add: get_current_chip_def)
  then have "ncbte_alloc_region env (Some ctx') 0 4096 False True r = Some (r, None)" for r
    using assms(8)
    by (simp add: ncbte_alloc_region_def set_current_chip_mask_def release_region_def empty_region_def
        pin_region_def Let_def)
  ultimately show ?thesis
    using assms(1-4) q sp(2) i(1,4)
    by (auto simp: ncbte_alloc_completion_def Let_def split: prod.splits option.splits)
qed

theorem failed_completion_loses_queue_witness:
  "\<exists>ctx'. ncbte_alloc_completion True (demo_region_env\<lparr>cpuid := 0, pin_result := None\<rparr>) (Some demo_ncbte_context) {#} =
     Some (Some ctx', {#}, None) \<and> comp_queues ctx' ! 0 = 1"
proof -
  have "get_current_chip (demo_region_env\<lparr>cpuid := 0, pin_result := None\<rparr>) demo_ncbte_context = Some (int 0)"
    by (simp add: get_current_chip_def demo_ncbte_context_def)
  from failed_completion_loses_queue [OF this, of 0 "{#}"] show ?thesis
    by (auto simp: demo_ncbte_context_def set_bit_eq_or)
qed

text \<open>
  C32: \<^verbatim>\<open>ncbte_open\<close> divides by zero exactly when it gets as far as counting and there is no
  NumaChip in the system; otherwise a failure gives back everything, and closing a fresh
  context restores the resources of the process.
\<close>

theorem open_close_bte:
  "(ncbte_open env res = None \<longleftrightarrow>
      ctx_malloc env \<and> 0 \<le> open_fd env \<and> get_numachips (pci_devices env) = 0) \<and>
   (case ncbte_open env res of
      None \<Rightarrow> True
    | Some (res', None) \<Rightarrow> res' = res
    | Some (res', Some ctx) \<Rightarrow>
        ncbte_close (replicate (length (comp_regions ctx)) True) ctx res' = (res, 0) \<and>
        (0 < num_chips ctx \<longrightarrow> numa_nodes env = numa_per_chip ctx * num_chips ctx))"
proof -
  have f: "free_comp_regions oks ctx (replicate n None) r = (r, True)" for oks ctx n r
  proof (induction n arbitrary: oks)
    case (Suc n)
    then show ?case by (cases oks) simp_all
  qed (cases oks; simp)
  show ?thesis
    by (auto simp: ncbte_open_def open_err_def ncbte_close_def f rem_def Let_def mult.commute split: option.splits)
qed

text \<open>A system of two NumaChips and six nodes.\<close>

definition demo_open_env :: open_env where
  "demo_open_env = \<lparr>ctx_malloc = True, open_fd = 3, numa_nodes = 6,
     pci_devices = Some [(0x1B47, 0x0700), (0x8086, 1), (0x1B47, 0x0700)], regions_malloc = True,
     queues_malloc = True, io_mmap = Some 0x7F0000000000\<rparr>"

lemma open_close_bte_witness:
  "case ncbte_open demo_open_env {#} of
     Some (res', Some ctx) \<Rightarrow>
       num_chips ctx = 2 \<and> numa_per_chip ctx * 2 = 6 \<and> ncbte_close [True, True] ctx res' = ({#}, 0)
   | _ \<Rightarrow> False"
proof -
  obtain res' ctx where o: "ncbte_open demo_open_env {#} = Some (res', Some ctx)"
    and c: "num_chips ctx = 2" "length (comp_regions ctx) = 2"
    by (simp add: ncbte_open_def demo_open_env_def get_numachips_def rem_def quot_def Let_def)
  have "numa_nodes demo_open_env = 6" by (simp add: demo_open_env_def)
  with open_close_bte [of demo_open_env "{#}"] c show ?thesis unfolding o by (simp add: numeral_2_eq_2)
qed

end
