(* ===== verification/NodeFiles.thy ===== *)
theory NodeFiles
  imports CpuLists
begin

text \<open>
  \<open>numaplace/numaplace.cc\<close>: what the launcher reads of the machine: distances between nodes
  (\<open>dist\<close>), the node of a core (\<open>node_of_core\<close>), the cores of a node (\<open>cores_of_node\<close>), each
  remembered in a static table. A file is its contents, \<open>None\<close> when it cannot be opened; a
  failing assertion, which ends the program, is \<open>None\<close> in the results. The tables agree with
  the files at every moment, so each function returns what the files say.
\<close>

section \<open>The files of the machine\<close>

definition MAXNODES :: nat where "MAXNODES = 1024"

record sysfs =
  distance_file :: "nat \<Rightarrow> string option"
  cpu_entries :: "nat \<Rightarrow> string list option"
  cpulist_file :: "nat \<Rightarrow> string option"

text \<open>\<open>read\<close> into a buffer of a given size: nothing read is an error.\<close>

definition read_buf :: "nat \<Rightarrow> string option \<Rightarrow> string option" where
  "read_buf len f = (case f of None \<Rightarrow> None | Some t \<Rightarrow> if t = [] then None else Some (take len t))"

definition atoi :: "string \<Rightarrow> nat" where
  "atoi s = nat (strtol10 s mod 2 ^ 32)"

section \<open>A table in front of a file\<close>

text \<open>
  Each of the three functions looks into a static table first and fills it from a file. The
  contract: with a table that agrees with the files, the function returns what the files say
  and leaves such a table.
\<close>

locale file_table =
  fixes get :: "'k \<Rightarrow> 'c \<Rightarrow> ('v \<times> 'c) option"
    and file_value :: "'k \<Rightarrow> 'v option"
    and agrees :: "'c \<Rightarrow> bool"
  assumes get_value: "agrees c \<Longrightarrow> map_option fst (get k c) = file_value k"
    and get_agrees: "agrees c \<Longrightarrow> get k c = Some (v, c') \<Longrightarrow> agrees c'"
begin

lemma get_some:
  assumes "agrees c" "file_value k = Some v"
  obtains c' where "get k c = Some (v, c')" "agrees c'"
proof -
  from get_value [OF assms(1), of k] assms(2) obtain c' where "get k c = Some (v, c')" by (auto simp: map_option_case split: option.splits)
  with get_agrees [OF assms(1)] that show thesis by blast
qed

lemma get_someD:
  assumes "agrees c" "get k c = Some (v, c')"
  shows "file_value k = Some v" "agrees c'"
  using get_value [OF assms(1), of k] get_agrees [OF assms] assms(2) by simp_all

end

section \<open>The distance of two nodes\<close>

type_synonym dtable = "nat \<times> nat \<Rightarrow> nat"

function dist_row :: "string \<Rightarrow> nat list" where
  "dist_row p = fst (strtoul p) mod 256 #
     (case dropWhile (\<lambda>c. c \<noteq> CHR '' '') p of [] \<Rightarrow> [] | _ # q \<Rightarrow> dist_row q)"
  by pat_completeness auto

lemma dropWhile_shrinks: "dropWhile P p = x # q \<Longrightarrow> length q < length p"
  using length_dropWhile_le [of P p] by simp

termination dist_row
  by (relation "measure length") (simp_all add: dropWhile_shrinks)

declare dist_row.simps [simp del]

text \<open>The last character, the newline, is overwritten by the end of the string.\<close>

definition read_row :: "sysfs \<Rightarrow> nat \<Rightarrow> nat list option" where
  "read_row s src =
     (case read_buf 4096 (distance_file s src) of None \<Rightarrow> None | Some t \<Rightarrow> Some (dist_row (butlast t)))"

definition dist :: "sysfs \<Rightarrow> nat \<times> nat \<Rightarrow> dtable \<Rightarrow> (nat \<times> dtable) option" where
  "dist s sd tab =
     (if tab sd \<noteq> 0 then Some (tab sd, tab)
      else case read_row s (fst sd) of None \<Rightarrow> None
      | Some row \<Rightarrow>
          let tab = (\<lambda>(a, b). if a = fst sd \<and> b < length row then row ! b else tab (a, b))
          in if fst sd < length row \<and> snd sd < length row then Some (tab sd, tab) else None)"

definition dist_value :: "sysfs \<Rightarrow> nat \<times> nat \<Rightarrow> nat option" where
  "dist_value s sd =
     (case read_row s (fst sd) of None \<Rightarrow> None
      | Some row \<Rightarrow> if fst sd < length row \<and> snd sd < length row then Some (row ! snd sd) else None)"

definition dist_agrees :: "sysfs \<Rightarrow> dtable \<Rightarrow> bool" where
  "dist_agrees s tab \<longleftrightarrow> (\<forall>sd. tab sd \<noteq> 0 \<longrightarrow> dist_value s sd = Some (tab sd))"

lemma dist_keeps_table:
  assumes ok: "dist_agrees s tab" and d: "dist s k tab = Some (v, tab')"
  shows "dist_agrees s tab'"
proof (cases "tab k = 0")
  case False
  with d ok show ?thesis by (simp add: dist_def)
next
  case True
  with d obtain row where row: "read_row s (fst k) = Some row" "fst k < length row"
    and tab': "tab' = (\<lambda>(a, b). if a = fst k \<and> b < length row then row ! b else tab (a, b))"
    by (auto simp: dist_def Let_def split: option.splits if_splits)
  have "dist_value s (a, b) = Some (tab' (a, b))" if "tab' (a, b) \<noteq> 0" for a b
  proof (cases "a = fst k \<and> b < length row")
    case True
    then show ?thesis using row by (simp add: dist_value_def tab')
  next
    case False
    then have "tab' (a, b) = tab (a, b)" by (auto simp: tab')
    then show ?thesis using ok that by (simp add: dist_agrees_def)
  qed
  then show ?thesis by (auto simp: dist_agrees_def)
qed

interpretation dt: file_table "dist s" "dist_value s" "dist_agrees s" for s
proof
  fix tab k
  assume ok: "dist_agrees s tab"
  show "map_option fst (dist s k tab) = dist_value s k"
    using ok by (cases k) (auto simp: dist_def dist_value_def dist_agrees_def Let_def split: option.splits)
qed (rule dist_keeps_table)

section \<open>The node of a core\<close>

type_synonym ntable = "nat \<Rightarrow> nat"

definition node_value :: "sysfs \<Rightarrow> nat \<Rightarrow> nat option" where
  "node_value s core =
     (case cpu_entries s core of None \<Rightarrow> None
      | Some es \<Rightarrow> (case find (\<lambda>e. take 4 e = ''node'') es of None \<Rightarrow> None
          | Some e \<Rightarrow> if atoi (drop 4 e) < MAXNODES then Some (atoi (drop 4 e)) else None))"

definition node_of_core :: "sysfs \<Rightarrow> nat \<Rightarrow> ntable \<Rightarrow> (nat \<times> ntable) option" where
  "node_of_core s core tab =
     (if tab core \<noteq> 0 then Some (tab core - 1, tab)
      else case node_value s core of None \<Rightarrow> None
      | Some node \<Rightarrow> Some (node, tab(core := node + 1)))"

definition node_agrees :: "sysfs \<Rightarrow> ntable \<Rightarrow> bool" where
  "node_agrees s tab \<longleftrightarrow> (\<forall>c. tab c \<noteq> 0 \<longrightarrow> node_value s c = Some (tab c - 1))"

interpretation nt: file_table "node_of_core s" "node_value s" "node_agrees s" for s
  by unfold_locales (auto simp: node_of_core_def node_agrees_def split: option.splits if_splits)

section \<open>The cores of a node\<close>

type_synonym ctable = "nat \<Rightarrow> nat \<times> nat"

definition read_cpulist :: "sysfs \<Rightarrow> nat \<Rightarrow> (nat \<times> nat) option" where
  "read_cpulist s node =
     (case read_buf 64 (cpulist_file s node) of None \<Rightarrow> None
      | Some t \<Rightarrow>
          let (a, rest) = strtoul t
          in if rest \<noteq> [] \<and> hd rest = CHR ''-''
             then let b = fst (strtoul (tl rest)) mod 2 ^ 16
                  in if 0 < b then Some (a mod 2 ^ 16, b) else None
             else None)"

definition cores_of_node :: "sysfs \<Rightarrow> nat \<Rightarrow> ctable \<Rightarrow> ((nat \<times> nat) \<times> ctable) option" where
  "cores_of_node s node tab =
     (if node < MAXNODES
      then if snd (tab node) \<noteq> 0 then Some (tab node, tab)
           else case read_cpulist s node of None \<Rightarrow> None
           | Some ab \<Rightarrow> Some (ab, tab(node := ab))
      else None)"

definition cores_value :: "sysfs \<Rightarrow> nat \<Rightarrow> (nat \<times> nat) option" where
  "cores_value s node = (if node < MAXNODES then read_cpulist s node else None)"

definition cores_agrees :: "sysfs \<Rightarrow> ctable \<Rightarrow> bool" where
  "cores_agrees s tab \<longleftrightarrow> (\<forall>n. snd (tab n) \<noteq> 0 \<longrightarrow> read_cpulist s n = Some (tab n))"

interpretation ct: file_table "cores_of_node s" "cores_value s" "cores_agrees s" for s
  by unfold_locales (auto simp: cores_of_node_def cores_value_def cores_agrees_def split: option.splits if_splits)

end
