(* ===== verification/CpuAlloc.thy ===== *)
theory CpuAlloc
  imports NodeFiles
begin

text \<open>
  \<open>numaplace/numaplace.cc\<close>: \<open>allocate\<close>, which picks cores node by node, always on the node
  nearest to the core picked last among the nodes it has not picked from. The loop is a step
  function on the state of the routine, iterated by a partial function: \<open>None\<close> means that the
  launcher never gets past it.
\<close>

section \<open>The routine\<close>

text \<open>The static variables of the program that \<open>allocate\<close> reads.\<close>

record config =
  machine :: sysfs
  masksize :: nat
  nnodes :: nat
  stride :: nat
  req_cores :: nat

text \<open>
  Where the loop is: about to search a node, or at the head of the loop over the cores of the
  nearest node, with its index, the end of its range and the next core.
\<close>

datatype place = Search | Scan nat nat nat

record alloc =
  a_at :: place
  a_c :: nat
  a_done :: nat
  a_avail :: cpu_set
  a_cores :: cpu_set
  a_mems :: "nat set"
  t_dist :: dtable
  t_node :: ntable
  t_cores :: ctable

datatype outcome = Next alloc | Return alloc | Assert

definition visited :: "nat set \<Rightarrow> nat \<Rightarrow> bool" where
  "visited mems n = CPU_ISSET_S n (CPU_ALLOC_SIZE MAXNODES) mems"

text \<open>The search for the first nearest node; the pair is its distance and its index.\<close>

fun nearest :: "sysfs \<Rightarrow> nat set \<Rightarrow> nat \<Rightarrow> nat list \<Rightarrow> nat \<times> nat \<Rightarrow> dtable \<Rightarrow> ((nat \<times> nat) \<times> dtable) option" where
  "nearest s mems numa [] best tab = Some (best, tab)"
| "nearest s mems numa (n # ns) best tab =
     (if visited mems n then nearest s mems numa ns best tab
      else case dist s (numa, n) tab of
             None \<Rightarrow> None
           | Some (d, tab) \<Rightarrow> nearest s mems numa ns (if d < fst best then (d, n) else best) tab)"

definition search_step :: "config \<Rightarrow> alloc \<Rightarrow> outcome" where
  "search_step k a =
     (case node_of_core (machine k) (a_c a) (t_node a) of
        None \<Rightarrow> Assert
      | Some (numa, tn) \<Rightarrow>
          (case nearest (machine k) (a_mems a) numa [0..<nnodes k] (UMAX, UMAX) (t_dist a) of
             None \<Rightarrow> Assert
           | Some ((_, i), td) \<Rightarrow>
               if i = UMAX then Assert
               else (case cores_of_node (machine k) i (t_cores a) of
                       None \<Rightarrow> Assert
                     | Some ((s, e), tc) \<Rightarrow>
                         Next (a\<lparr>a_at := Scan i e s, t_dist := td, t_node := tn, t_cores := tc\<rparr>))))"

definition pick :: "config \<Rightarrow> nat \<Rightarrow> nat \<Rightarrow> alloc \<Rightarrow> alloc" where
  "pick k i off a =
     a\<lparr>a_cores := CPU_SET_S off (masksize k) (a_cores a),
       a_avail := CPU_CLR_S off (masksize k) (a_avail a),
       a_mems := CPU_SET_S i (CPU_ALLOC_SIZE MAXNODES) (a_mems a),
       a_c := off, a_done := a_done a + 1\<rparr>"

definition scan_step :: "config \<Rightarrow> nat \<Rightarrow> nat \<Rightarrow> nat \<Rightarrow> alloc \<Rightarrow> outcome" where
  "scan_step k i e off a =
     (let next = Scan i e ((off + stride k) mod 2 ^ 32)
      in if off \<le> e
         then if CPU_ISSET_S off (masksize k) (a_avail a)
              then let a = pick k i off a
                   in if a_done a = req_cores k then Return a else Next (a\<lparr>a_at := next\<rparr>)
              else Next (a\<lparr>a_at := next\<rparr>)
         else Next (a\<lparr>a_at := Search\<rparr>))"

definition alloc_step :: "config \<Rightarrow> alloc \<Rightarrow> outcome" where
  "alloc_step k a =
     (case a_at a of Search \<Rightarrow> search_step k a | Scan i e off \<Rightarrow> scan_step k i e off a)"

text \<open>\<open>Some None\<close> is the failing assertion.\<close>

partial_function (option) alloc_loop :: "config \<Rightarrow> alloc \<Rightarrow> alloc option option" where
  "alloc_loop k a =
     (case alloc_step k a of
        Next a \<Rightarrow> alloc_loop k a
      | Return a \<Rightarrow> Some (Some a)
      | Assert \<Rightarrow> Some None)"

function lowest_free :: "nat \<Rightarrow> cpu_set \<Rightarrow> nat \<Rightarrow> nat option" where
  "lowest_free sz A c =
     (if CPU_ISSET_S c sz A then Some c
      else if c + 1 < sz * 8 then lowest_free sz A (c + 1) else None)"
  by pat_completeness auto

termination lowest_free
  by (relation "measure (\<lambda>(sz, A, c). sz * 8 - c)") auto

declare lowest_free.simps [simp del]

definition start_alloc :: "cpu_set \<Rightarrow> nat \<Rightarrow> alloc" where
  "start_alloc A c =
     \<lparr>a_at = Search, a_c = c, a_done = 0, a_avail = A, a_cores = {}, a_mems = {},
      t_dist = (\<lambda>_. 0), t_node = (\<lambda>_. 0), t_cores = (\<lambda>_. (0, 0))\<rparr>"

definition allocate :: "config \<Rightarrow> cpu_set \<Rightarrow> alloc option option" where
  "allocate k A =
     (case lowest_free (masksize k) A 0 of
        None \<Rightarrow> Some None
      | Some c \<Rightarrow> alloc_loop k (start_alloc A c))"

section \<open>Rules for the loop\<close>

lemma loop_results:
  assumes eq: "alloc_loop k a = Some r"
    and P: "\<And>a. alloc_step k a = Assert \<Longrightarrow> P a None"
      "\<And>a a' r. alloc_step k a = Next a' \<Longrightarrow> P a' r \<Longrightarrow> P a r"
      "\<And>a a'. alloc_step k a = Return a' \<Longrightarrow> P a (Some a')"
  shows "P a r"
proof -
  have "k = k \<longrightarrow> P a r"
  proof (rule alloc_loop.raw_induct [of "\<lambda>k' a r. k' = k \<longrightarrow> P a r", OF _ eq])
    fix f k' a r
    assume "\<And>k' a r. f k' a = Some r \<Longrightarrow> k' = k \<longrightarrow> P a r"
      "(case alloc_step k' a of Next a \<Rightarrow> f k' a | Return a \<Rightarrow> Some (Some a) | Assert \<Rightarrow> Some None) = Some r"
    then show "k' = k \<longrightarrow> P a r" by (auto split: outcome.splits intro: P)
  qed
  then show ?thesis by simp
qed

lemma loop_invariant:
  assumes eq: "alloc_loop k a = Some (Some b)" and J: "J a"
    and step: "\<And>a a'. J a \<Longrightarrow> alloc_step k a = Next a' \<Longrightarrow> J a'"
    and ret: "\<And>a a'. J a \<Longrightarrow> alloc_step k a = Return a' \<Longrightarrow> Q a'"
  shows "Q b"
proof -
  have "J a \<longrightarrow> (case Some b of None \<Rightarrow> True | Some b \<Rightarrow> Q b)"
    by (rule loop_results [OF eq]) (auto intro: step ret)
  with J show ?thesis by simp
qed

lemma loop_stuck:
  assumes a: "a \<in> S" and S: "\<And>a. a \<in> S \<Longrightarrow> \<exists>a'\<in>S. alloc_step k a = Next a'"
  shows "alloc_loop k a = None"
proof (cases "alloc_loop k a")
  case (Some r)
  have "a \<notin> S"
    by (rule loop_results [OF Some]) (use S in force)+
  with a show ?thesis by simp
qed

lemma loop_halts:
  assumes "wf R" and J: "J a"
    and step: "\<And>a a'. J a \<Longrightarrow> alloc_step k a = Next a' \<Longrightarrow> J a' \<and> (a', a) \<in> R"
  shows "alloc_loop k a \<noteq> None"
  using \<open>wf R\<close> J
proof (induction a)
  case (less a)
  show ?case
  proof (cases "alloc_step k a")
    case (Next a')
    with less step show ?thesis by (subst alloc_loop.simps) (auto simp del: not_None_eq)
  qed (simp_all add: alloc_loop.simps [of k a])
qed

section \<open>What is picked\<close>

definition node_range :: "config \<Rightarrow> nat \<Rightarrow> nat set" where
  "node_range k n = (case cores_value (machine k) n of None \<Rightarrow> {} | Some (s, e) \<Rightarrow> {s..e})"

text \<open>The largest stride the core numbers do not wrap with.\<close>

definition stride_ok :: "config \<Rightarrow> bool" where
  "stride_ok k \<longleftrightarrow> 0 < stride k \<and> stride k \<le> 2 ^ 32 - 2 ^ 16"

definition tables_ok :: "config \<Rightarrow> alloc \<Rightarrow> bool" where
  "tables_ok k a \<longleftrightarrow> dist_agrees (machine k) (t_dist a) \<and> node_agrees (machine k) (t_node a) \<and>
     cores_agrees (machine k) (t_cores a)"

definition picked_ok :: "config \<Rightarrow> cpu_set \<Rightarrow> alloc \<Rightarrow> bool" where
  "picked_ok k A a \<longleftrightarrow> finite (a_cores a) \<and> card (a_cores a) = a_done a \<and>
     a_cores a \<subseteq> {c \<in> A. c div 8 < masksize k} \<and> a_avail a = A - a_cores a \<and>
     (\<forall>n\<in>a_mems a. n < MAXNODES \<and> a_cores a \<inter> node_range k n \<noteq> {}) \<and>
     a_cores a \<subseteq> (\<Union>n\<in>a_mems a. node_range k n)"

definition place_ok :: "config \<Rightarrow> alloc \<Rightarrow> bool" where
  "place_ok k a \<longleftrightarrow>
     (case a_at a of Search \<Rightarrow> True
      | Scan i e off \<Rightarrow> \<exists>s. cores_value (machine k) i = Some (s, e) \<and> s \<le> off)"

definition alloc_inv :: "config \<Rightarrow> cpu_set \<Rightarrow> alloc \<Rightarrow> bool" where
  "alloc_inv k A a \<longleftrightarrow> tables_ok k a \<and> picked_ok k A a \<and> place_ok k a"

lemma cores_value_bounds:
  assumes "cores_value s n = Some (a, b)"
  shows "n < MAXNODES" "a < 2 ^ 16" "b < 2 ^ 16"
  using assms by (auto simp: cores_value_def read_cpulist_def Let_def split: if_splits option.splits prod.splits)

lemma start_alloc_inv: "alloc_inv k A (start_alloc A c)"
  by (simp add: alloc_inv_def tables_ok_def picked_ok_def place_ok_def start_alloc_def dist_agrees_def
      node_agrees_def cores_agrees_def)

lemma nearest_agrees:
  assumes "dist_agrees s tab" "nearest s mems numa ns best tab = Some (r, tab')"
  shows "dist_agrees s tab'"
  using assms
proof (induction ns arbitrary: best tab)
  case (Cons n ns)
  show ?case
  proof (cases "visited mems n")
    case False
    with Cons.prems(2) obtain d t where t: "dist s (numa, n) tab = Some (d, t)"
      "nearest s mems numa ns (if d < fst best then (d, n) else best) t = Some (r, tab')"
      by (auto split: option.splits)
    then show ?thesis using Cons.IH [OF dt.get_someD(2) [OF Cons.prems(1) t(1)]] by simp
  qed (use Cons in simp)
qed simp

lemma search_step_Next:
  assumes "search_step k a = Next a'" "tables_ok k a"
  obtains i s e td tn tc where "cores_value (machine k) i = Some (s, e)"
    "a' = a\<lparr>a_at := Scan i e s, t_dist := td, t_node := tn, t_cores := tc\<rparr>" "tables_ok k a'"
proof -
  from assms(1) obtain numa tn d i td s e tc where
    n: "node_of_core (machine k) (a_c a) (t_node a) = Some (numa, tn)" and
    d: "nearest (machine k) (a_mems a) numa [0..<nnodes k] (UMAX, UMAX) (t_dist a) = Some ((d, i), td)" and
    c: "cores_of_node (machine k) i (t_cores a) = Some ((s, e), tc)" and
    a': "a' = a\<lparr>a_at := Scan i e s, t_dist := td, t_node := tn, t_cores := tc\<rparr>"
    by (auto simp: search_step_def split: option.splits prod.splits if_splits)
  from assms(2) have t: "dist_agrees (machine k) (t_dist a)" "node_agrees (machine k) (t_node a)"
    "cores_agrees (machine k) (t_cores a)" by (simp_all add: tables_ok_def)
  have "tables_ok k a'"
    using nearest_agrees [OF t(1) d] nt.get_someD(2) [OF t(2) n] ct.get_someD(2) [OF t(3) c]
    by (simp add: tables_ok_def a')
  with ct.get_someD(1) [OF t(3) c] a' show thesis by (intro that)
qed

lemma pick_ok:
  assumes "picked_ok k A a" "CPU_ISSET_S off (masksize k) (a_avail a)"
    and i: "i < MAXNODES" "off \<in> node_range k i"
  shows "picked_ok k A (pick k i off a)"
proof -
  from assms(2) have off: "off div 8 < masksize k" "off \<in> a_avail a" by (simp_all add: CPU_ISSET_S_def)
  from i(1) have "i div 8 < CPU_ALLOC_SIZE MAXNODES" by (simp add: MAXNODES_def CPU_ALLOC_SIZE_def)
  with off assms(1) i show ?thesis
    by (auto simp: picked_ok_def pick_def CPU_SET_S_def CPU_CLR_S_def)
qed

lemma tables_ok_cong:
  "t_dist a' = t_dist a \<Longrightarrow> t_node a' = t_node a \<Longrightarrow> t_cores a' = t_cores a \<Longrightarrow> tables_ok k a' = tables_ok k a"
  by (simp add: tables_ok_def)

lemma picked_ok_at [simp]: "picked_ok k A (a\<lparr>a_at := p\<rparr>) = picked_ok k A a"
  by (simp add: picked_ok_def)

lemma scan_place:
  assumes "stride_ok k" "cores_value (machine k) i = Some (s, e)" "s \<le> off" "off \<le> e"
  shows "(off + stride k) mod 2 ^ 32 = off + stride k"
  using cores_value_bounds [OF assms(2)] assms(1,4) by (simp add: stride_ok_def)

lemma scan_step_inv:
  assumes k: "stride_ok k" and inv: "alloc_inv k A a" and at: "a_at a = Scan i e off"
  shows "scan_step k i e off a = Next a' \<Longrightarrow> alloc_inv k A a'"
    "scan_step k i e off a = Return a' \<Longrightarrow> picked_ok k A a' \<and> a_done a' = req_cores k"
proof -
  from inv have t: "tables_ok k a" and p: "picked_ok k A a" by (simp_all add: alloc_inv_def)
  from inv at obtain s where s: "cores_value (machine k) i = Some (s, e)" "s \<le> off"
    by (auto simp: alloc_inv_def place_ok_def)
  have range: "off \<in> node_range k i" if "off \<le> e" using that s by (simp add: node_range_def)
  have tp: "tables_ok k (pick k i off a)" using t by (simp add: pick_def tables_ok_def)
  show "alloc_inv k A a'" if "scan_step k i e off a = Next a'"
    using that s t p tp scan_place [OF k s(1,2)] pick_ok [OF p _ cores_value_bounds(1) [OF s(1)]] range
    by (auto simp: scan_step_def Let_def alloc_inv_def place_ok_def tables_ok_def split: if_splits)
  show "picked_ok k A a' \<and> a_done a' = req_cores k" if "scan_step k i e off a = Return a'"
    using that pick_ok [OF p _ cores_value_bounds(1) [OF s(1)]] range
    by (auto simp: scan_step_def Let_def split: if_splits)
qed

lemma alloc_step_inv:
  assumes k: "stride_ok k" and inv: "alloc_inv k A a"
  shows "alloc_step k a = Next a' \<Longrightarrow> alloc_inv k A a'"
    "alloc_step k a = Return a' \<Longrightarrow> picked_ok k A a' \<and> a_done a' = req_cores k"
proof -
  show "alloc_inv k A a'" if n: "alloc_step k a = Next a'"
  proof (cases "a_at a")
    case Search
    with n have "search_step k a = Next a'" by (simp add: alloc_step_def)
    moreover have "tables_ok k a" "picked_ok k A a" using inv by (simp_all add: alloc_inv_def)
    ultimately show ?thesis
      by (elim search_step_Next) (simp_all add: alloc_inv_def picked_ok_def place_ok_def)
  next
    case (Scan i e off)
    with n scan_step_inv(1) [OF k inv Scan] show ?thesis by (simp add: alloc_step_def)
  qed
  show "picked_ok k A a' \<and> a_done a' = req_cores k" if n: "alloc_step k a = Return a'"
  proof (cases "a_at a")
    case Search
    with n show ?thesis
      by (simp add: alloc_step_def search_step_def split: option.splits prod.splits if_splits)
  next
    case (Scan i e off)
    with n scan_step_inv(2) [OF k inv Scan] show ?thesis by (simp add: alloc_step_def)
  qed
qed

lemma allocate_picked:
  assumes k: "stride_ok k" and a: "allocate k A = Some (Some a)"
  shows "picked_ok k A a" "a_done a = req_cores k"
proof -
  from a obtain c where l: "alloc_loop k (start_alloc A c) = Some (Some a)"
    by (auto simp: allocate_def split: option.splits)
  have "picked_ok k A a \<and> a_done a = req_cores k"
    by (rule loop_invariant [where J = "alloc_inv k A", OF l start_alloc_inv]) (use alloc_step_inv [OF k] in blast)+
  then show "picked_ok k A a" "a_done a = req_cores k" by simp_all
qed

section \<open>That it returns\<close>

lemma lowest_free_some:
  assumes "CPU_ISSET_S x sz A" "c \<le> x"
  obtains c' where "lowest_free sz A c = Some c'" "CPU_ISSET_S c' sz A"
  using assms
proof (induction "x - c" arbitrary: c thesis rule: less_induct)
  case less
  show ?case
  proof (cases "CPU_ISSET_S c sz A")
    case True
    then show ?thesis by (intro less.prems(1)) (simp_all add: lowest_free.simps [of sz A c])
  next
    case False
    with less.prems(2,3) have x: "c < x" by (cases "c = x") auto
    have "x < sz * 8" using less.prems(2) by (simp add: CPU_ISSET_S_def div_less_iff_less_mult)
    have "x - (c + 1) < x - c" "c + 1 \<le> x" using x by simp_all
    then obtain c' where "lowest_free sz A (c + 1) = Some c'" "CPU_ISSET_S c' sz A"
      using less.hyps less.prems(2) by blast
    then show ?thesis using False x \<open>x < sz * 8\<close>
      by (intro less.prems(1)) (simp_all add: lowest_free.simps [of sz A c])
  qed
qed

lemma dist_row_less: "d \<in> set (dist_row p) \<Longrightarrow> d < 256"
proof (induction p rule: dist_row.induct)
  case (1 p)
  then show ?case
    by (subst (asm) (2) dist_row.simps) (auto dest: sym split: list.splits)
qed

lemma dist_value_less: "dist_value s sd = Some d \<Longrightarrow> d < 256"
  by (auto simp: dist_value_def read_row_def split: option.splits if_splits intro: dist_row_less nth_mem)

text \<open>The search of the nearest node, and what it finds.\<close>

definition best_of :: "sysfs \<Rightarrow> nat set \<Rightarrow> nat \<Rightarrow> nat list \<Rightarrow> nat \<times> nat \<Rightarrow> nat \<times> nat \<Rightarrow> bool" where
  "best_of s mems numa ns best r \<longleftrightarrow>
     (r = best \<or> snd r \<in> set ns \<and> \<not> visited mems (snd r) \<and> dist_value s (numa, snd r) = Some (fst r)) \<and>
     fst r \<le> fst best \<and>
     (\<forall>n\<in>set ns. \<not> visited mems n \<longrightarrow> (\<forall>d. dist_value s (numa, n) = Some d \<longrightarrow> fst r \<le> d))"

lemma best_of_Cons:
  assumes "best_of s mems numa ns (if d < fst best then (d, n) else best) r"
    "\<not> visited mems n" "dist_value s (numa, n) = Some d"
  shows "best_of s mems numa (n # ns) best r"
proof (cases "d < fst best")
  case True
  then show ?thesis using assms unfolding best_of_def by fastforce
next
  case False
  then show ?thesis using assms unfolding best_of_def by fastforce
qed

lemma nearest_some:
  assumes "dist_agrees s tab" "\<forall>n\<in>set ns. dist_value s (numa, n) \<noteq> None"
  shows "\<exists>r tab'. nearest s mems numa ns best tab = Some (r, tab') \<and> best_of s mems numa ns best r"
  using assms
proof (induction ns arbitrary: best tab)
  case Nil
  then show ?case by (simp add: best_of_def)
next
  case (Cons n ns)
  show ?case
  proof (cases "visited mems n")
    case True
    moreover have "best_of s mems numa (n # ns) best r" if "best_of s mems numa ns best r" for r
      using that True by (auto simp: best_of_def)
    ultimately show ?thesis using Cons.IH [OF Cons.prems(1), of best] Cons.prems(2) by auto
  next
    case False
    from Cons.prems(2) obtain d where d: "dist_value s (numa, n) = Some d" by auto
    from dt.get_some [OF Cons.prems(1) d] obtain t where t: "dist s (numa, n) tab = Some (d, t)" "dist_agrees s t" .
    have rest: "\<forall>n\<in>set ns. dist_value s (numa, n) \<noteq> None" using Cons.prems(2) by simp
    obtain r tab' where "nearest s mems numa ns (if d < fst best then (d, n) else best) t = Some (r, tab')"
      "best_of s mems numa ns (if d < fst best then (d, n) else best) r"
      using Cons.IH [OF t(2), of "if d < fst best then (d, n) else best"] rest by blast
    note r = this(1) best_of_Cons [OF this(2) False d]
    have "nearest s mems numa (n # ns) best tab = Some (r, tab')" using r(1) False t(1) by simp
    with r(2) show ?thesis by blast
  qed
qed

text \<open>The cores of a node that its scan comes to and that are free.\<close>

definition reach :: "config \<Rightarrow> cpu_set \<Rightarrow> nat \<Rightarrow> nat set" where
  "reach k A n =
     (case cores_value (machine k) n of None \<Rightarrow> {}
      | Some (s, e) \<Rightarrow> {c \<in> A. c div 8 < masksize k \<and> c \<le> e \<and> (\<exists>j. c = s + j * stride k)})"

definition machine_ok :: "config \<Rightarrow> cpu_set \<Rightarrow> bool" where
  "machine_ok k A \<longleftrightarrow>
     nnodes k \<le> MAXNODES \<and>
     (\<forall>m<nnodes k. \<forall>n<nnodes k. dist_value (machine k) (m, n) \<noteq> None) \<and>
     (\<forall>n<nnodes k. cores_value (machine k) n \<noteq> None \<and>
        (\<forall>c\<in>node_range k n. node_value (machine k) c = Some n)) \<and>
     (\<forall>c\<in>A. c div 8 < masksize k \<longrightarrow> (\<exists>n<nnodes k. c \<in> node_range k n))"

definition progress :: "config \<Rightarrow> cpu_set \<Rightarrow> alloc \<Rightarrow> bool" where
  "progress k A a \<longleftrightarrow>
     a_done a < req_cores k \<and> (\<exists>n<nnodes k. a_c a \<in> node_range k n) \<and> a_mems a \<subseteq> {..<nnodes k} \<and>
     (case a_at a of
        Search \<Rightarrow> \<forall>n\<in>a_mems a. reach k A n \<subseteq> a_cores a
      | Scan i e off \<Rightarrow> i < nnodes k \<and>
          (\<exists>s j. cores_value (machine k) i = Some (s, e) \<and> off = s + j * stride k) \<and>
          (\<forall>n\<in>a_mems a - {i}. reach k A n \<subseteq> a_cores a) \<and> {c \<in> reach k A i. c < off} \<subseteq> a_cores a)"

definition left :: "config \<Rightarrow> alloc \<Rightarrow> nat" where
  "left k a = card ({..<nnodes k} - (case a_at a of Search \<Rightarrow> {} | Scan i _ _ \<Rightarrow> {i}) - a_mems a)"

definition togo :: "alloc \<Rightarrow> nat" where
  "togo a = (case a_at a of Search \<Rightarrow> 0 | Scan i e off \<Rightarrow> Suc (Suc e - off))"

lemma visited_iff: "n < MAXNODES \<Longrightarrow> visited mems n \<longleftrightarrow> n \<in> mems"
  by (auto simp: visited_def CPU_ISSET_S_def CPU_ALLOC_SIZE_def MAXNODES_def div_less_iff_less_mult)

lemma reach_sub: "reach k A n \<subseteq> {c \<in> A. c div 8 < masksize k} \<inter> node_range k n"
  by (auto simp: reach_def node_range_def split: option.splits)

lemma machine_okD:
  assumes "machine_ok k A"
  shows "nnodes k \<le> MAXNODES" "m < nnodes k \<Longrightarrow> n < nnodes k \<Longrightarrow> dist_value (machine k) (m, n) \<noteq> None"
    "n < nnodes k \<Longrightarrow> cores_value (machine k) n \<noteq> None"
    "n < nnodes k \<Longrightarrow> c \<in> node_range k n \<Longrightarrow> node_value (machine k) c = Some n"
    "c \<in> A \<Longrightarrow> c div 8 < masksize k \<Longrightarrow> \<exists>n<nnodes k. c \<in> node_range k n"
  using assms unfolding machine_ok_def by blast+

lemma ranges_apart:
  assumes "machine_ok k A" "m < nnodes k" "n < nnodes k" "c \<in> node_range k m" "c \<in> node_range k n"
  shows "m = n"
  using machine_okD(4) [OF assms(1,2,4)] machine_okD(4) [OF assms(1,3,5)] by simp

text \<open>At a search there is a node left: otherwise all that can be reached has been picked.\<close>

lemma search_not_over:
  assumes inv: "alloc_inv k A a" "progress k A a" "a_at a = Search"
    and req: "req_cores k \<le> card (\<Union>n<nnodes k. reach k A n)"
  shows "\<not> {..<nnodes k} \<subseteq> a_mems a"
proof
  assume all: "{..<nnodes k} \<subseteq> a_mems a"
  from inv(2,3) have "(\<Union>n<nnodes k. reach k A n) \<subseteq> a_cores a" using all by (auto simp: progress_def)
  moreover have p: "finite (a_cores a)" "card (a_cores a) = a_done a" using inv(1) by (simp_all add: alloc_inv_def picked_ok_def)
  ultimately have "card (\<Union>n<nnodes k. reach k A n) \<le> a_done a" using card_mono by metis
  with req inv(2) show False by (simp add: progress_def)
qed

text \<open>A step of the search goes to an unvisited node of least distance.\<close>

lemma search_step_goes:
  assumes m: "machine_ok k A" and inv: "alloc_inv k A a" "progress k A a" "a_at a = Search"
    and more: "\<not> {..<nnodes k} \<subseteq> a_mems a"
  obtains i s e a' where "alloc_step k a = Next a'" "i < nnodes k" "i \<notin> a_mems a"
    "cores_value (machine k) i = Some (s, e)" "a_at a' = Scan i e s" "a_c a' = a_c a" "a_done a' = a_done a"
    "a_mems a' = a_mems a" "a_cores a' = a_cores a" "a_avail a' = a_avail a"
proof -
  from inv(2) obtain numa where numa: "numa < nnodes k" "a_c a \<in> node_range k numa" by (auto simp: progress_def)
  from inv(1) have t: "dist_agrees (machine k) (t_dist a)" "node_agrees (machine k) (t_node a)"
    "cores_agrees (machine k) (t_cores a)" by (simp_all add: alloc_inv_def tables_ok_def)
  obtain tn where tn: "node_of_core (machine k) (a_c a) (t_node a) = Some (numa, tn)"
    using nt.get_some [OF t(2) machine_okD(4) [OF m numa]] by blast
  have "\<forall>n\<in>set [0..<nnodes k]. dist_value (machine k) (numa, n) \<noteq> None" using machine_okD(2) [OF m numa(1)] by simp
  from nearest_some [OF t(1) this, of "a_mems a" "(UMAX, UMAX)"] obtain d i td where
    r: "nearest (machine k) (a_mems a) numa [0..<nnodes k] (UMAX, UMAX) (t_dist a) = Some ((d, i), td)" and
    b: "best_of (machine k) (a_mems a) numa [0..<nnodes k] (UMAX, UMAX) (d, i)" by auto
  from more obtain n where n: "n < nnodes k" "n \<notin> a_mems a" by auto
  with machine_okD(1,2) [OF m] numa(1) obtain dn where dn: "dist_value (machine k) (numa, n) = Some dn" by fastforce
  have "\<not> visited (a_mems a) n" using n machine_okD(1) [OF m] visited_iff [of n "a_mems a"] by simp
  with b n dn have "d \<le> dn" by (simp add: best_of_def)
  with dist_value_less [OF dn] have "(d, i) \<noteq> (UMAX, UMAX)" by (simp add: UMAX_def)
  with b have i: "i < nnodes k" "\<not> visited (a_mems a) i" by (auto simp: best_of_def)
  then have i': "i \<notin> a_mems a" "i \<noteq> UMAX" using machine_okD(1) [OF m] visited_iff [of i "a_mems a"] by (auto simp: MAXNODES_def UMAX_def)
  from machine_okD(3) [OF m i(1)] obtain s e where se: "cores_value (machine k) i = Some (s, e)" by auto
  from ct.get_some [OF t(3) se] obtain tc where tc: "cores_of_node (machine k) i (t_cores a) = Some ((s, e), tc)" by blast
  have "alloc_step k a = Next (a\<lparr>a_at := Scan i e s, t_dist := td, t_node := tn, t_cores := tc\<rparr>)"
    using i'(2) by (simp add: alloc_step_def inv(3) search_step_def tn r tc)
  then show thesis by (rule that) (simp_all add: i i' se)
qed

lemma reach_next:
  assumes "c \<in> reach k A i" "cores_value (machine k) i = Some (s, e)" "off = s + j * stride k" "c < off + stride k"
  shows "c < off \<or> c = off"
proof -
  from assms(1,2) obtain j' where c: "c = s + j' * stride k" by (auto simp: reach_def)
  with assms(3,4) have "j' * stride k < Suc j * stride k" by simp
  then have "j' < Suc j" by (simp only: mult_less_cancel2)
  then have "j' * stride k \<le> j * stride k" by simp
  with c assms(3) show ?thesis by linarith
qed

lemma progress_search:
  assumes m: "machine_ok k A" and inv: "alloc_inv k A a" "progress k A a" "a_at a = Search"
    and req: "req_cores k \<le> card (\<Union>n<nnodes k. reach k A n)"
  shows "\<exists>a'. alloc_step k a = Next a' \<and> progress k A a' \<and> left k a' < left k a"
proof -
  obtain i s e a' where a': "alloc_step k a = Next a'" and i: "i < nnodes k" "i \<notin> a_mems a" and
    se: "cores_value (machine k) i = Some (s, e)" and at: "a_at a' = Scan i e s" and
    same: "a_c a' = a_c a" "a_done a' = a_done a" "a_mems a' = a_mems a" "a_cores a' = a_cores a"
    using search_step_goes [OF m inv search_not_over [OF inv req]] by metis
  have none: "{c \<in> reach k A i. c < s} \<subseteq> a_cores a" using se by (auto simp: reach_def)
  have "\<exists>s' j. cores_value (machine k) i = Some (s', e) \<and> s = s' + j * stride k" using se by (intro exI [of _ s] exI [of _ 0]) simp
  then have "progress k A a'" using inv(2,3) i none by (simp add: progress_def at same)
  moreover have "left k a' < left k a"
    unfolding left_def at inv(3) same place.case using i by (intro psubset_card_mono) auto
  ultimately show ?thesis using a' by blast
qed

lemma scanned_visited:
  assumes m: "machine_ok k A" and inv: "alloc_inv k A a" "progress k A a"
    and i: "i < nnodes k" "reach k A i \<noteq> {}" "reach k A i \<subseteq> a_cores a"
  shows "i \<in> a_mems a"
proof -
  from i(2,3) reach_sub obtain c where c: "c \<in> a_cores a" "c \<in> node_range k i" by blast
  from c(1) inv(1) obtain n where n: "n \<in> a_mems a" "c \<in> node_range k n" by (auto simp: alloc_inv_def picked_ok_def)
  from n(1) inv(2) have "n < nnodes k" by (auto simp: progress_def)
  from ranges_apart [OF m this i(1) n(2) c(2)] n(1) show ?thesis by simp
qed

lemma progress_scan:
  assumes k: "stride_ok k" and m: "machine_ok k A" and inv: "alloc_inv k A a" "progress k A a" "a_at a = Scan i e off"
    and r: "reach k A i \<noteq> {}" and step: "alloc_step k a = Next a'"
  shows "progress k A a' \<and> left k a' = left k a \<and> togo a' < togo a"
proof -
  from inv(2,3) have dn: "a_done a < req_cores k" and i: "i < nnodes k" and
    others: "\<forall>n\<in>a_mems a - {i}. reach k A n \<subseteq> a_cores a" and below: "{c \<in> reach k A i. c < off} \<subseteq> a_cores a"
    by (simp_all add: progress_def)
  from inv(2,3) obtain s j where se: "cores_value (machine k) i = Some (s, e)" "off = s + j * stride k"
    by (auto simp: progress_def)
  note wrap = scan_place [OF k se(1)]
  show ?thesis
  proof (cases "off \<le> e")
    case False
    have "c < off" if "c \<in> reach k A i" for c using that False se(1) by (auto simp: reach_def)
    with below have "reach k A i \<subseteq> a_cores a" by auto
    with scanned_visited [OF m inv(1,2) i r] have "i \<in> a_mems a" and all: "\<forall>n\<in>a_mems a. reach k A n \<subseteq> a_cores a"
      using others by auto
    then have "{..<nnodes k} - {i} - a_mems a = {..<nnodes k} - a_mems a" by auto
    moreover have "a' = a\<lparr>a_at := Search\<rparr>" using step False by (simp add: alloc_step_def inv(3) scan_step_def)
    ultimately show ?thesis using inv all False by (simp add: progress_def left_def togo_def)
  next
    case True
    have o: "(off + stride k) mod 2 ^ 32 = off + stride k" using wrap [of off] se True by simp
    have at: "off + stride k = s + Suc j * stride k" using se(2) by simp
    have near: "c < off \<or> c = off" if "c \<in> reach k A i" "c < off + stride k" for c
      using reach_next [OF that(1) se that(2)] .
    have range: "off \<in> node_range k i" using se True by (simp add: node_range_def)
    have set: "\<exists>s j'. cores_value (machine k) i = Some (s, e) \<and> off + stride k = s + j' * stride k"
      using se(1) at by blast
    have less: "Suc e - (off + stride k) < Suc e - off"
      by (rule diff_less_mono2) (use True k in \<open>simp_all add: stride_ok_def\<close>)
    show ?thesis
    proof (cases "CPU_ISSET_S off (masksize k) (a_avail a)")
      case False
      have "{c \<in> reach k A i. c < off + stride k} \<subseteq> a_cores a"
        using near below False inv(1) reach_sub [of k A i] by (auto simp: alloc_inv_def picked_ok_def CPU_ISSET_S_def)
      moreover have "a' = a\<lparr>a_at := Scan i e (off + stride k)\<rparr>"
        using step False True o by (simp add: alloc_step_def inv(3) scan_step_def)
      ultimately show ?thesis using inv(2,3) set i others less by (simp add: progress_def left_def togo_def)
    next
      case hit: True
      let ?p = "pick k i off a"
      have a': "a' = ?p\<lparr>a_at := Scan i e (off + stride k)\<rparr>" "a_done ?p \<noteq> req_cores k"
        using step hit True o by (auto simp: alloc_step_def inv(3) scan_step_def Let_def split: if_splits)
      have "i div 8 < CPU_ALLOC_SIZE MAXNODES"
        using i machine_okD(1) [OF m] by (simp add: CPU_ALLOC_SIZE_def MAXNODES_def div_less_iff_less_mult)
      then have p: "a_cores ?p = insert off (a_cores a)" "a_mems ?p = insert i (a_mems a)" "a_done ?p = Suc (a_done a)" "a_c ?p = off"
        using hit by (simp_all add: pick_def CPU_SET_S_def CPU_ISSET_S_def)
      have "{c \<in> reach k A i. c < off + stride k} \<subseteq> insert off (a_cores a)" using near below by auto
      moreover have "{..<nnodes k} - {i} - insert i (a_mems a) = {..<nnodes k} - {i} - a_mems a" by auto
      moreover have "\<forall>n\<in>insert i (a_mems a) - {i}. reach k A n \<subseteq> insert off (a_cores a)" using others by auto
      moreover have "\<exists>n<nnodes k. off \<in> node_range k n" using i range by blast
      ultimately show ?thesis
        using a' p inv(2,3) set i dn less by (simp add: progress_def left_def togo_def)
    qed
  qed
qed

theorem alloc_loop_returns:
  assumes k: "stride_ok k" and m: "machine_ok k A" and r: "\<And>n. n < nnodes k \<Longrightarrow> reach k A n \<noteq> {}"
    and req: "req_cores k \<le> card (\<Union>n<nnodes k. reach k A n)"
    and a: "alloc_inv k A a" "progress k A a"
  shows "\<exists>b. alloc_loop k a = Some (Some b)"
proof -
  have "\<exists>b. alloc_loop k a = Some (Some b)" if "alloc_inv k A a" "progress k A a" for a
    using that
  proof (induction a rule: wf_induct_rule [OF wf_measures [of "[left k, togo]"]])
    case (1 a)
    have again: "?case" if n: "alloc_step k a = Next a'" "progress k A a'" "(a', a) \<in> measures [left k, togo]" for a'
      using 1(1) [OF n(3) alloc_step_inv(1) [OF k 1(2) n(1)] n(2)] n(1) by (simp add: alloc_loop.simps [of k a])
    show ?case
    proof (cases "a_at a")
      case Search
      with progress_search [OF m 1(2,3) _ req] again show ?thesis by auto
    next
      case (Scan i e off)
      then have "reach k A i \<noteq> {}" using r 1(3) by (simp add: progress_def)
      note step = progress_scan [OF k m 1(2,3) Scan this]
      show ?thesis
      proof (cases "alloc_step k a")
        case (Next a')
        with step again show ?thesis by simp
      next
        case Assert
        then show ?thesis by (simp add: alloc_step_def Scan scan_step_def Let_def split: if_splits)
      qed (simp add: alloc_loop.simps [of k a])
    qed
  qed
  with a show ?thesis by blast
qed

lemma allocate_some:
  assumes k: "stride_ok k" and m: "machine_ok k A"
    and r: "\<forall>n<nnodes k. reach k A n \<noteq> {}"
    and req: "0 < req_cores k" "req_cores k \<le> card (\<Union>n<nnodes k. reach k A n)"
  shows "\<exists>a. allocate k A = Some (Some a)"
proof -
  from req have "card (\<Union>n<nnodes k. reach k A n) \<noteq> card ({} :: nat set)" by simp
  then have "(\<Union>n<nnodes k. reach k A n) \<noteq> {}" by (rule contrapos_nn) (rule arg_cong [where f = card])
  then obtain x n where "x \<in> reach k A n" by blast
  then have "CPU_ISSET_S x (masksize k) A" using reach_sub [of k A n] by (auto simp: CPU_ISSET_S_def)
  from lowest_free_some [OF this, of 0] obtain c where
    c: "lowest_free (masksize k) A 0 = Some c" "CPU_ISSET_S c (masksize k) A" by blast
  from machine_okD(5) [OF m] c(2) have "\<exists>n<nnodes k. c \<in> node_range k n" by (simp add: CPU_ISSET_S_def)
  then have "progress k A (start_alloc A c)" using req by (simp add: progress_def start_alloc_def)
  from alloc_loop_returns [OF k m _ req(2) start_alloc_inv this] r c(1) show ?thesis by (simp add: allocate_def)
qed

section \<open>That it does not\<close>

text \<open>What the search finds, by the files alone.\<close>

fun nearest_value :: "sysfs \<Rightarrow> nat set \<Rightarrow> nat \<Rightarrow> nat list \<Rightarrow> nat \<times> nat \<Rightarrow> (nat \<times> nat) option" where
  "nearest_value s mems numa [] best = Some best"
| "nearest_value s mems numa (n # ns) best =
     (if visited mems n then nearest_value s mems numa ns best
      else case dist_value s (numa, n) of
             None \<Rightarrow> None
           | Some d \<Rightarrow> nearest_value s mems numa ns (if d < fst best then (d, n) else best))"

lemma nearest_by_files:
  "dist_agrees s tab \<Longrightarrow> map_option fst (nearest s mems numa ns best tab) = nearest_value s mems numa ns best"
proof (induction ns arbitrary: best tab)
  case (Cons n ns)
  show ?case
  proof (cases "visited mems n \<or> dist_value s (numa, n) = None")
    case True
    then show ?thesis using Cons dt.get_value [OF Cons.prems, of "(numa, n)"] by auto
  next
    case False
    then obtain d where d: "dist_value s (numa, n) = Some d" by auto
    from dt.get_some [OF Cons.prems d] obtain t where "dist s (numa, n) tab = Some (d, t)" "dist_agrees s t" .
    with Cons.IH d False show ?thesis by simp
  qed
qed simp

interpretation nr: file_table
  "\<lambda>(mems, numa, ns). nearest s mems numa ns (UMAX, UMAX)"
  "\<lambda>(mems, numa, ns). nearest_value s mems numa ns (UMAX, UMAX)" "dist_agrees s" for s
  by unfold_locales (auto simp: nearest_by_files intro: nearest_agrees)

lemma search_by_files:
  assumes "tables_ok k a" "a_at a = Search" "node_value (machine k) (a_c a) = Some m"
    "nearest_value (machine k) (a_mems a) m [0..<nnodes k] (UMAX, UMAX) = Some (d, i)" "i \<noteq> UMAX"
    "cores_value (machine k) i = Some (s, e)"
  shows "\<exists>td tn tc. alloc_step k a = Next (a\<lparr>a_at := Scan i e s, t_dist := td, t_node := tn, t_cores := tc\<rparr>) \<and>
    tables_ok k (a\<lparr>a_at := Scan i e s, t_dist := td, t_node := tn, t_cores := tc\<rparr>)"
proof -
  from assms(1) have t: "dist_agrees (machine k) (t_dist a)" "node_agrees (machine k) (t_node a)"
    "cores_agrees (machine k) (t_cores a)" by (simp_all add: tables_ok_def)
  obtain tn where tn: "node_of_core (machine k) (a_c a) (t_node a) = Some (m, tn)" "node_agrees (machine k) tn"
    using nt.get_some [OF t(2) assms(3)] by blast
  obtain td where td: "nearest (machine k) (a_mems a) m [0..<nnodes k] (UMAX, UMAX) (t_dist a) = Some ((d, i), td)"
    "dist_agrees (machine k) td"
    using nr.get_some [OF t(1), of "(a_mems a, m, [0..<nnodes k])" "(d, i)"] assms(4) by auto
  obtain tc where tc: "cores_of_node (machine k) i (t_cores a) = Some ((s, e), tc)" "cores_agrees (machine k) tc"
    using ct.get_some [OF t(3) assms(6)] by blast
  show ?thesis
    by (intro exI [of _ td] exI [of _ tn] exI [of _ tc])
      (use assms(2,5) tn td tc in \<open>simp add: alloc_step_def search_step_def tables_ok_def\<close>)
qed

text \<open>
  A search that leads to a node without a core to pick is repeated for ever: the node is not
  marked as visited, and the core the search starts from stays the same.
\<close>

lemma search_stuck:
  assumes k: "stride_ok k" and a: "tables_ok k a" "a_at a = Search"
    and m: "node_value (machine k) (a_c a) = Some m"
    and i: "nearest_value (machine k) (a_mems a) m [0..<nnodes k] (UMAX, UMAX) = Some (d, i)" "i \<noteq> UMAX"
    and se: "cores_value (machine k) i = Some (s, e)"
    and none: "\<And>j. s + j * stride k \<le> e \<Longrightarrow> \<not> CPU_ISSET_S (s + j * stride k) (masksize k) (a_avail a)"
  shows "alloc_loop k a = None"
proof (rule loop_stuck [where S = "{b. tables_ok k b \<and> a_c b = a_c a \<and> a_mems b = a_mems a \<and> a_avail b = a_avail a \<and>
    (a_at b = Search \<or> (\<exists>j. a_at b = Scan i e (s + j * stride k)))}"])
  fix b
  assume "b \<in> {b. tables_ok k b \<and> a_c b = a_c a \<and> a_mems b = a_mems a \<and> a_avail b = a_avail a \<and>
    (a_at b = Search \<or> (\<exists>j. a_at b = Scan i e (s + j * stride k)))}" (is "_ \<in> ?S")
  then have b: "tables_ok k b" "a_c b = a_c a" "a_mems b = a_mems a" "a_avail b = a_avail a" and
    at: "a_at b = Search \<or> (\<exists>j. a_at b = Scan i e (s + j * stride k))" by auto
  show "\<exists>b'\<in>?S. alloc_step k b = Next b'"
  proof (cases "a_at b = Search")
    case True
    from search_by_files [OF b(1) True, of m d i s e] m i se obtain td tn tc where
      "alloc_step k b = Next (b\<lparr>a_at := Scan i e s, t_dist := td, t_node := tn, t_cores := tc\<rparr>)"
      "tables_ok k (b\<lparr>a_at := Scan i e s, t_dist := td, t_node := tn, t_cores := tc\<rparr>)" unfolding b(2,3) by blast
    moreover from this(2) have "b\<lparr>a_at := Scan i e s, t_dist := td, t_node := tn, t_cores := tc\<rparr> \<in> ?S"
      using b by (auto intro: exI [of _ 0])
    ultimately show ?thesis by blast
  next
    case False
    with at obtain j where j: "a_at b = Scan i e (s + j * stride k)" by auto
    show ?thesis
    proof (cases "s + j * stride k \<le> e")
      case True
      have "alloc_step k b = Next (b\<lparr>a_at := Scan i e (s + j * stride k + stride k)\<rparr>)"
        using none [OF True] True scan_place [OF k se _ True] by (simp add: alloc_step_def j scan_step_def b)
      moreover have "b\<lparr>a_at := Scan i e (s + j * stride k + stride k)\<rparr> \<in> ?S"
        using b by (auto simp: tables_ok_def intro: exI [of _ "Suc j"])
      ultimately show ?thesis by blast
    next
      case False
      have "alloc_step k b = Next (b\<lparr>a_at := Search\<rparr>)" using False by (simp add: alloc_step_def j scan_step_def)
      moreover have "b\<lparr>a_at := Search\<rparr> \<in> ?S" using b by (auto simp: tables_ok_def)
      ultimately show ?thesis by blast
    qed
  qed
qed (use a in auto)

section \<open>A machine of three nodes\<close>

text \<open>Three nodes of two cores, all at the same distance.\<close>

definition line :: "string \<Rightarrow> string option" where "line s = Some (s @ [CHR 0x0A])"

definition demo_files :: sysfs where
  "demo_files =
     \<lparr>distance_file = (\<lambda>n. line (if n = 0 then ''10 20 20'' else if n = 1 then ''20 10 20'' else ''20 20 10'')),
      cpu_entries = (\<lambda>c. Some [''topology'', if c < 2 then ''node0'' else if c < 4 then ''node1'' else ''node2'']),
      cpulist_file = (\<lambda>n. line (if n = 0 then ''0-1'' else if n = 1 then ''2-3'' else ''4-5''))\<rparr>"

definition demo_config :: "nat \<Rightarrow> nat \<Rightarrow> config" where
  "demo_config st req = \<lparr>machine = demo_files, masksize = 8, nnodes = 3, stride = st, req_cores = req\<rparr>"

lemmas read_literal =
  strtoul_def sign_of_def digits_value_def isspace_def isdigit_def strtol10_def signed_digits_def atoi_def

lemma demo_ranges: "cores_value demo_files 0 = Some (0, 1)" "cores_value demo_files 1 = Some (2, 3)"
  "cores_value demo_files 2 = Some (4, 5)"
  by (simp_all add: cores_value_def read_cpulist_def demo_files_def line_def read_buf_def read_literal MAXNODES_def)

lemma demo_nodes: "c < 6 \<Longrightarrow> node_value demo_files c = Some (c div 2)"
proof -
  assume "c < 6"
  then consider "c \<in> {0, 1}" | "c \<in> {2, 3}" | "c \<in> {4, 5}" by fastforce
  then show ?thesis
    by cases (auto simp: node_value_def demo_files_def read_literal MAXNODES_def)
qed

lemma demo_rows: "read_row demo_files 0 = Some [10, 20, 20]" "read_row demo_files 1 = Some [20, 10, 20]"
  "read_row demo_files 2 = Some [20, 20, 10]"
  by (simp_all add: read_row_def demo_files_def line_def read_buf_def dist_row.simps read_literal)

lemma demo_dist: "m < 3 \<Longrightarrow> n < 3 \<Longrightarrow> dist_value demo_files (m, n) = Some (if m = n then 10 else 20)"
proof -
  assume "m < 3" "n < 3"
  then have "m \<in> {0, 1, 2}" "n \<in> {0, 1, 2}" by auto
  then show ?thesis by (auto simp: dist_value_def demo_rows simp del: One_nat_def)
qed

lemma demo_config_simps [simp]: "machine (demo_config st req) = demo_files" "masksize (demo_config st req) = 8"
  "nnodes (demo_config st req) = 3" "stride (demo_config st req) = st" "req_cores (demo_config st req) = req"
  by (simp_all add: demo_config_def)

lemma demo_range:
  assumes "n < 3"
  shows "cores_value demo_files n = Some (2 * n, 2 * n + 1)"
proof -
  from assms consider "n = 0" | "n = 1" | "n = 2" by linarith
  then show ?thesis by cases (simp_all add: demo_ranges [unfolded One_nat_def])
qed

lemma demo_machine_ok:
  assumes A: "A \<subseteq> {..<6}"
  shows "machine_ok (demo_config st req) A"
proof -
  have "\<exists>n<3. c \<in> node_range (demo_config st req) n" if "c \<in> A" for c
    using that A by (intro exI [of _ "c div 2"]) (auto simp: node_range_def demo_range)
  then show ?thesis
    by (auto simp: machine_ok_def demo_dist demo_range node_range_def demo_nodes MAXNODES_def)
qed

lemma demo_reach: "n < 3 \<Longrightarrow> reach (demo_config 1 req) {..<6} n = {2 * n, 2 * n + 1}"
  by (auto simp: reach_def demo_range div_less_iff_less_mult le_iff_add)

section \<open>Properties\<close>

text \<open>
  C10: When \<open>allocate\<close> returns, it has picked exactly the number of cores asked for, all of
  them available before and none of them afterwards; every core picked lies on a node of the
  set of memory nodes, and every node of that set has a core picked. The stride is one the
  core numbers do not wrap with.
\<close>

theorem allocate_safe:
  assumes "stride_ok k" "allocate k A = Some (Some a)"
  shows "card (a_cores a) = req_cores k \<and> a_cores a \<subseteq> A \<and> a_avail a = A - a_cores a \<and>
    a_cores a \<subseteq> (\<Union>n\<in>a_mems a. node_range k n) \<and> (\<forall>n\<in>a_mems a. a_cores a \<inter> node_range k n \<noteq> {})"
  using allocate_picked [OF assms] by (auto simp: picked_ok_def)

text \<open>
  C9: \<open>allocate\<close> returns with the cores when every node has an available core that the stride
  reaches, the reachable cores of all nodes suffice, and the files of the machine are sound:
  distances for all nodes, ranges of cores that the cores' own directories confirm.
\<close>

theorem allocate_returns:
  assumes "stride_ok k" "machine_ok k A" "\<forall>n<nnodes k. reach k A n \<noteq> {}"
    "0 < req_cores k" "req_cores k \<le> card (\<Union>n<nnodes k. reach k A n)"
  shows "\<exists>a. allocate k A = Some (Some a)"
  using assms by (rule allocate_some)

lemma demo_premises:
  "stride_ok (demo_config 1 5)" "\<forall>n<nnodes (demo_config 1 5). reach (demo_config 1 5) {..<6} n \<noteq> {}"
  "0 < req_cores (demo_config 1 5)"
  "req_cores (demo_config 1 5) \<le> card (\<Union>n<nnodes (demo_config 1 5). reach (demo_config 1 5) {..<6} n)"
proof -
  show "stride_ok (demo_config 1 5)" "0 < req_cores (demo_config 1 5)" by (simp_all add: stride_ok_def)
  show "\<forall>n<nnodes (demo_config 1 5). reach (demo_config 1 5) {..<6} n \<noteq> {}" by (simp add: demo_reach del: One_nat_def)
  have "(\<Union>n<3. reach (demo_config 1 5) {..<6} n) = {..<6}"
    by (auto simp: demo_reach numeral_3_eq_3 lessThan_Suc simp del: One_nat_def)
  then show "req_cores (demo_config 1 5) \<le> card (\<Union>n<nnodes (demo_config 1 5). reach (demo_config 1 5) {..<6} n)"
    by (simp del: One_nat_def)
qed

lemma allocate_returns_witness: "\<exists>a. allocate (demo_config 1 5) {..<6} = Some (Some a)"
  by (rule allocate_returns [OF demo_premises(1) demo_machine_ok demo_premises(2-4)]) simp

lemma allocate_safe_witness:
  "\<exists>a. allocate (demo_config 1 5) {..<6} = Some (Some a) \<and> card (a_cores a) = 5 \<and> a_avail a = {..<6} - a_cores a"
proof -
  obtain a where a: "allocate (demo_config 1 5) {..<6} = Some (Some a)"
    using allocate_some [OF demo_premises(1) demo_machine_ok demo_premises(2-4)] by auto
  with allocate_safe [OF demo_premises(1) a] show ?thesis by (auto simp: demo_config_def)
qed

text \<open>
  \<open>allocate\<close> never returns when the node nearest to the lowest available core has no
  available core the stride comes to: the node is searched again and again.
\<close>

theorem allocate_hangs:
  assumes "stride_ok k" "lowest_free (masksize k) A 0 = Some c" "node_value (machine k) c = Some m"
    "nearest_value (machine k) {} m [0..<nnodes k] (UMAX, UMAX) = Some (d, i)" "i \<noteq> UMAX"
    "cores_value (machine k) i \<noteq> None" "reach k A i = {}"
  shows "allocate k A = None"
proof -
  from assms(6) obtain s e where se: "cores_value (machine k) i = Some (s, e)" by auto
  have "alloc_loop k (start_alloc A c) = None"
    by (rule search_stuck [OF assms(1), where i = i and s = s and e = e and m = m and d = d])
      (use start_alloc_inv [of k A c] assms(3-5,7) se in \<open>auto simp: alloc_inv_def start_alloc_def reach_def CPU_ISSET_S_def\<close>)
  with assms(2) show ?thesis by (simp add: allocate_def)
qed

lemma allocate_hangs_witness: "allocate (demo_config 2 1) {1, 3, 5} = None"
proof (rule allocate_hangs)
  show "stride_ok (demo_config 2 1)" by (simp add: stride_ok_def)
  show "lowest_free (masksize (demo_config 2 1)) {1, 3, 5} 0 = Some 1"
    by (simp add: lowest_free.simps CPU_ISSET_S_def)
  show "node_value (machine (demo_config 2 1)) 1 = Some 0" by (simp add: demo_nodes)
  show "nearest_value (machine (demo_config 2 1)) {} 0 [0..<nnodes (demo_config 2 1)] (UMAX, UMAX) = Some (10, 0)"
    by (simp add: upt_rec visited_def CPU_ISSET_S_def demo_dist UMAX_def)
  show "0 \<noteq> UMAX" by (simp add: UMAX_def)
  show "cores_value (machine (demo_config 2 1)) 0 \<noteq> None" by (simp add: demo_range)
  show "reach (demo_config 2 1) {1, 3, 5} 0 = {}" by (auto simp: reach_def demo_range)
qed

end
