(* ===== verification/Launcher.thy ===== *)
theory Launcher
  imports CpuAlloc "HOL-Library.Monad_Syntax"
begin

text \<open>
  \<open>numaplace/numaplace.cc\<close>: the options of the launcher, \<open>scan_cores\<close> (which cores are left
  by the launchers before), and the whole of \<open>main\<close> up to the start of the program: what it
  writes to the files of its cpuset. A run is followed by further runs, which read the texts
  of their predecessors.
\<close>

section \<open>Options\<close>

text \<open>
  What \<open>getopt_long\<close> hands out: an option and its argument. The short option \<open>-s\<close> is declared
  without an argument and \<open>-S\<close> not at all (\<open>"+c:svV"\<close>); the long options have theirs.
\<close>

record options =
  opt_cores :: nat
  opt_stride :: nat
  opt_spread :: bool
  opt_verbose :: bool

definition default_options :: options where
  "default_options = \<lparr>opt_cores = 0, opt_stride = 1, opt_spread = False, opt_verbose = False\<rparr>"

datatype parsed = Options options | Exit_with nat | Null_argument

text \<open>A number above 0, kept in an \<open>unsigned\<close>.\<close>

definition positive_arg :: "string \<Rightarrow> nat option" where
  "positive_arg s =
     (if snd (strtoul s) \<noteq> [] \<or> strtol10 s < 1 then None else Some (nat (strtol10 s) mod 2 ^ 32))"

definition short_option :: "char \<Rightarrow> bool option" where
  "short_option c =
     (if c = CHR ''c'' then Some True else if c \<in> {CHR ''s'', CHR ''v'', CHR ''V''} then Some False else None)"

definition use_option :: "char \<Rightarrow> string option \<Rightarrow> options \<Rightarrow> parsed" where
  "use_option c arg opts =
     (if c = CHR ''c'' then
        (case arg of None \<Rightarrow> Null_argument
         | Some s \<Rightarrow> (case positive_arg s of None \<Rightarrow> Exit_with 1 | Some v \<Rightarrow> Options (opts\<lparr>opt_cores := v\<rparr>)))
      else if c = CHR ''s'' then
        (case arg of None \<Rightarrow> Null_argument
         | Some s \<Rightarrow> (case positive_arg s of None \<Rightarrow> Exit_with 1 | Some v \<Rightarrow> Options (opts\<lparr>opt_stride := v\<rparr>)))
      else if c = CHR ''S'' then Options (opts\<lparr>opt_spread := True\<rparr>)
      else if c = CHR ''v'' then Options (opts\<lparr>opt_verbose := True\<rparr>)
      else if c = CHR ''V'' then Exit_with 0
      else Exit_with 1)"

fun use_options :: "(char \<times> string option) list \<Rightarrow> options \<Rightarrow> parsed" where
  "use_options [] opts = Options opts"
| "use_options ((c, arg) # cs) opts =
     (case use_option c arg opts of Options opts \<Rightarrow> use_options cs opts | r \<Rightarrow> r)"

section \<open>Which cores are left\<close>

text \<open>
  The files of the cpuset file system: the nodes and the cores of the parent, and the cores of
  each directory below it, in the order of the directory.
\<close>

record cgroup =
  mems_file :: "string option"
  cpus_file :: "string option"
  child_files :: "string option list"

definition nodes_of :: "string \<Rightarrow> nat" where
  "nodes_of t =
     (let b = butlast t;
          d = (case dropWhile (\<lambda>c. c \<noteq> CHR ''-'') b of [] \<Rightarrow> b | _ # q \<Rightarrow> q)
      in (atoi d + 1) mod 2 ^ 32)"

text \<open>
  The buffer of 64 bytes is not terminated after a read; the new line behind the list ends its
  parsing. Where the list is too long for the buffer to hold it, what follows the buffer is
  parsed as well: \<open>None\<close>.
\<close>

definition ended :: "string \<Rightarrow> bool" where
  "ended t \<longleftrightarrow> CHR 0x0A \<in> set t"

fun clear_used :: "nat \<Rightarrow> string option list \<Rightarrow> cpu_set \<Rightarrow> cpu_set option option" where
  "clear_used sz [] A = Some (Some A)"
| "clear_used sz (f # fs) A =
     (case read_buf 64 f of
        None \<Rightarrow> Some None
      | Some t \<Rightarrow>
          if \<not> ended t then None
          else (case string_to_mask op_clear sz t A of None \<Rightarrow> None | Some A \<Rightarrow> clear_used sz fs A))"

definition CPU_COUNT_S :: "nat \<Rightarrow> cpu_set \<Rightarrow> nat" where
  "CPU_COUNT_S sz A = length (filter (\<lambda>i. CPU_ISSET_S i sz A) [0..<sz * 8])"

text \<open>
  The available cores, the number of nodes and the number of cores to take. \<open>None\<close>: the program
  does not get past it, or reads behind its buffer; \<open>Some None\<close>: it exits.
\<close>

definition scan_cores :: "nat \<Rightarrow> nat \<Rightarrow> cgroup \<Rightarrow> (cpu_set \<times> nat \<times> nat) option option" where
  "scan_cores sz req g =
     (case read_buf 64 (mems_file g) of
        None \<Rightarrow> Some None
      | Some m \<Rightarrow>
        (case read_buf 64 (cpus_file g) of
           None \<Rightarrow> Some None
         | Some t \<Rightarrow>
           if \<not> ended t then None
           else (case string_to_mask op_set sz t {} of
              None \<Rightarrow> None
            | Some A \<Rightarrow>
              (case clear_used sz (child_files g) A of
                 None \<Rightarrow> None
               | Some None \<Rightarrow> Some None
               | Some (Some A) \<Rightarrow>
                   let count = CPU_COUNT_S sz A
                   in if count = 0 then Some None
                      else if req = 0 then Some (Some (A, nodes_of m, count))
                      else if count < req then Some None
                      else Some (Some (A, nodes_of m, req))))))"

section \<open>The program\<close>

text \<open>The cores picked, the nodes and the texts of both.\<close>

definition place_program :: "sysfs \<Rightarrow> nat \<Rightarrow> cgroup \<Rightarrow> options \<Rightarrow> (cpu_set \<times> string \<times> string) option option" where
  "place_program files ncores g opts =
     (let sz = CPU_ALLOC_SIZE ncores
      in case scan_cores sz (opt_cores opts) g of
           None \<Rightarrow> None
         | Some None \<Rightarrow> Some None
         | Some (Some (A, nodes, req)) \<Rightarrow>
           (case allocate \<lparr>machine = files, masksize = sz, nnodes = nodes, stride = opt_stride opts, req_cores = req\<rparr> A of
              None \<Rightarrow> None
            | Some None \<Rightarrow> Some None
            | Some (Some a) \<Rightarrow>
                Some (do { c \<leftarrow> list_add_cpus sz (a_cores a) ncores empty_list; ct \<leftarrow> list_str c;
                           m \<leftarrow> list_add_cpus sz (a_mems a) MAXNODES empty_list; mt \<leftarrow> list_str m;
                           Some (a_cores a, ct, mt) })))"

text \<open>
  What the program asks of the file system, in order; the answer is 0 or the error number.
  Every failure ends the program, except that a refusal of the cores other than \<open>EINVAL\<close> is
  passed over.
\<close>

datatype sys_step = Mkdir | Write string string

definition EINVAL :: nat where "EINVAL = 22"

fun perform :: "(sys_step \<Rightarrow> nat) \<Rightarrow> sys_step list \<Rightarrow> bool" where
  "perform answer [] = True"
| "perform answer (st # sts) =
     (let e = answer st
      in if e = 0 \<or> (\<exists>t. st = Write ''cpuset.cpus'' t) \<and> e \<noteq> EINVAL then perform answer sts else False)"

definition prepare_steps :: "string \<Rightarrow> sys_step list" where
  "prepare_steps agent =
     [Write ''release_agent'' agent, Mkdir, Write ''cpuset.cpu_exclusive'' ''1'', Write ''notify_on_release'' ''1'',
      Write ''cpuset.sched_load_balance'' ''1'', Write ''cpuset.sched_relax_domain_level'' ''0'']"

definition place_steps :: "nat \<Rightarrow> bool \<Rightarrow> string \<Rightarrow> string \<Rightarrow> sys_step list" where
  "place_steps pid spread ct mt =
     [Write ''cpuset.cpus'' ct, Write ''cpuset.mems'' mt, Write ''cpuset.memory_migrate'' ''1''] @
     (if spread then [Write ''cpuset.memory_spread_page'' ''1''] else []) @
     [Write ''tasks'' (show_u pid)]"

datatype run = Hangs | Exits | Crashes | Starts cpu_set "sys_step list"

definition numaplace :: "(sys_step \<Rightarrow> nat) \<Rightarrow> nat \<Rightarrow> string \<Rightarrow> nat \<Rightarrow> sysfs \<Rightarrow> cgroup \<Rightarrow> (char \<times> string option) list \<Rightarrow> run" where
  "numaplace answer pid agent ncores files g args =
     (case use_options args default_options of
        Null_argument \<Rightarrow> Crashes
      | Exit_with _ \<Rightarrow> Exits
      | Options opts \<Rightarrow>
          if \<not> (1 \<le> ncores \<and> ncores \<le> 8192) then Exits
          else (case place_program files ncores g opts of
                  None \<Rightarrow> Hangs
                | Some None \<Rightarrow> Exits
                | Some (Some (X, ct, mt)) \<Rightarrow>
                    let sts = prepare_steps agent @ place_steps pid (opt_spread opts) ct mt
                    in if perform answer sts then Starts X sts else Exits))"

section \<open>Runs one after the other\<close>

text \<open>
  Each program finds the cores of its predecessors in the files of their directories, as the
  text they wrote and a newline. The result has the cores and the text of each program.
\<close>

fun launches :: "sysfs \<Rightarrow> nat \<Rightarrow> cgroup \<Rightarrow> options list \<Rightarrow> (cpu_set \<times> string) list option" where
  "launches files ncores g [] = Some []"
| "launches files ncores g (opts # os) =
     (case place_program files ncores g opts of
        Some (Some (X, ct, mt)) \<Rightarrow>
          map_option ((#) (X, ct))
            (launches files ncores (g\<lparr>child_files := child_files g @ [Some (ct @ [CHR 0x0A])]\<rparr>) os)
      | _ \<Rightarrow> None)"

text \<open>The files of the directories stand for sets of cores.\<close>

definition stands_for :: "nat \<Rightarrow> string option list \<Rightarrow> cpu_set list \<Rightarrow> bool" where
  "stands_for sz fs Xs \<longleftrightarrow>
     list_all2 (\<lambda>f X. \<exists>t. read_buf 64 f = Some t \<and> ended t \<and> (\<forall>A. string_to_mask op_clear sz t A = Some (A - X))) fs Xs"

lemma clear_used_sets: "stands_for sz fs Xs \<Longrightarrow> clear_used sz fs A = Some (Some (A - \<Union> (set Xs)))"
proof (induction fs arbitrary: Xs A)
  case Nil
  then show ?case by (simp add: stands_for_def)
next
  case (Cons f fs)
  then obtain X Ys where "Xs = X # Ys" "stands_for sz fs Ys" and
    t: "\<exists>t. read_buf 64 f = Some t \<and> ended t \<and> (\<forall>A. string_to_mask op_clear sz t A = Some (A - X))"
    by (auto simp: stands_for_def list_all2_Cons1)
  with Cons.IH [of Ys "A - X"] show ?case by (auto simp: Diff_Un Diff_eq Int_assoc)
qed

lemma own_text_stands:
  assumes "ncores \<le> 6141" "X \<subseteq> {..<ncores}" "X \<noteq> {}"
    "list_add_cpus (CPU_ALLOC_SIZE ncores) X ncores empty_list = Some l" "list_str l = Some ct" "length ct < 64"
  shows "\<exists>t. read_buf 64 (Some (ct @ [CHR 0x0A])) = Some t \<and> ended t \<and>
    (\<forall>A. string_to_mask op_clear (CPU_ALLOC_SIZE ncores) t A = Some (A - X))"
proof -
  let ?sz = "CPU_ALLOC_SIZE ncores"
  have sz: "i div 8 < ?sz" if "i < ncores" for i using that by (simp add: CPU_ALLOC_SIZE_def)
  then have X: "{i \<in> X. i < ncores \<and> i div 8 < ?sz} = X" using assms(2) by auto
  have "string_to_mask op_clear ?sz (ct @ [CHR 0x0A]) A = Some (A - X)" for A
  proof -
    have "string_to_mask op_clear ?sz (ct @ [CHR 0x0A]) A = Some (mask_ops op_clear ?sz X A)"
      using cpuset_text_reads [OF assms(1), of "[CHR 0x0A]" ?sz X op_clear A] assms(3-5) unfolding X by simp
    also have "mask_ops op_clear ?sz X A = A - X" using sz assms(2) by (auto simp: mask_ops_def)
    finally show ?thesis .
  qed
  moreover have "read_buf 64 (Some (ct @ [CHR 0x0A])) = Some (ct @ [CHR 0x0A])" using assms(6) by (simp add: read_buf_def)
  moreover have "ended (ct @ [CHR 0x0A])" by (simp add: ended_def)
  ultimately show ?thesis by blast
qed

text \<open>The parent's file stands for the cores \<open>E\<close>.\<close>

definition parent_cores :: "nat \<Rightarrow> cgroup \<Rightarrow> cpu_set \<Rightarrow> bool" where
  "parent_cores ncores g E \<longleftrightarrow> E \<subseteq> {..<ncores} \<and>
     (\<exists>t. read_buf 64 (cpus_file g) = Some t \<and> string_to_mask op_set (CPU_ALLOC_SIZE ncores) t {} = Some E)"

definition sound_stride :: "options \<Rightarrow> bool" where
  "sound_stride opts \<longleftrightarrow> 0 < opt_stride opts \<and> opt_stride opts \<le> 2 ^ 32 - 2 ^ 16"

lemma scan_cores_avail:
  assumes "parent_cores ncores g E" "stands_for (CPU_ALLOC_SIZE ncores) (child_files g) Xs"
    "scan_cores (CPU_ALLOC_SIZE ncores) req0 g = Some (Some (A, nodes, req))"
  shows "A = E - \<Union> (set Xs)" "0 < req"
  using assms clear_used_sets [OF assms(2)]
  by (auto simp: scan_cores_def parent_cores_def Let_def split: option.splits if_splits)

lemma place_program_cores:
  assumes E: "parent_cores ncores g E" and Xs: "stands_for (CPU_ALLOC_SIZE ncores) (child_files g) Xs"
    and st: "sound_stride opts" and p: "place_program files ncores g opts = Some (Some (X, ct, mt))"
  shows "X \<subseteq> E - \<Union> (set Xs)" "X \<noteq> {}"
    "\<exists>l. list_add_cpus (CPU_ALLOC_SIZE ncores) X ncores empty_list = Some l \<and> list_str l = Some ct"
proof -
  let ?k = "\<lambda>nodes req. \<lparr>machine = files, masksize = CPU_ALLOC_SIZE ncores, nnodes = nodes, stride = opt_stride opts, req_cores = req\<rparr>"
  from p obtain A nodes req a c where
    sc: "scan_cores (CPU_ALLOC_SIZE ncores) (opt_cores opts) g = Some (Some (A, nodes, req))" and
    al: "allocate (?k nodes req) A = Some (Some a)" and X: "X = a_cores a" and
    c: "list_add_cpus (CPU_ALLOC_SIZE ncores) (a_cores a) ncores empty_list = Some c" "list_str c = Some ct"
    by (auto simp: place_program_def Let_def bind_eq_Some_conv split: option.splits prod.splits)
  have "stride_ok (?k nodes req)" using st by (simp add: stride_ok_def sound_stride_def)
  note pk = allocate_picked [OF this al]
  from pk scan_cores_avail [OF E Xs sc] X show "X \<subseteq> E - \<Union> (set Xs)" "X \<noteq> {}" by (auto simp: picked_ok_def)
  from c X show "\<exists>l. list_add_cpus (CPU_ALLOC_SIZE ncores) X ncores empty_list = Some l \<and> list_str l = Some ct" by blast
qed

lemma launches_cores:
  assumes "ncores \<le> 6141" "parent_cores ncores g E" "stands_for (CPU_ALLOC_SIZE ncores) (child_files g) Xs"
    "\<forall>opts\<in>set os. sound_stride opts" "launches files ncores g os = Some rs" "\<forall>r\<in>set rs. length (snd r) < 64"
  shows "sorted_wrt (\<lambda>p q. fst p \<inter> fst q = {}) rs \<and> (\<forall>r\<in>set rs. fst r \<noteq> {} \<and> fst r \<subseteq> E - \<Union> (set Xs))"
  using assms(2-)
proof (induction os arbitrary: g Xs rs)
  case Nil
  then show ?case by simp
next
  case (Cons opts os)
  from Cons.prems(4) obtain X ct mt rs' where p: "place_program files ncores g opts = Some (Some (X, ct, mt))" and
    rs: "rs = (X, ct) # rs'" and
    l: "launches files ncores (g\<lparr>child_files := child_files g @ [Some (ct @ [CHR 0x0A])]\<rparr>) os = Some rs'"
    by (auto split: option.splits)
  from Cons.prems(3) have st: "sound_stride opts" by simp
  note X = place_program_cores [OF Cons.prems(1,2) st p]
  from X(1) Cons.prems(1) have "X \<subseteq> {..<ncores}" by (auto simp: parent_cores_def)
  moreover from X(3) obtain cl where "list_add_cpus (CPU_ALLOC_SIZE ncores) X ncores empty_list = Some cl" "list_str cl = Some ct"
    by blast
  moreover have "length ct < 64" using Cons.prems(5) rs by simp
  ultimately have own: "stands_for (CPU_ALLOC_SIZE ncores) (child_files g @ [Some (ct @ [CHR 0x0A])]) (Xs @ [X])"
    using Cons.prems(2) own_text_stands [OF assms(1) _ X(2)]
    unfolding stands_for_def by (intro list_all2_appendI) simp_all
  have "sorted_wrt (\<lambda>p q. fst p \<inter> fst q = {}) rs' \<and> (\<forall>r\<in>set rs'. fst r \<noteq> {} \<and> fst r \<subseteq> E - \<Union> (set (Xs @ [X])))"
    by (rule Cons.IH [OF _ _ _ l]) (use Cons.prems rs own in \<open>auto simp: parent_cores_def\<close>)
  with X(1,2) show ?case by (auto simp: rs)
qed

section \<open>On the machine of three nodes\<close>

definition demo_cgroup :: "string option list \<Rightarrow> cgroup" where
  "demo_cgroup fs = \<lparr>mems_file = line ''0-2'', cpus_file = line ''0-5'', child_files = fs\<rparr>"

definition demo_options :: "nat \<Rightarrow> options" where
  "demo_options req = default_options\<lparr>opt_cores := req\<rparr>"

abbreviation cores_0_1 :: string where
  "cores_0_1 \<equiv> [CHR ''0'', CHR ''-'', CHR ''1'', CHR 0x0A]"

lemma demo_parent: "string_to_mask op_set 8 [CHR ''0'', CHR ''-'', CHR ''5'', CHR 0x0A] {} = Some {..<6}"
  by (auto simp: string_to_mask.simps read_literal UMAX_def mask_op_ops fold_mask_op mask_ops_def Let_def)

lemma demo_child: "string_to_mask op_clear 8 cores_0_1 A = Some (A - {0, 1})"
  by (auto simp: string_to_mask.simps read_literal UMAX_def mask_op_ops fold_mask_op mask_ops_def Let_def)

lemma demo_search:
  assumes "tables_ok (demo_config 1 req) a" "a_at a = Search" "a_c a < 6"
    "nearest_value demo_files (a_mems a) (a_c a div 2) [0..<3] (UMAX, UMAX) = Some (d, i)" "i < 3"
  shows "\<exists>td tn tc. alloc_loop (demo_config 1 req) a =
      alloc_loop (demo_config 1 req) (a\<lparr>a_at := Scan i (2 * i + 1) (2 * i), t_dist := td, t_node := tn, t_cores := tc\<rparr>) \<and>
    tables_ok (demo_config 1 req) (a\<lparr>a_at := Scan i (2 * i + 1) (2 * i), t_dist := td, t_node := tn, t_cores := tc\<rparr>)"
proof -
  have "i \<noteq> UMAX" using assms(5) by (simp add: UMAX_def)
  from search_by_files [of "demo_config 1 req", OF assms(1,2) _ _ this, of "a_c a div 2" d "2 * i" "2 * i + 1"] assms(3-5)
  obtain td tn tc where
    s: "alloc_step (demo_config 1 req) a =
      Next (a\<lparr>a_at := Scan i (2 * i + 1) (2 * i), t_dist := td, t_node := tn, t_cores := tc\<rparr>)"
    "tables_ok (demo_config 1 req) (a\<lparr>a_at := Scan i (2 * i + 1) (2 * i), t_dist := td, t_node := tn, t_cores := tc\<rparr>)"
    by (simp add: demo_nodes demo_range del: One_nat_def) blast
  show ?thesis
    by (intro exI [of _ td] exI [of _ tn] exI [of _ tc] conjI s(2)) (simp only: alloc_loop.simps [of _ a] s(1) outcome.case)
qed

text \<open>The scan of a node.\<close>

lemma demo_scan:
  assumes "a_at a = Scan i e off" "off < 6" "off \<in> a_avail a" "i < 3" "off \<le> e"
  shows "alloc_loop (demo_config 1 req) a =
    (let b = pick (demo_config 1 req) i off a
     in if a_done b = req then Some (Some b) else alloc_loop (demo_config 1 req) (b\<lparr>a_at := Scan i e (off + 1)\<rparr>))"
  using assms
  by (simp add: alloc_loop.simps [of _ a] alloc_step_def scan_step_def Let_def CPU_ISSET_S_def del: One_nat_def)

lemma demo_scan_end:
  "a_at a = Scan i e off \<Longrightarrow> e < off \<Longrightarrow>
    alloc_loop (demo_config 1 req) a = alloc_loop (demo_config 1 req) (a\<lparr>a_at := Search\<rparr>)"
  by (simp add: alloc_loop.simps [of _ a] alloc_step_def scan_step_def)

lemma demo_start_ok: "tables_ok k (start_alloc A c)"
  using start_alloc_inv [of k A c] by (simp add: alloc_inv_def)

lemma demo_first_free: "lowest_free 8 {..<6} 0 = Some 0" "lowest_free 8 {2, 3, 4, 5} 0 = Some 2"
  by (simp_all add: lowest_free.simps CPU_ISSET_S_def)

lemma demo_pick: "off < 6 \<Longrightarrow> i < 3 \<Longrightarrow> pick (demo_config 1 req) i off a =
    a\<lparr>a_cores := insert off (a_cores a), a_avail := a_avail a - {off}, a_mems := insert i (a_mems a), a_c := off,
      a_done := a_done a + 1\<rparr>"
  by (simp add: pick_def CPU_SET_S_def CPU_CLR_S_def CPU_ALLOC_SIZE_def MAXNODES_def)

lemma demo_nearest: "nearest_value demo_files {} m [0..<3] (UMAX, UMAX) = Some (10, m)" if "m < 3" for m
proof -
  have "m \<in> {0, 1, 2}" using that by auto
  then show ?thesis by (auto simp: upt_rec visited_def CPU_ISSET_S_def demo_dist UMAX_def simp del: One_nat_def)
qed

lemma demo_takes_node_0: "\<exists>a. allocate (demo_config 1 2) {..<6} = Some (Some a) \<and> a_cores a = {0, 1} \<and> a_mems a = {0}"
proof -
  from demo_search [of 2 "start_alloc {..<6} 0" 10 0] demo_start_ok demo_nearest [of 0] obtain td tn tc where
    "alloc_loop (demo_config 1 2) (start_alloc {..<6} 0) =
     alloc_loop (demo_config 1 2) ((start_alloc {..<6} 0)\<lparr>a_at := Scan 0 1 0, t_dist := td, t_node := tn, t_cores := tc\<rparr>)"
    by (auto simp: start_alloc_def simp del: One_nat_def)
  note first = this
  have "\<exists>a. alloc_loop (demo_config 1 2) (start_alloc {..<6} 0) = Some (Some a) \<and> a_cores a = {0, 1} \<and> a_mems a = {0}"
    unfolding first by (simp add: demo_scan demo_pick start_alloc_def Let_def insert_commute del: One_nat_def)
  then show ?thesis by (simp add: allocate_def demo_first_free)
qed

lemma demo_needs_node_0: "allocate (demo_config 1 4) {2, 3, 4, 5} = None"
proof -
  let ?k = "demo_config 1 4" and ?a = "start_alloc {2, 3, 4, 5} 2"
  from demo_search [of 4 ?a 10 1] demo_start_ok [of ?k] demo_nearest [of 1] obtain td tn tc where
    first: "alloc_loop ?k ?a = alloc_loop ?k (?a\<lparr>a_at := Scan 1 3 2, t_dist := td, t_node := tn, t_cores := tc\<rparr>)" and
    ok: "tables_ok ?k (?a\<lparr>a_at := Scan 1 3 2, t_dist := td, t_node := tn, t_cores := tc\<rparr>)"
    by (auto simp: start_alloc_def simp del: One_nat_def)
  let ?b = "?a\<lparr>a_at := Search, a_cores := {2, 3}, a_avail := {4, 5}, a_mems := {1}, a_c := 3, a_done := 2,
    t_dist := td, t_node := tn, t_cores := tc\<rparr>"
  have "{2, 3, 4, 5} - {2} - {3} = {4, 5 :: nat}" by auto
  then have "alloc_loop ?k ?a = alloc_loop ?k ?b"
    unfolding first by (simp add: demo_scan demo_scan_end demo_pick start_alloc_def insert_commute Let_def del: One_nat_def)
  also have "alloc_loop ?k ?b = None"
  proof (rule search_stuck [where m = 1 and d = 20 and i = 0 and s = 0 and e = 1])
    show "tables_ok ?k ?b" using ok by (simp add: tables_ok_def)
    show "nearest_value (machine ?k) (a_mems ?b) 1 [0..<nnodes ?k] (UMAX, UMAX) = Some (20, 0)"
      by (simp add: upt_rec visited_def CPU_ISSET_S_def demo_dist UMAX_def CPU_ALLOC_SIZE_def MAXNODES_def del: One_nat_def)
  qed (simp_all add: stride_ok_def demo_nodes demo_range UMAX_def CPU_ISSET_S_def del: One_nat_def)
  finally show ?thesis by (simp add: allocate_def demo_first_free)
qed

lemma demo_takes_node_1: "\<exists>a. allocate (demo_config 1 2) {2, 3, 4, 5} = Some (Some a) \<and> a_cores a = {2, 3} \<and> a_mems a = {1}"
proof -
  from demo_search [of 2 "start_alloc {2, 3, 4, 5} 2" 10 1] demo_start_ok demo_nearest [of 1] obtain td tn tc where first:
    "alloc_loop (demo_config 1 2) (start_alloc {2, 3, 4, 5} 2) =
     alloc_loop (demo_config 1 2) ((start_alloc {2, 3, 4, 5} 2)\<lparr>a_at := Scan 1 3 2, t_dist := td, t_node := tn, t_cores := tc\<rparr>)"
    by (auto simp: start_alloc_def simp del: One_nat_def)
  have "\<exists>a. alloc_loop (demo_config 1 2) (start_alloc {2, 3, 4, 5} 2) = Some (Some a) \<and> a_cores a = {2, 3} \<and> a_mems a = {1}"
    unfolding first by (simp add: demo_scan demo_pick start_alloc_def Let_def insert_commute del: One_nat_def)
  then show ?thesis by (simp add: allocate_def demo_first_free)
qed

lemma demo_config_eq:
  "\<lparr>machine = demo_files, masksize = 8, nnodes = 3, stride = st, req_cores = req\<rparr> = demo_config st req"
  by (simp add: demo_config_def)

lemma demo_options [simp]: "opt_cores (demo_options req) = req" "opt_stride (demo_options req) = 1"
  by (simp_all add: demo_options_def default_options_def)

lemma demo_count: "CPU_COUNT_S 8 {..<6} = 6" "CPU_COUNT_S 8 {2, 3, 4, 5} = 4"
  by (simp_all add: CPU_COUNT_S_def CPU_ISSET_S_def upt_rec)

lemma demo_less: "{..<6} - {0, Suc 0} = {2, 3, 4, 5}" by auto

lemma demo_scan_cores:
  assumes "0 < req" "req \<le> 4"
  shows "scan_cores 8 req (demo_cgroup []) = Some (Some ({..<6}, 3, req))"
    "scan_cores 8 req (demo_cgroup [Some cores_0_1]) = Some (Some ({2, 3, 4, 5}, 3, req))"
proof -
  have n: "nodes_of [CHR ''0'', CHR ''-'', CHR ''2'', CHR 0x0A] = 3" by (simp add: nodes_of_def read_literal)
  show "scan_cores 8 req (demo_cgroup []) = Some (Some ({..<6}, 3, req))"
    "scan_cores 8 req (demo_cgroup [Some cores_0_1]) = Some (Some ({2, 3, 4, 5}, 3, req))"
    using assms by (simp_all add: scan_cores_def demo_cgroup_def line_def read_buf_def ended_def demo_parent demo_child demo_less
        demo_count n Let_def)
qed

lemma filter_upt_eq:
  assumes "sorted xs" "distinct xs" "set xs = {i. i < n \<and> P i}"
  shows "filter P [0..<n] = xs"
  by (rule sorted_distinct_set_unique) (use assms in \<open>auto simp: sorted_wrt_filter\<close>)

lemma text_of_one:
  assumes "filter (\<lambda>i. CPU_ISSET_S i sz A) [0..<lim] = [a]" "a < 10"
  shows "\<exists>l. list_add_cpus sz A lim empty_list = Some l \<and> list_str l = Some [digit_char a]"
  unfolding list_add_cpus_def assms(1)
  using assms(2) by (simp add: list_add_def empty_list_def list_str_def UMAX_def range_str_def show_u.simps [of a])

lemma text_of_two:
  assumes "filter (\<lambda>i. CPU_ISSET_S i sz A) [0..<lim] = [a, b]" "b = a + 1" "b < 10"
  shows "\<exists>l. list_add_cpus sz A lim empty_list = Some l \<and> list_str l = Some [digit_char a, CHR ''-'', digit_char b]"
  unfolding list_add_cpus_def assms(1)
  using assms(2,3) by (simp add: list_add_def empty_list_def list_str_def UMAX_def range_str_def
      show_u.simps [of a] show_u.simps [of "Suc a"])

lemma demo_texts: "\<exists>l. list_add_cpus 8 {0, 1} 6 empty_list = Some l \<and> list_str l = Some ''0-1''"
  "\<exists>l. list_add_cpus 8 {2, 3} 6 empty_list = Some l \<and> list_str l = Some ''2-3''"
  "\<exists>l. list_add_cpus 8 {0} MAXNODES empty_list = Some l \<and> list_str l = Some ''0''"
  "\<exists>l. list_add_cpus 8 {1} MAXNODES empty_list = Some l \<and> list_str l = Some ''1''"
proof -
  have f: "filter (\<lambda>i. CPU_ISSET_S i 8 {0, 1}) [0..<6] = [0, 1]" "filter (\<lambda>i. CPU_ISSET_S i 8 {2, 3}) [0..<6] = [2, 3]"
    "filter (\<lambda>i. CPU_ISSET_S i 8 {0}) [0..<MAXNODES] = [0]" "filter (\<lambda>i. CPU_ISSET_S i 8 {1}) [0..<MAXNODES] = [1]"
    by (rule filter_upt_eq; force simp: CPU_ISSET_S_def MAXNODES_def)+
  have d: "digit_char 0 = CHR ''0''" "digit_char 1 = CHR ''1''" "digit_char 2 = CHR ''2''" "digit_char 3 = CHR ''3''"
    by code_simp+
  show "\<exists>l. list_add_cpus 8 {0, 1} 6 empty_list = Some l \<and> list_str l = Some ''0-1''"
    "\<exists>l. list_add_cpus 8 {2, 3} 6 empty_list = Some l \<and> list_str l = Some ''2-3''"
    "\<exists>l. list_add_cpus 8 {0} MAXNODES empty_list = Some l \<and> list_str l = Some ''0''"
    "\<exists>l. list_add_cpus 8 {1} MAXNODES empty_list = Some l \<and> list_str l = Some ''1''"
    using text_of_two [OF f(1)] text_of_two [OF f(2)] text_of_one [OF f(3)] text_of_one [OF f(4)]
    by (simp_all add: d d [unfolded One_nat_def])
qed

lemma place_program_run:
  assumes "CPU_ALLOC_SIZE ncores = sz" "scan_cores sz (opt_cores opts) g = Some (Some (A, nodes, req))"
    "allocate \<lparr>machine = files, masksize = sz, nnodes = nodes, stride = opt_stride opts, req_cores = req\<rparr> A = Some (Some a)"
    "\<exists>l. list_add_cpus sz (a_cores a) ncores empty_list = Some l \<and> list_str l = Some ct"
    "\<exists>l. list_add_cpus sz (a_mems a) MAXNODES empty_list = Some l \<and> list_str l = Some mt"
  shows "place_program files ncores g opts = Some (Some (a_cores a, ct, mt))"
  using assms by (auto simp: place_program_def)

lemma demo_size: "CPU_ALLOC_SIZE 6 = 8" by (simp add: CPU_ALLOC_SIZE_def)

lemma demo_launch:
  assumes "scan_cores 8 req (demo_cgroup fs) = Some (Some (A, 3, req))"
    "\<exists>a. allocate (demo_config 1 req) A = Some (Some a) \<and> a_cores a = X \<and> a_mems a = M"
    "\<exists>l. list_add_cpus 8 X 6 empty_list = Some l \<and> list_str l = Some ct"
    "\<exists>l. list_add_cpus 8 M MAXNODES empty_list = Some l \<and> list_str l = Some mt"
  shows "place_program demo_files 6 (demo_cgroup fs) (demo_options req) = Some (Some (X, ct, mt))"
proof -
  from assms(2) obtain a where a: "allocate (demo_config 1 req) A = Some (Some a)" "X = a_cores a" "M = a_mems a" by auto
  have "scan_cores 8 (opt_cores (demo_options req)) (demo_cgroup fs) = Some (Some (A, 3, req))" using assms(1) by simp
  moreover have "allocate \<lparr>machine = demo_files, masksize = 8, nnodes = 3, stride = opt_stride (demo_options req),
      req_cores = req\<rparr> A = Some (Some a)"
    unfolding demo_options demo_config_eq by (rule a(1))
  ultimately show ?thesis unfolding a(2) using assms(3,4) unfolding a(2,3) by (rule place_program_run [OF demo_size])
qed

lemma demo_first_launch:
  "place_program demo_files 6 (demo_cgroup []) (demo_options 2) = Some (Some ({0, 1}, ''0-1'', ''0''))"
  by (rule demo_launch [OF demo_scan_cores(1) demo_takes_node_0 demo_texts(1,3)]) simp_all

lemma demo_second_launch:
  "place_program demo_files 6 (demo_cgroup [Some cores_0_1]) (demo_options 2) = Some (Some ({2, 3}, ''2-3'', ''1''))"
  by (rule demo_launch [OF demo_scan_cores(2) demo_takes_node_1 demo_texts(2,4)]) simp_all

lemma demo_second_hangs: "place_program demo_files 6 (demo_cgroup [Some cores_0_1]) (demo_options 4) = None"
  unfolding place_program_def demo_size Let_def
  by (simp add: demo_scan_cores(2) demo_config_eq demo_needs_node_0 del: One_nat_def)

lemma demo_cgroup_simps [simp]: "child_files (demo_cgroup fs) = fs"
  "(demo_cgroup fs)\<lparr>child_files := fs'\<rparr> = demo_cgroup fs'"
  by (simp_all add: demo_cgroup_def)

section \<open>Properties\<close>

text \<open>
  C7: Programs started one after the other on a cpuset file system without directories get cores
  of their own: each a non-empty set of cores of the parent, disjoint from the sets of all
  others. The conditions: at most 6141 cores, strides between 1 and \<open>2 ^ 32 - 2 ^ 16\<close>, and
  texts of the sets of at most 63 characters, which fit the buffer they are read into.
\<close>

theorem launches_apart:
  assumes "ncores \<le> 6141" "parent_cores ncores g E" "child_files g = []"
    "\<forall>opts\<in>set os. sound_stride opts" "launches files ncores g os = Some rs" "\<forall>r\<in>set rs. length (snd r) < 64"
  shows "sorted_wrt (\<lambda>p q. fst p \<inter> fst q = {}) rs \<and> (\<forall>r\<in>set rs. fst r \<noteq> {} \<and> fst r \<subseteq> E)"
proof -
  have "stands_for (CPU_ALLOC_SIZE ncores) (child_files g) []" using assms(3) by (simp add: stands_for_def)
  from launches_cores [OF assms(1,2) this assms(4-6)] show ?thesis by simp
qed

lemma launches_apart_witness:
  "launches demo_files 6 (demo_cgroup []) [demo_options 2, demo_options 2] = Some [({0, 1}, ''0-1''), ({2, 3}, ''2-3'')] \<and>
   {0, 1} \<inter> {2, 3 :: nat} = {} \<and> {0, 1} \<subseteq> {..<6 :: nat} \<and> {2, 3} \<subseteq> {..<6 :: nat}"
proof -
  have l: "launches demo_files 6 (demo_cgroup []) [demo_options 2, demo_options 2] = Some [({0, 1}, ''0-1''), ({2, 3}, ''2-3'')]"
    by (simp add: demo_first_launch demo_second_launch)
  have p: "parent_cores 6 (demo_cgroup []) {..<6}"
    by (simp add: parent_cores_def demo_cgroup_def read_buf_def line_def demo_parent CPU_ALLOC_SIZE_def)
  have "sorted_wrt (\<lambda>p q. fst p \<inter> fst q = {}) [({0 :: nat, 1}, ''0-1''), ({2, 3}, ''2-3'')] \<and>
     (\<forall>r\<in>set [({0 :: nat, 1}, ''0-1''), ({2, 3}, ''2-3'')]. fst r \<noteq> {} \<and> fst r \<subseteq> {..<6})"
    by (rule launches_apart [OF _ p _ _ l]) (simp_all add: sound_stride_def)
  with l show ?thesis by simp
qed

text \<open>
  A second program can be kept from ever starting by a first: on three nodes of two cores
  at equal distances, the first takes both cores of node 0, and the second, asking for the
  four cores that are left, takes those of node 1 and then searches node 0 for ever, since it
  has the lowest number among the nearest nodes it has not picked from.
\<close>

theorem second_program_hangs:
  "launches demo_files 6 (demo_cgroup []) [demo_options 2] = Some [({0, 1}, ''0-1'')] \<and>
   scan_cores (CPU_ALLOC_SIZE 6) 4 (demo_cgroup [Some cores_0_1]) = Some (Some ({2, 3, 4, 5}, 3, 4)) \<and>
   numaplace answer pid agent 6 demo_files (demo_cgroup [Some cores_0_1]) [(CHR ''c'', Some ''4'')] = Hangs"
proof -
  have o: "use_options [(CHR ''c'', Some ''4'')] default_options = Options (demo_options 4)"
    by (simp add: use_option_def positive_arg_def read_literal default_options_def demo_options_def)
  have "numaplace answer pid agent 6 demo_files (demo_cgroup [Some cores_0_1]) [(CHR ''c'', Some ''4'')] = Hangs"
    unfolding numaplace_def o parsed.case demo_second_hangs by simp
  then show ?thesis by (simp add: demo_first_launch demo_size demo_scan_cores(2))
qed

text \<open>
  When the program is started, \<open>cpuset.cpus\<close> was given the text of exactly the cores picked
  and every step of the configuration, with the launcher's process as the last, succeeded, or
  was the refusal of the cores with another error than \<open>EINVAL\<close>.
\<close>

theorem started_program_is_placed:
  assumes "numaplace answer pid agent ncores files g args = Starts X sts"
  shows "\<exists>opts ct mt. use_options args default_options = Options opts \<and>
    place_program files ncores g opts = Some (Some (X, ct, mt)) \<and>
    sts = prepare_steps agent @ place_steps pid (opt_spread opts) ct mt \<and> 1 \<le> ncores \<and> ncores \<le> 8192 \<and>
    (\<forall>st\<in>set sts. answer st = 0 \<or> st = Write ''cpuset.cpus'' ct \<and> answer st \<noteq> EINVAL)"
proof -
  from assms obtain opts ct mt where o: "use_options args default_options = Options opts" "1 \<le> ncores" "ncores \<le> 8192"
    and p: "place_program files ncores g opts = Some (Some (X, ct, mt))"
    and sts: "sts = prepare_steps agent @ place_steps pid (opt_spread opts) ct mt" "perform answer sts"
    by (auto simp: numaplace_def Let_def split: parsed.splits option.splits if_splits)
  have "\<forall>st\<in>set xs. answer st = 0 \<or> (\<exists>t. st = Write ''cpuset.cpus'' t) \<and> answer st \<noteq> EINVAL" if "perform answer xs" for xs
    using that by (induction xs) (auto simp: Let_def split: if_splits)
  from this [OF sts(2)] have "\<forall>st\<in>set sts. answer st = 0 \<or> st = Write ''cpuset.cpus'' ct \<and> answer st \<noteq> EINVAL"
    by (auto simp: sts(1) prepare_steps_def place_steps_def)
  with o p sts(1) show ?thesis by blast
qed

end
