(* ===== verification/PlaceTable.thy ===== *)
theory PlaceTable
  imports Locks CpuLists
begin

text \<open>
  \<open>numaplace/libnumaplace.c\<close>: the table in shared memory that lists the processes using the
  library. Its lock holds the process id of the holder; a process that finds the holder dead
  clears the lock. The lock comes first, as moves of single processes and as a lock of the
  common interface, then the operations on the table, run by one process at a time.
\<close>

section \<open>The lock\<close>

text \<open>
  What \<open>kill\<close> with the signal 0 says of a process: it exists, it does not (\<open>ESRCH\<close>), or the caller
  may not signal it (\<open>EPERM\<close>: it exists, and belongs to another user). The code asserts that
  it does not fail in the last way; the assertion ends the process.
\<close>

datatype kill_result = Exists | ESRCH | EPERM

text \<open>
  Where a process stands in \<open>table_lock\<close>: at the compare-and-swap, at \<open>kill\<close> with the holder
  it saw, at the store that clears the lock, past the function, or ended by the assertion.
\<close>

datatype t_place = Outside | At_cas | At_kill nat | At_clear | Inside | Aborted

record tlock =
  t_word :: nat
  t_at :: "nat \<Rightarrow> t_place"

definition table_start :: tlock where
  "table_start = \<lparr>t_word = 0, t_at = (\<lambda>_. Outside)\<rparr>"

definition table_enter :: "nat \<Rightarrow> tlock \<Rightarrow> tlock" where
  "table_enter p l = l\<lparr>t_at := (t_at l)(p := At_cas)\<rparr>"

definition table_cas :: "nat \<Rightarrow> tlock \<Rightarrow> tlock" where
  "table_cas p l =
     (if t_word l = 0 then l\<lparr>t_word := p, t_at := (t_at l)(p := Inside)\<rparr>
      else l\<lparr>t_at := (t_at l)(p := At_kill (t_word l))\<rparr>)"

definition table_kill :: "(nat \<Rightarrow> kill_result) \<Rightarrow> nat \<Rightarrow> tlock \<Rightarrow> tlock" where
  "table_kill kill p l =
     (case t_at l p of
        At_kill v \<Rightarrow> l\<lparr>t_at := (t_at l)(p := case kill v of Exists \<Rightarrow> At_cas | ESRCH \<Rightarrow> At_clear | EPERM \<Rightarrow> Aborted)\<rparr>
      | _ \<Rightarrow> l)"

definition table_clear :: "nat \<Rightarrow> tlock \<Rightarrow> tlock" where
  "table_clear p l = l\<lparr>t_word := 0, t_at := (t_at l)(p := At_cas)\<rparr>"

definition table_unlock :: "nat \<Rightarrow> tlock \<Rightarrow> tlock" where
  "table_unlock p l = l\<lparr>t_word := 0, t_at := (t_at l)(p := Outside)\<rparr>"

lemmas table_defs = table_start_def table_enter_def table_cas_def table_kill_def table_clear_def table_unlock_def

text \<open>
  With no process dying and all of one user, \<open>kill\<close> changes nothing and a turn of the loop is the compare-and-swap
  alone: a lock of the common interface. Process ids are not 0.
\<close>

definition table_phase :: "tlock \<Rightarrow> nat \<Rightarrow> phase" where
  "table_phase l p = (case t_at l p of Outside \<Rightarrow> Out | Inside \<Rightarrow> In | _ \<Rightarrow> Trying)"

definition table_impl :: "tlock lock_impl" where
  "table_impl = \<lparr>lk_init = table_start, lk_acquire = table_enter, lk_spin = (\<lambda>p l. table_kill (\<lambda>_. Exists) p (table_cas p l)),
     lk_release = table_unlock, lk_phase = table_phase\<rparr>"

definition table_inv :: "tlock \<Rightarrow> bool" where
  "table_inv l \<longleftrightarrow> t_at l 0 = Outside \<and> (\<forall>p. t_at l p \<in> {Outside, At_cas, Inside}) \<and>
     (\<forall>p. t_at l p = Inside \<longleftrightarrow> p = t_word l \<and> p \<noteq> 0)"

lemma table_invD:
  assumes "table_inv l"
  shows "t_at l 0 = Outside" "t_at l p = Inside \<longleftrightarrow> p = t_word l \<and> p \<noteq> 0"
    "t_at l p = Outside \<or> t_at l p = At_cas \<or> t_at l p = Inside"
  using assms unfolding table_inv_def by blast+

text \<open>A turn of the loop.\<close>

lemma table_turn:
  "t_at l p = At_cas \<Longrightarrow> table_kill (\<lambda>_. Exists) p (table_cas p l) =
    (if t_word l = 0 then l\<lparr>t_word := p, t_at := (t_at l)(p := Inside)\<rparr> else l)"
  by (cases l) (auto simp: table_defs fun_upd_idem)

lemma table_inv_cas:
  assumes inv: "table_inv l" and p: "t_at l p = At_cas"
  shows "table_inv (table_kill (\<lambda>_. Exists) p (table_cas p l))"
proof -
  have "p \<noteq> 0" using table_invD(1) [OF inv] p by (cases "p = 0") auto
  then show ?thesis
    unfolding table_turn [OF p]
    using inv table_invD(2) [OF inv] by (auto simp: table_inv_def)
qed

lemma table_inv_enter: "table_inv l \<Longrightarrow> t_at l p = Outside \<Longrightarrow> p \<noteq> 0 \<Longrightarrow> table_inv (table_enter p l)"
  using table_invD(2) [of l p] by (auto simp: table_inv_def table_enter_def)

lemma table_inv_unlock:
  assumes "table_inv l" "t_at l p = Inside"
  shows "table_inv (table_unlock p l)"
proof -
  have "p = t_word l" "p \<noteq> 0" using table_invD(2) [OF assms(1), of p] assms(2) by auto
  then show ?thesis using assms(1) by (auto simp: table_inv_def table_unlock_def)
qed

lemma table_phase_iff:
  "table_phase l p = Out \<longleftrightarrow> t_at l p = Outside" "table_phase l p = In \<longleftrightarrow> t_at l p = Inside"
  "table_inv l \<Longrightarrow> table_phase l p = Trying \<longleftrightarrow> t_at l p = At_cas"
  using table_invD(3) [of l p] by (auto simp: table_phase_def split: t_place.splits)

lemma table_progress:
  assumes "table_inv l" "t_at l p \<noteq> Outside"
  shows "\<exists>q. t_at l q = Inside \<or> t_at l q = At_cas \<and> t_at (table_kill (\<lambda>_. Exists) q (table_cas q l)) q = Inside"
proof (cases "t_word l = 0")
  case True
  then have "t_at l p = At_cas" using assms table_invD(2,3) [OF assms(1), of p] by auto
  with True show ?thesis by (intro exI [of _ p]) (simp add: table_turn)
next
  case False
  then have "t_at l (t_word l) = Inside" using table_invD(2) [OF assms(1), of "t_word l"] by simp
  then show ?thesis by blast
qed

lemma table_turn_other: "q \<noteq> p \<Longrightarrow> t_at (table_kill (\<lambda>_. Exists) p (table_cas p l)) q = t_at l q"
  by (simp add: table_defs)

lemma table_turn_not_out: "t_at (table_kill (\<lambda>_. Exists) p (table_cas p l)) p \<noteq> Outside"
  by (simp add: table_defs)

lemma table_phase_cong: "t_at l' q = t_at l q \<Longrightarrow> table_phase l' q = table_phase l q"
  by (simp add: table_phase_def)

interpretation tab: mutex_lock table_impl "{0<..}" table_inv
proof (unfold_locales, goal_cases)
  case 1
  then show ?case by (auto simp: table_impl_def table_inv_def table_start_def)
next
  case (2 t)
  then show ?case by (simp add: table_impl_def table_phase_iff table_start_def)
next
  case (3 l t)
  then show ?case using table_inv_enter by (simp add: table_impl_def table_phase_iff)
next
  case (4 l t)
  then show ?case using table_inv_cas by (simp add: table_impl_def table_phase_iff)
next
  case (5 l t)
  then show ?case using table_inv_unlock by (simp add: table_impl_def table_phase_iff)
next
  case (6 l t u)
  then show ?case using table_invD(2) [of l] by (simp add: table_impl_def table_phase_iff)
next
  case (7 l t)
  then show ?case by (simp add: table_impl_def table_phase_iff table_enter_def)
next
  case (8 l t)
  then show ?case using table_turn_not_out by (simp add: table_impl_def table_phase_iff)
next
  case (9 l t)
  then show ?case by (simp add: table_impl_def table_phase_iff table_unlock_def)
next
  case (10 l t u)
  then show ?case by (simp add: table_impl_def table_enter_def table_phase_def)
next
  case (11 l t u)
  then show ?case using table_phase_cong [OF table_turn_other, of u t l] by (simp add: table_impl_def)
next
  case (12 l t u)
  then show ?case by (simp add: table_impl_def table_unlock_def table_phase_def)
next
  case (13 l t)
  then show ?case using table_progress [of l t] by (simp add: table_impl_def table_phase_iff)
qed

text \<open>
  All moves, processes that end included. A process may signal those of its own user, and the
  user 0 may signal all.
\<close>

definition kill0 :: "(nat \<Rightarrow> nat) \<Rightarrow> nat set \<Rightarrow> nat \<Rightarrow> nat \<Rightarrow> kill_result" where
  "kill0 user dead p v =
     (if v \<in> dead then ESRCH else if user p = 0 \<or> user p = user v then Exists else EPERM)"

datatype t_move = Enter nat | Cas nat | Kill nat | Clear nat | Unlock nat | Die nat

fun t_do :: "(nat \<Rightarrow> nat) \<Rightarrow> t_move \<Rightarrow> nat set \<times> tlock \<Rightarrow> (nat set \<times> tlock) option" where
  "t_do user (Enter p) (dead, l) = (if p \<notin> dead \<and> t_at l p = Outside then Some (dead, table_enter p l) else None)"
| "t_do user (Cas p) (dead, l) = (if p \<notin> dead \<and> t_at l p = At_cas then Some (dead, table_cas p l) else None)"
| "t_do user (Kill p) (dead, l) =
     (if p \<notin> dead \<and> (case t_at l p of At_kill _ \<Rightarrow> True | _ \<Rightarrow> False) then Some (dead, table_kill (kill0 user dead p) p l) else None)"
| "t_do user (Clear p) (dead, l) = (if p \<notin> dead \<and> t_at l p = At_clear then Some (dead, table_clear p l) else None)"
| "t_do user (Unlock p) (dead, l) = (if p \<notin> dead \<and> t_at l p = Inside then Some (dead, table_unlock p l) else None)"
| "t_do user (Die p) (dead, l) = Some (insert p dead, l)"

fun t_run :: "(nat \<Rightarrow> nat) \<Rightarrow> t_move list \<Rightarrow> nat set \<times> tlock \<Rightarrow> (nat set \<times> tlock) option" where
  "t_run user [] s = Some s"
| "t_run user (m # ms) s = (case t_do user m s of None \<Rightarrow> None | Some s \<Rightarrow> t_run user ms s)"

section \<open>The table\<close>

definition CONTEXTS :: nat where "CONTEXTS = (2 * 2 ^ 20) div (1032 + 8)"

record ctx =
  c_pid :: nat
  c_available :: cpu_set

record table =
  t_lock :: nat
  t_allocated :: nat
  t_contexts :: "ctx list"

text \<open>
  The result of an operation: done, waiting for a live process to unlock, a failed assertion,
  an access through the null pointer, an exit with a message.
\<close>

datatype 'a res = Done 'a | Waits | Abort | Null | Full

text \<open>
  \<open>table_lock\<close> when no other process moves: a dead holder's lock is cleared and taken, a live
  holder is waited for, and one the caller may not signal fails the assertion.
\<close>

definition lock_table :: "(nat \<Rightarrow> kill_result) \<Rightarrow> nat \<Rightarrow> table \<Rightarrow> table res" where
  "lock_table kill pid t =
     (if t_lock t = 0 then Done (t\<lparr>t_lock := pid\<rparr>)
      else case kill (t_lock t) of
        Exists \<Rightarrow> Waits | ESRCH \<Rightarrow> Done (t\<lparr>t_lock := pid\<rparr>) | EPERM \<Rightarrow> Abort)"

definition unlock_table :: "table \<Rightarrow> table" where
  "unlock_table t = t\<lparr>t_lock := 0\<rparr>"

text \<open>The function takes a context but frees the one of the process, \<open>own\<close>.\<close>

definition context_deallocate :: "(nat \<Rightarrow> kill_result) \<Rightarrow> nat \<Rightarrow> nat option \<Rightarrow> nat \<Rightarrow> table \<Rightarrow> table res" where
  "context_deallocate kill pid own c t =
     (case lock_table kill pid t of
        Done t \<Rightarrow>
          (case own of
             None \<Rightarrow> Null
           | Some k \<Rightarrow> Done (unlock_table (t\<lparr>t_contexts := (t_contexts t)[k := (t_contexts t ! k)\<lparr>c_pid := 0\<rparr>],
               t_allocated := (t_allocated t + (2 ^ 32 - 1)) mod 2 ^ 32\<rparr>)))
      | r \<Rightarrow> r)"

text \<open>The loop over the contexts in use; the index only moves past contexts not in use.\<close>

function drop_dead :: "(nat \<Rightarrow> kill_result) \<Rightarrow> nat \<Rightarrow> nat option \<Rightarrow> nat \<Rightarrow> nat \<Rightarrow> table \<Rightarrow> table res" where
  "drop_dead kill pid own left i t =
     (if left = 0 then Done t
      else if c_pid (t_contexts t ! i) = 0
      then if i + 1 < CONTEXTS then drop_dead kill pid own left (i + 1) t else Abort
      else case kill (c_pid (t_contexts t ! i)) of
        Exists \<Rightarrow> drop_dead kill pid own (left - 1) i t
      | ESRCH \<Rightarrow>
          (case context_deallocate kill pid own i t of
             Done t \<Rightarrow> drop_dead kill pid own (left - 1) i t
           | r \<Rightarrow> r)
      | EPERM \<Rightarrow> Abort)"
  by pat_completeness auto

termination drop_dead
  by (relation "measures [\<lambda>(kill, pid, own, left, i, t). left, \<lambda>(kill, pid, own, left, i, t). CONTEXTS - i]") auto

declare drop_dead.simps [simp del]

text \<open>The first context not in use becomes the process's own, with the cores it may run on.\<close>

definition context_allocate :: "(nat \<Rightarrow> kill_result) \<Rightarrow> nat \<Rightarrow> nat option \<Rightarrow> cpu_set \<Rightarrow> table \<Rightarrow> (nat \<times> table) res" where
  "context_allocate kill pid own cores t =
     (case lock_table kill pid t of
        Done t \<Rightarrow>
          (case drop_dead kill pid own (t_allocated t) 0 t of
             Done t \<Rightarrow>
               (case find (\<lambda>i. c_pid (t_contexts t ! i) = 0) [0..<CONTEXTS] of
                  Some i \<Rightarrow>
                    Done (i, unlock_table (t\<lparr>t_contexts := (t_contexts t)[i := \<lparr>c_pid = pid, c_available = cores\<rparr>],
                      t_allocated := (t_allocated t + 1) mod 2 ^ 32\<rparr>))
                | None \<Rightarrow> Full)
           | Waits \<Rightarrow> Waits | Abort \<Rightarrow> Abort | Null \<Rightarrow> Null | Full \<Rightarrow> Full)
      | Waits \<Rightarrow> Waits | Abort \<Rightarrow> Abort | Null \<Rightarrow> Null | Full \<Rightarrow> Full)"

text \<open>The constructor and the destructor of the library.\<close>

definition lib_init :: "(nat \<Rightarrow> kill_result) \<Rightarrow> nat \<Rightarrow> cpu_set \<Rightarrow> table \<Rightarrow> (nat \<times> table) res" where
  "lib_init kill pid cores t = (if t_allocated t \<noteq> 0 then Abort else context_allocate kill pid None cores t)"

definition lib_finit :: "(nat \<Rightarrow> kill_result) \<Rightarrow> nat \<Rightarrow> nat option \<Rightarrow> table \<Rightarrow> table res" where
  "lib_finit kill pid own t = (case own of None \<Rightarrow> Abort | Some k \<Rightarrow> context_deallocate kill pid own k t)"

definition new_table :: table where
  "new_table = \<lparr>t_lock = 0, t_allocated = 0, t_contexts = replicate CONTEXTS \<lparr>c_pid = 0, c_available = {}\<rparr>\<rparr>"

section \<open>What the operations do\<close>

definition in_use :: "table \<Rightarrow> nat \<Rightarrow> bool" where
  "in_use t i \<longleftrightarrow> c_pid (t_contexts t ! i) \<noteq> 0"

definition first_used :: "table \<Rightarrow> nat option" where
  "first_used t = find (in_use t) [0..<CONTEXTS]"

definition first_free :: "table \<Rightarrow> nat option" where
  "first_free t = find (\<lambda>i. \<not> in_use t i) [0..<CONTEXTS]"

text \<open>The count of contexts in use is right.\<close>

definition table_ok :: "table \<Rightarrow> bool" where
  "table_ok t \<longleftrightarrow> length (t_contexts t) = CONTEXTS \<and> t_allocated t = card {i. i < CONTEXTS \<and> in_use t i}"

lemma contexts_val: "CONTEXTS = 2016" by (simp add: CONTEXTS_def)

lemma find_upt_Some:
  "find P [0..<n] = Some i \<longleftrightarrow> i < n \<and> P i \<and> (\<forall>j<i. \<not> P j)"
  by (auto simp: find_Some_iff)

lemma find_upt_None: "find P [0..<n] = None \<longleftrightarrow> (\<forall>i<n. \<not> P i)"
  by (auto simp: find_None_iff)

lemma in_use_lock [simp]: "in_use (t\<lparr>t_lock := x\<rparr>) = in_use t"
  by (simp add: in_use_def fun_eq_iff)

lemma drop_dead_skips:
  assumes "0 < left" "i \<le> k" "k < CONTEXTS" "\<forall>j. i \<le> j \<and> j < k \<longrightarrow> \<not> in_use t j"
  shows "drop_dead kill pid own left i t = drop_dead kill pid own left k t"
  using assms(2,4)
proof (induction "k - i" arbitrary: i)
  case (Suc n)
  then have i: "i < k" "\<not> in_use t i" by auto
  have "drop_dead kill pid own left i t = drop_dead kill pid own left (i + 1) t"
    using i assms(1,3) by (subst drop_dead.simps) (simp add: in_use_def)
  also have "\<dots> = drop_dead kill pid own left k t" using Suc.hyps(2) Suc.prems i by (intro Suc.hyps(1)) auto
  finally show ?case .
qed simp

lemma drop_dead_live:
  "in_use t i \<Longrightarrow> kill (c_pid (t_contexts t ! i)) = Exists \<Longrightarrow> drop_dead kill pid own left i t = Done t"
  by (induction left) (simp_all add: drop_dead.simps [of kill pid own _ i t] in_use_def)

lemma drop_dead_ends:
  assumes "0 < left" "in_use t i" "kill (c_pid (t_contexts t ! i)) \<noteq> Exists" "t_lock t = pid" "pid \<noteq> 0" "kill pid = Exists"
  shows "drop_dead kill pid own left i t = (if kill (c_pid (t_contexts t ! i)) = ESRCH then Waits else Abort)"
  using assms by (subst drop_dead.simps) (auto simp: in_use_def context_deallocate_def lock_table_def split: kill_result.split)

lemma allocated_used:
  assumes "table_ok t"
  shows "t_allocated t = 0 \<longleftrightarrow> first_used t = None" "t_allocated t \<le> CONTEXTS"
proof -
  have "finite {i. i < CONTEXTS \<and> in_use t i}" by simp
  then show "t_allocated t = 0 \<longleftrightarrow> first_used t = None"
    using assms by (auto simp: table_ok_def first_used_def find_upt_None)
  have "card {i. i < CONTEXTS \<and> in_use t i} \<le> card {..<CONTEXTS}" by (intro card_mono) auto
  then show "t_allocated t \<le> CONTEXTS" using assms by (simp add: table_ok_def)
qed

text \<open>What \<open>kill\<close> says of the first context in use, the only one that is tested.\<close>

definition first_answer :: "(nat \<Rightarrow> kill_result) \<Rightarrow> table \<Rightarrow> kill_result" where
  "first_answer kill t =
     (case first_used t of None \<Rightarrow> Exists | Some i \<Rightarrow> kill (c_pid (t_contexts t ! i)))"

lemma drop_dead_outcome:
  assumes ok: "table_ok t" and l: "t_lock t = pid" "pid \<noteq> 0" "kill pid = Exists"
  shows "drop_dead kill pid own (t_allocated t) 0 t =
    (case first_answer kill t of Exists \<Rightarrow> Done t | ESRCH \<Rightarrow> Waits | EPERM \<Rightarrow> Abort)"
proof (cases "first_used t")
  case None
  then show ?thesis using allocated_used(1) [OF ok] by (simp add: drop_dead.simps first_answer_def)
next
  case (Some i)
  then have i: "i < CONTEXTS" "in_use t i" "\<forall>j<i. \<not> in_use t j" by (simp_all add: first_used_def find_upt_Some)
  have pos: "0 < t_allocated t" using allocated_used(1) [OF ok] Some by auto
  have "drop_dead kill pid own (t_allocated t) 0 t = drop_dead kill pid own (t_allocated t) i t"
    using i pos by (intro drop_dead_skips) auto
  then show ?thesis using Some drop_dead_live [OF i(2), of kill pid own] drop_dead_ends [OF pos i(2), of kill pid own] l
    by (auto simp: first_answer_def split: kill_result.split)
qed

definition new_context :: "nat \<Rightarrow> cpu_set \<Rightarrow> nat \<Rightarrow> table \<Rightarrow> table" where
  "new_context pid cores k t =
     t\<lparr>t_lock := 0, t_contexts := (t_contexts t)[k := \<lparr>c_pid = pid, c_available = cores\<rparr>], t_allocated := t_allocated t + 1\<rparr>"

lemma table_ok_lock [simp]: "table_ok (t\<lparr>t_lock := x\<rparr>) = table_ok t" "first_used (t\<lparr>t_lock := x\<rparr>) = first_used t"
  by (simp_all add: table_ok_def first_used_def)

lemma context_allocate_eq:
  assumes ok: "table_ok t" and pid: "pid \<noteq> 0" "kill pid = Exists"
  shows "context_allocate kill pid own cores t =
    (if t_lock t \<noteq> 0 \<and> kill (t_lock t) = Exists then Waits
     else if t_lock t \<noteq> 0 \<and> kill (t_lock t) = EPERM then Abort
     else case first_answer kill t of
       ESRCH \<Rightarrow> Waits | EPERM \<Rightarrow> Abort
     | Exists \<Rightarrow> (case first_free t of None \<Rightarrow> Full | Some k \<Rightarrow> Done (k, new_context pid cores k t)))"
proof (cases "t_lock t = 0 \<or> kill (t_lock t) = ESRCH")
  case True
  let ?t = "t\<lparr>t_lock := pid\<rparr>"
  have "first_answer kill ?t = first_answer kill t" by (simp add: first_answer_def cong: option.case_cong)
  then have d: "drop_dead kill pid own (t_allocated t) 0 ?t =
    (case first_answer kill t of Exists \<Rightarrow> Done ?t | ESRCH \<Rightarrow> Waits | EPERM \<Rightarrow> Abort)"
    using drop_dead_outcome [of ?t pid kill own] ok pid by simp
  have f: "find (\<lambda>i. c_pid (t_contexts t ! i) = 0) [0..<CONTEXTS] = first_free t"
    by (simp add: first_free_def in_use_def)
  have w: "(t_allocated t + 1) mod 2 ^ 32 = t_allocated t + 1" using allocated_used(2) [OF ok] by (simp add: contexts_val)
  have lk: "lock_table kill pid t = Done ?t" using True by (auto simp: lock_table_def)
  have "unlock_table (?t\<lparr>t_contexts := xs, t_allocated := n\<rparr>) = t\<lparr>t_lock := 0, t_contexts := xs, t_allocated := n\<rparr>" for xs n
    by (simp add: unlock_table_def)
  then show ?thesis
    unfolding context_allocate_def lk
    using w True by (cases "first_answer kill t") (auto simp: d f new_context_def split: option.splits)
next
  case False
  then have "lock_table kill pid t = (if kill (t_lock t) = Exists then Waits else Abort)"
    by (auto simp: lock_table_def split: kill_result.split)
  moreover have "kill (t_lock t) = Exists \<or> kill (t_lock t) = EPERM" using False by (cases "kill (t_lock t)") auto
  ultimately show ?thesis using False by (auto simp: context_allocate_def)
qed

lemma context_allocate_done:
  assumes "table_ok t" "pid \<noteq> 0" "kill pid = Exists" "context_allocate kill pid own cores t = Done (k, u)"
  shows "first_free t = Some k \<and> u = new_context pid cores k t"
  using assms(4) context_allocate_eq [where kill = kill and pid = pid and own = own and cores = cores, OF assms(1-3)]
  by (auto split: if_splits option.splits kill_result.splits)

lemma new_context_ok:
  assumes ok: "table_ok t" and k: "first_free t = Some k" and pid: "pid \<noteq> 0"
  shows "table_ok (new_context pid cores k t)"
proof -
  from k have k': "k < CONTEXTS" "\<not> in_use t k" by (simp_all add: first_free_def find_upt_Some)
  have len: "length (t_contexts t) = CONTEXTS" using ok by (simp add: table_ok_def)
  have u: "in_use (new_context pid cores k t) i \<longleftrightarrow> i = k \<or> in_use t i" if "i < CONTEXTS" for i
    using that len pid k'(1) by (auto simp: in_use_def new_context_def nth_list_update)
  then have "{i. i < CONTEXTS \<and> in_use (new_context pid cores k t) i} = insert k {i. i < CONTEXTS \<and> in_use t i}"
    using k'(1) by auto
  then show ?thesis using ok k' by (simp add: table_ok_def new_context_def)
qed

lemma context_deallocate_eq:
  assumes ok: "table_ok t" and free: "t_lock t = 0 \<or> kill (t_lock t) = ESRCH" and k: "k < CONTEXTS" "in_use t k"
  shows "context_deallocate kill pid (Some k) c t =
    Done (t\<lparr>t_lock := 0, t_contexts := (t_contexts t)[k := (t_contexts t ! k)\<lparr>c_pid := 0\<rparr>], t_allocated := t_allocated t - 1\<rparr>)"
proof -
  have "first_used t \<noteq> None" using k by (auto simp: first_used_def find_upt_None)
  then have "0 < t_allocated t" "t_allocated t \<le> CONTEXTS" using allocated_used [OF ok] by auto
  then have "(t_allocated t + (2 ^ 32 - 1)) mod 2 ^ 32 = t_allocated t - 1"
    by (simp add: contexts_val mod_if)
  moreover have "lock_table kill pid t = Done (t\<lparr>t_lock := pid\<rparr>)" using free by (auto simp: lock_table_def)
  ultimately show ?thesis by (simp add: context_deallocate_def unlock_table_def)
qed

lemma deallocate_ok:
  assumes ok: "table_ok t" and k: "k < CONTEXTS" "in_use t k"
  shows "table_ok (t\<lparr>t_lock := 0, t_contexts := (t_contexts t)[k := (t_contexts t ! k)\<lparr>c_pid := 0\<rparr>], t_allocated := t_allocated t - 1\<rparr>)"
    (is "table_ok ?u")
proof -
  have len: "length (t_contexts t) = CONTEXTS" using ok by (simp add: table_ok_def)
  have "in_use ?u i \<longleftrightarrow> i \<noteq> k \<and> in_use t i" if "i < CONTEXTS" for i
    using that len by (cases "i = k") (auto simp: in_use_def)
  then have "{i. i < CONTEXTS \<and> in_use ?u i} = {i. i < CONTEXTS \<and> in_use t i} - {k}" by auto
  moreover have "finite {i. i < CONTEXTS \<and> in_use t i}" "k \<in> {i. i < CONTEXTS \<and> in_use t i}" using k by auto
  ultimately show ?thesis using ok by (simp add: table_ok_def card_Diff_singleton)
qed

text \<open>A table with the contexts of some processes.\<close>

definition table_of :: "nat list \<Rightarrow> table" where
  "table_of ps = \<lparr>t_lock = 0, t_allocated = length ps,
     t_contexts = map (\<lambda>p. \<lparr>c_pid = p, c_available = {}\<rparr>) ps @
       replicate (CONTEXTS - length ps) \<lparr>c_pid = 0, c_available = {}\<rparr>\<rparr>"

lemma table_of_used:
  assumes "\<forall>p\<in>set ps. p \<noteq> 0" "length ps \<le> CONTEXTS" "i < CONTEXTS"
  shows "in_use (table_of ps) i \<longleftrightarrow> i < length ps"
  using assms by (auto simp: in_use_def table_of_def nth_append)

lemma table_of_ok:
  assumes "\<forall>p\<in>set ps. p \<noteq> 0" "length ps \<le> CONTEXTS"
  shows "table_ok (table_of ps)"
proof -
  have "{i. i < CONTEXTS \<and> in_use (table_of ps) i} = {..<length ps}" using table_of_used [OF assms] assms(2) by auto
  then show ?thesis using assms(2) by (simp add: table_ok_def) (simp add: table_of_def)
qed

lemma table_of_first:
  assumes "\<forall>p\<in>set ps. p \<noteq> 0" "length ps < CONTEXTS"
  shows "first_free (table_of ps) = Some (length ps)" "first_used (table_of ps) = (if ps = [] then None else Some 0)"
  using assms table_of_used [OF assms(1)]
  by (auto simp: first_free_def first_used_def find_upt_Some find_upt_None)

section \<open>Properties\<close>

text \<open>
  C21: While no process dies and all are of one user, the lock of the table is held by at most one process, whatever
  the order of the processes' moves.
\<close>

theorem table_lock_excludes:
  assumes "event_thread ` set evs \<subseteq> {0<..}" "lock_run table_impl evs table_start = Some l"
    "t_at l p = Inside" "t_at l q = Inside"
  shows "p = q"
  using tab.run_mutual_exclusion [OF assms(1)] assms(2-4) by (simp add: table_impl_def table_phase_iff)

lemma table_lock_excludes_witness:
  "\<exists>l. lock_run table_impl [Acquire 1, Acquire 2, Spin 2, Spin 1] table_start = Some l \<and> t_at l 2 = Inside \<and>
    t_at l 1 \<noteq> Inside"
proof -
  obtain l where l: "lock_run table_impl [Acquire 1, Acquire 2, Spin 2, Spin 1] table_start = Some l" "t_at l 2 = Inside"
    by (simp add: table_impl_def table_phase_def table_defs)
  with table_lock_excludes [OF _ l(1), of 1 2] show ?thesis by auto
qed

text \<open>
  Two live processes can hold the lock at once after a third has left it and ended: the
  second saw the third as the holder and clears the lock, although the first has it by then.
\<close>

theorem exit_breaks_table_lock:
  "\<exists>l. t_run (\<lambda>_. 1) [Enter 3, Cas 3, Enter 2, Cas 2, Unlock 3, Die 3, Enter 1, Cas 1, Kill 2, Clear 2, Cas 2] ({}, table_start) =
      Some ({3}, l) \<and> t_at l 1 = Inside \<and> t_at l 2 = Inside"
  by (simp add: table_defs kill0_def)

text \<open>
  A process of another user that finds the lock held ends by the assertion, instead of waiting.
\<close>

theorem foreign_holder_aborts:
  "\<exists>l. t_run (\<lambda>p. p) [Enter 1, Cas 1, Enter 2, Cas 2, Kill 2] ({}, table_start) = Some ({}, l) \<and>
    t_at l 1 = Inside \<and> t_at l 2 = Aborted"
  by (simp add: table_defs kill0_def)

text \<open>
  C26: \<open>context_allocate\<close> on a sound table, for every state of the lock and every answer of \<open>kill\<close>.
  It waits for a live holder of the lock, and aborts when it may not signal the holder. With
  the lock, if the first context in use belongs to a dead process, it waits for ever for the
  lock it holds itself; if to one it may not signal, it aborts; otherwise it takes the first
  free context, writes the process and its cores into it, counts it, unlocks, and leaves all
  others as they are, those of dead processes included; it gives up when no context is free.
\<close>

theorem context_allocate_outcomes:
  assumes "table_ok t" "pid \<noteq> 0" "kill pid = Exists"
  shows "context_allocate kill pid own cores t =
    (if t_lock t \<noteq> 0 \<and> kill (t_lock t) = Exists then Waits
     else if t_lock t \<noteq> 0 \<and> kill (t_lock t) = EPERM then Abort
     else case (case first_used t of None \<Rightarrow> Exists | Some i \<Rightarrow> kill (c_pid (t_contexts t ! i))) of
       ESRCH \<Rightarrow> Waits | EPERM \<Rightarrow> Abort
     | Exists \<Rightarrow> (case first_free t of None \<Rightarrow> Full | Some k \<Rightarrow> Done (k, new_context pid cores k t))) \<and>
    (\<forall>k. first_free t = Some k \<longrightarrow> table_ok (new_context pid cores k t))"
  using context_allocate_eq [where kill = kill and pid = pid, OF assms, unfolded first_answer_def] new_context_ok [OF assms(1) _ assms(2)] by blast

lemma context_allocate_outcomes_witness:
  "context_allocate (\<lambda>p. if p = 9 then Exists else ESRCH) 9 None {0} (table_of [7]) = Waits \<and>
   context_allocate (\<lambda>p. if p = 9 then Exists else EPERM) 9 None {0} (table_of [7]) = Abort \<and>
   context_allocate (\<lambda>p. if p = 9 then Exists else EPERM) 9 None {0} ((table_of [])\<lparr>t_lock := 7\<rparr>) = Abort \<and>
   context_allocate (\<lambda>_. Exists) 9 None {0} (table_of [7, 8]) = Done (2, new_context 9 {0} 2 (table_of [7, 8]))"
proof -
  have ok: "table_ok (table_of [7])" "table_ok (table_of [7, 8])" by (rule table_of_ok; simp add: contexts_val)+
  have ok0: "table_ok ((table_of [])\<lparr>t_lock := 7\<rparr>)" using table_of_ok [of "[]"] by simp
  have f: "first_used (table_of [7]) = Some 0" "first_used (table_of [7, 8]) = Some 0" "first_free (table_of [7, 8]) = Some 2"
    by (simp_all add: table_of_first contexts_val)
  have c: "c_pid (t_contexts (table_of [7]) ! 0) = 7" "c_pid (t_contexts (table_of [7, 8]) ! 0) = 7"
    "t_lock (table_of [7]) = 0" "t_lock (table_of [7, 8]) = 0" by (simp_all add: table_of_def)
  let ?k = "\<lambda>p. if p = 9 then Exists else ESRCH" and ?f = "\<lambda>p. if p = 9 then Exists else EPERM"
  show ?thesis
    using context_allocate_outcomes [where kill = ?k and pid = 9 and own = None and cores = "{0}", OF ok(1)]
      context_allocate_outcomes [where kill = ?f and pid = 9 and own = None and cores = "{0}", OF ok(1)]
      context_allocate_outcomes [where kill = ?f and pid = 9 and own = None and cores = "{0}", OF ok0]
      context_allocate_outcomes [where kill = "\<lambda>_. Exists" and pid = 9 and own = None and cores = "{0}", OF ok(2)]
    by (simp add: f c)
qed

text \<open>
  C22: The operations keep the table well formed: all its contexts are there, the count is the
  number of those in use, and the lock is free when an operation is done.
\<close>

theorem operations_keep_table:
  assumes "table_ok t" "t_lock t = 0 \<or> kill (t_lock t) = ESRCH" "pid \<noteq> 0" "kill pid = Exists"
  shows "(\<forall>k u. context_allocate kill pid own cores t = Done (k, u) \<longrightarrow>
      table_ok u \<and> t_lock u = 0 \<and> k < CONTEXTS \<and> in_use u k) \<and>
    (\<forall>k c. k < CONTEXTS \<and> in_use t k \<longrightarrow>
      (\<exists>u. context_deallocate kill pid (Some k) c t = Done u \<and> table_ok u \<and> t_lock u = 0 \<and> \<not> in_use u k))"
proof (intro conjI allI impI)
  fix k u
  assume "context_allocate kill pid own cores t = Done (k, u)"
  then have k: "first_free t = Some k" and u: "u = new_context pid cores k t"
    using context_allocate_done [where kill = kill and pid = pid, OF assms(1,3,4)] by blast+
  from k have "k < CONTEXTS" by (simp add: first_free_def find_upt_Some)
  moreover have "length (t_contexts t) = CONTEXTS" using assms(1) by (simp add: table_ok_def)
  ultimately show "table_ok u" "t_lock u = 0" "k < CONTEXTS" "in_use u k"
    using new_context_ok [OF assms(1) k assms(3)] assms(3) by (simp_all add: u) (simp_all add: new_context_def in_use_def)
next
  fix k c
  assume k: "k < CONTEXTS \<and> in_use t k"
  then have "k < length (t_contexts t)" using assms(1) by (simp add: table_ok_def)
  with k deallocate_ok [OF assms(1), of k] context_deallocate_eq [where kill = kill and k = k and pid = pid and c = c, OF assms(1,2)]
  show "\<exists>u. context_deallocate kill pid (Some k) c t = Done u \<and> table_ok u \<and> t_lock u = 0 \<and> \<not> in_use u k"
    by (auto simp: in_use_def)
qed

lemma operations_keep_table_witness:
  "\<exists>u. context_deallocate (\<lambda>p. if p = 7 then Exists else ESRCH) 7 (Some 1) 1 (table_of [3, 7]) = Done u \<and> table_ok u \<and> \<not> in_use u 1"
proof -
  have ok: "table_ok (table_of [3, 7])" by (rule table_of_ok; simp add: contexts_val)
  have u: "in_use (table_of [3, 7]) 1" "(1 :: nat) < CONTEXTS" by (simp_all add: table_of_used contexts_val)
  have "t_lock (table_of [3, 7]) = 0" by (simp add: table_of_def)
  then have l: "t_lock (table_of [3, 7]) = 0 \<or> (\<lambda>p. if p = 7 then Exists else ESRCH) (t_lock (table_of [3, 7])) = ESRCH" by simp
  have "(7 :: nat) \<noteq> 0" "(\<lambda>p :: nat. if p = 7 then Exists else ESRCH) 7 = Exists" by simp_all
  from spec [OF spec [OF conjunct2 [OF operations_keep_table [OF ok l this]], of 1], of 1] u show ?thesis by blast
qed

text \<open>
  The destructor undoes the constructor: the count and the process ids of all contexts are
  what they were before, and the lock is free.
\<close>

theorem finit_undoes_init:
  assumes "table_ok t" "t_lock t = 0 \<or> kill (t_lock t) = ESRCH" "pid \<noteq> 0" "kill pid = Exists"
    "lib_init kill pid cores t = Done (k, u)"
  shows "\<exists>v. lib_finit kill pid (Some k) u = Done v \<and> t_lock v = 0 \<and> t_allocated v = t_allocated t \<and>
    map c_pid (t_contexts v) = map c_pid (t_contexts t)"
proof -
  from assms(5) have "context_allocate kill pid None cores t = Done (k, u)" by (simp add: lib_init_def split: if_splits)
  from context_allocate_done [where kill = kill and pid = pid, OF assms(1,3,4) this]
  have f: "first_free t = Some k" and u: "u = new_context pid cores k t" by blast+
  from f have k: "k < CONTEXTS" "c_pid (t_contexts t ! k) = 0" by (simp_all add: first_free_def find_upt_Some in_use_def)
  have len: "length (t_contexts t) = CONTEXTS" using assms(1) by (simp add: table_ok_def)
  have n: "(t_allocated t + 1 + (2 ^ 32 - 1)) mod 2 ^ 32 = t_allocated t"
    using allocated_used(2) [OF assms(1)] by (simp add: contexts_val)
  have "map c_pid ((t_contexts t)[k := \<lparr>c_pid = 0, c_available = cores\<rparr>]) = map c_pid (t_contexts t)"
    using k len by (simp add: map_update list_update_same_conv)
  then show ?thesis
    using n k len by (simp add: lib_finit_def u new_context_def context_deallocate_def lock_table_def unlock_table_def)
qed

lemma finit_undoes_init_witness:
  "\<exists>u v. lib_init (\<lambda>p. if p = 9 then Exists else ESRCH) 9 {0} (table_of []) = Done (0, u) \<and> lib_finit (\<lambda>p. if p = 9 then Exists else ESRCH) 9 (Some 0) u = Done v \<and>
    t_allocated v = 0"
proof -
  have ok: "table_ok (table_of [])" by (rule table_of_ok) simp_all
  have c: "t_lock (table_of []) = 0" "t_allocated (table_of []) = 0" by (simp_all add: table_of_def)
  have "lib_init (\<lambda>p. if p = 9 then Exists else ESRCH) 9 {0} (table_of []) = Done (0, new_context 9 {0} 0 (table_of []))"
    using context_allocate_eq [where kill = "\<lambda>p. if p = 9 then Exists else ESRCH" and pid = 9 and own = None and cores = "{0}", OF ok] table_of_first [of "[]"]
    by (simp add: lib_init_def c contexts_val first_answer_def)
  with finit_undoes_init [OF ok _ _ _ this] c show ?thesis by auto
qed

text \<open>
  A second process cannot load the library while the first is using it: the constructor
  insists on a table without contexts in use.
\<close>

theorem second_process_aborts:
  assumes "lib_init kill pid cores t = Done (k, u)" "table_ok t" "pid \<noteq> 0" "kill pid = Exists"
  shows "lib_init kill' pid' cores' u = Abort"
proof -
  from assms(1) have "context_allocate kill pid None cores t = Done (k, u)" by (simp add: lib_init_def split: if_splits)
  from context_allocate_done [where kill = kill and pid = pid, OF assms(2,3,4) this] have "u = new_context pid cores k t" by blast
  then show ?thesis by (simp add: lib_init_def new_context_def)
qed

lemma second_process_aborts_witness:
  "\<exists>u. lib_init (\<lambda>p. if p = 9 then Exists else ESRCH) 9 {0} (table_of []) = Done (0, u) \<and> lib_init (\<lambda>_. Exists) 5 {1} u = Abort"
proof -
  have ok: "table_ok (table_of [])" by (rule table_of_ok) simp_all
  have c: "t_lock (table_of []) = 0" "t_allocated (table_of []) = 0" by (simp_all add: table_of_def)
  have i: "lib_init (\<lambda>p. if p = 9 then Exists else ESRCH) 9 {0} (table_of []) = Done (0, new_context 9 {0} 0 (table_of []))"
    using context_allocate_eq [where kill = "\<lambda>p. if p = 9 then Exists else ESRCH" and pid = 9 and own = None and cores = "{0}", OF ok] table_of_first [of "[]"]
    by (simp add: lib_init_def c contexts_val first_answer_def)
  from second_process_aborts [OF i ok] i c show ?thesis by auto
qed

end
