(* ===== verification/NumaEnv.thy ===== *)
theory NumaEnv
  imports CpuLists
begin

text \<open>
  What passes from the launcher to the library through the environment, and what the library
  tells the program about its cores: \<open>numaplace/numaplace.c\<close> (options), \<open>numaplace/utils.h\<close>
  (\<open>parseint\<close>, \<open>roundup_nextpow2\<close>), \<open>numaplace/libnumaplace.c\<close> (\<open>init_threads\<close>,
  \<open>sched_getaffinity\<close>, \<open>pthread_getaffinity_np\<close>).
\<close>

section \<open>Rounding up to a power of two\<close>

definition clz64 :: "u64 \<Rightarrow> nat" where
  "clz64 v = length (takeWhile (\<lambda>i. \<not> bit v i) (rev [0..<64]))"

text \<open>\<open>None\<close>: the count of leading zeroes of 0, or a shift by 64, is undefined.\<close>

definition roundup_nextpow2 :: "u64 \<Rightarrow> u64 option" where
  "roundup_nextpow2 val =
     (if val = 0 \<or> clz64 val = 0 then None
      else let next = push_bit (64 - clz64 val) 1
           in Some (if val AND (drop_bit 1 next - 1) \<noteq> 0 then next else val))"

section \<open>Numbers with a unit\<close>

definition digit_val :: "char \<Rightarrow> nat" where
  "digit_val c =
     (let n = of_char c
      in if 48 \<le> n \<and> n \<le> 57 then n - 48
         else if 97 \<le> n \<and> n \<le> 122 then n - 87
         else if 65 \<le> n \<and> n \<le> 90 then n - 55 else 99)"

text \<open>\<open>strtoull\<close> with base 0: a number in hexadecimal, octal or decimal notation.\<close>

definition based :: "string \<Rightarrow> nat \<times> string" where
  "based t =
     (if 3 \<le> length t \<and> hd t = CHR ''0'' \<and> t ! 1 \<in> {CHR ''x'', CHR ''X''} \<and> digit_val (t ! 2) < 16 then (16, drop 2 t)
      else if t \<noteq> [] \<and> hd t = CHR ''0'' then (8, t) else (10, t))"

definition strtoull0 :: "string \<Rightarrow> nat \<times> string" where
  "strtoull0 s =
     (case sign_of (dropWhile isspace s) of (neg, t) \<Rightarrow>
      case based t of (b, t) \<Rightarrow>
        let ds = takeWhile (\<lambda>c. digit_val c < b) t; v = foldl (\<lambda>n c. b * n + digit_val c) 0 ds
        in if ds = [] then (0, s)
           else (if 2 ^ 64 \<le> v then 2 ^ 64 - 1 else if neg then (2 ^ 64 - v) mod 2 ^ 64 else v,
                 dropWhile (\<lambda>c. digit_val c < b) t))"

definition tolower :: "char \<Rightarrow> char" where
  "tolower c = (if 65 \<le> (of_char c :: nat) \<and> (of_char c :: nat) \<le> 90 then char_of (of_char c + 32 :: nat) else c)"

text \<open>The shift of a unit: none at the end of the string, then \<open>k\<close>, \<open>m\<close>, \<open>g\<close>.\<close>

definition unit_shift :: "string \<Rightarrow> nat option" where
  "unit_shift r =
     (if r = [] then Some 0
      else if tolower (hd r) = CHR ''k'' then Some 10
      else if tolower (hd r) = CHR ''m'' then Some 20
      else if tolower (hd r) = CHR ''g'' then Some 30 else None)"

text \<open>\<open>None\<close> is a failing assertion.\<close>

definition parseint :: "string \<Rightarrow> u64 option" where
  "parseint s =
     (case strtoull0 s of (v, r) \<Rightarrow>
        if v = 0 then None else map_option (\<lambda>k. push_bit k (word_of_nat v)) (unit_shift r))"

section \<open>The options of the launcher\<close>

definition FLAGS_VERBOSE :: u32 where "FLAGS_VERBOSE = 1"
definition FLAGS_DEBUG :: u32 where "FLAGS_DEBUG = 2"
definition FLAGS_PARENT :: u32 where "FLAGS_PARENT = 4"
definition FLAGS_ALLOCATOR :: u32 where "FLAGS_ALLOCATOR = 8"

lemmas flag_defs = FLAGS_VERBOSE_def FLAGS_DEBUG_def FLAGS_PARENT_def FLAGS_ALLOCATOR_def

type_synonym env = "string \<Rightarrow> string option"

text \<open>\<open>setenv\<close> with and without overwriting.\<close>

definition setenv :: "string \<Rightarrow> string \<Rightarrow> bool \<Rightarrow> env \<Rightarrow> env" where
  "setenv x v overwrite e = (if overwrite \<or> e x = None then e(x := Some v) else e)"

definition unsetenv :: "string \<Rightarrow> env \<Rightarrow> env" where
  "unsetenv x e = e(x := None)"

record settings =
  flagval :: u32
  environment :: env
  thp_disabled :: bool

datatype option_result = Go settings | Quit nat

text \<open>One option with its argument.\<close>

definition main_option :: "char \<Rightarrow> string \<Rightarrow> settings \<Rightarrow> option_result" where
  "main_option c arg st =
     (if c = CHR ''a'' then Go (st\<lparr>flagval := flagval st AND NOT FLAGS_ALLOCATOR\<rparr>)
      else if c = CHR ''c'' then
        if snd (strtoul arg) \<noteq> [] \<or> strtol10 arg < 1 then Quit 1
        else Go (st\<lparr>environment := setenv ''OMP_NUM_THREADS'' arg True (environment st)\<rparr>)
      else if c = CHR ''d'' then Go (st\<lparr>flagval := flagval st OR FLAGS_DEBUG\<rparr>)
      else if c = CHR ''p'' then Go (st\<lparr>flagval := flagval st OR FLAGS_PARENT\<rparr>)
      else if c = CHR ''t'' then Go (st\<lparr>thp_disabled := True\<rparr>)
      else if c = CHR ''v'' then Go (st\<lparr>flagval := flagval st OR FLAGS_VERBOSE\<rparr>)
      else if c = CHR ''V'' then Quit 0
      else Quit 1)"

fun main_options :: "(char \<times> string) list \<Rightarrow> settings \<Rightarrow> option_result" where
  "main_options [] st = Go st"
| "main_options ((c, arg) # cs) st =
     (case main_option c arg st of Go st \<Rightarrow> main_options cs st | Quit n \<Rightarrow> Quit n)"

definition first_settings :: "env \<Rightarrow> settings" where
  "first_settings e = \<lparr>flagval = FLAGS_ALLOCATOR, environment = e, thp_disabled = False\<rparr>"

text \<open>
  The environment of the program that is started; \<open>path\<close> is the place of the library.
\<close>

definition launch_env :: "string \<Rightarrow> settings \<Rightarrow> env" where
  "launch_env path st =
     (let e = setenv ''NUMAPLACE_FLAGS'' (show_u (unat (flagval st))) True (environment st);
          e = unsetenv ''KMP_AFFINITY'' (unsetenv ''GOMP_CPU_AFFINITY'' (unsetenv ''OMP_PROC_BIND'' e));
          e = setenv ''LD_PRELOAD'' path True e;
          e = setenv ''OMP_WAIT_POLICY'' ''ACTIVE'' False e;
          e = setenv ''MALLOC_TRIM_THRESHOLD_'' ''134217728'' False e;
          e = setenv ''MALLOC_TOP_PAD_'' ''33554432'' False e
      in setenv ''MALLOC_MMAP_THRESHOLD_'' ''0'' False e)"

text \<open>The environment and whether the launcher pins itself; \<open>None\<close> when it quits.\<close>

definition numaplace_main :: "string \<Rightarrow> (char \<times> string) list \<Rightarrow> env \<Rightarrow> (env \<times> bool) option" where
  "numaplace_main path opts e =
     (case main_options opts (first_settings e) of
        Quit _ \<Rightarrow> None
      | Go st \<Rightarrow> Some (launch_env path st, flagval st AND FLAGS_PARENT = 0))"

section \<open>The library\<close>

text \<open>What \<open>init\<close> reads of the environment: the flags and the size of the stacks.\<close>

definition lib_flags :: "env \<Rightarrow> u32" where
  "lib_flags e = (case e ''NUMAPLACE_FLAGS'' of None \<Rightarrow> 0 | Some s \<Rightarrow> word_of_int (strtol10 s))"

definition lib_stacksize :: "env \<Rightarrow> u64 option" where
  "lib_stacksize e = (case e ''OMP_STACKSIZE'' of None \<Rightarrow> Some (push_bit 20 8) | Some s \<Rightarrow> parseint s)"

definition init_threads :: "env \<Rightarrow> nat \<Rightarrow> u16" where
  "init_threads e nprocs =
     (case e ''OMP_NUM_THREADS'' of None \<Rightarrow> word_of_nat nprocs | Some s \<Rightarrow> word_of_int (strtol10 s))"

text \<open>The threads advertised: set on first use, and again while 0.\<close>

definition threads_of :: "env \<Rightarrow> nat \<Rightarrow> u16 \<Rightarrow> u16" where
  "threads_of e nprocs threads = (if threads = 0 then init_threads e nprocs else threads)"

text \<open>
  The answers about the own process and thread; for others the C library is asked. A buffer of
  \<open>len\<close> bytes has the set of its bits; \<open>mem\<close> is what it held before.
\<close>

datatype affinity = Set cpu_set | Error nat | Ask_system

definition EFAULT :: nat where "EFAULT = 14"
definition EINVAL :: nat where "EINVAL = 22"

definition sched_getaffinity :: "nat \<Rightarrow> nat \<Rightarrow> cpu_set \<Rightarrow> nat \<Rightarrow> cpu_set \<Rightarrow> affinity" where
  "sched_getaffinity self pid available len mem =
     (if pid \<noteq> 0 \<and> pid \<noteq> self then Ask_system
      else Set {i. if i div 8 < min len 1024 then i \<in> available else i \<in> mem})"

definition pthread_getaffinity_np :: "nat \<Rightarrow> nat \<Rightarrow> u16 \<Rightarrow> nat \<Rightarrow> bool \<Rightarrow> affinity" where
  "pthread_getaffinity_np self thread threads len null =
     (if thread \<noteq> self then Ask_system
      else if null then Error EFAULT
      else if len < unat threads div 8 then Error EINVAL
      else Set (fold (\<lambda>i. CPU_SET_S i len) [0..<unat threads] {}))"

section \<open>Facts\<close>

lemma leading_count:
  assumes "\<exists>m<n. P m"
  shows "\<exists>k<n. length (takeWhile (\<lambda>i. \<not> P i) (rev [0..<n])) = n - 1 - k \<and> P k \<and> (\<forall>m<n. k < m \<longrightarrow> \<not> P m)"
  using assms
proof (induction n)
  case (Suc n)
  show ?case
  proof (cases "P n")
    case True
    then show ?thesis by (intro exI [of _ n]) simp
  next
    case False
    with Suc.prems have "\<exists>m<n. P m" using less_Suc_eq by auto
    from Suc.IH [OF this] obtain k where k: "k < n" "P k"
      "length (takeWhile (\<lambda>i. \<not> P i) (rev [0..<n])) = n - 1 - k" "\<forall>m<n. k < m \<longrightarrow> \<not> P m" by blast
    with False show ?thesis by (intro exI [of _ k]) (auto simp: less_Suc_eq)
  qed
qed simp

lemma clz64_top:
  assumes "v \<noteq> 0"
  obtains n where "n < 64" "clz64 v = 63 - n" "2 ^ n \<le> unat v" "unat v < 2 ^ (n + 1)"
proof -
  from assms obtain m where "bit v m" by (auto simp: word_zero_iff_bits)
  moreover from this have "m < 64" using bit_imp_le_length [of v m] by simp
  ultimately have "\<exists>m<64. bit v m" by blast
  from leading_count [OF this] obtain k where k: "k < 64" "clz64 v = 63 - k" "bit v k" "\<forall>m<64. k < m \<longrightarrow> \<not> bit v m"
    by (auto simp: clz64_def)
  have "take_bit (k + 1) (unat v) = unat v"
  proof (intro bit_eqI)
    fix m
    have "m \<le> k" if "bit v m" using k(4) that bit_imp_le_length [OF that] by (cases "k < m") auto
    then show "bit (take_bit (k + 1) (unat v)) m \<longleftrightarrow> bit (unat v) m" by (auto simp: bit_take_bit_iff bit_unsigned_iff)
  qed
  then have up: "unat v < 2 ^ (k + 1)" by (metis take_bit_nat_less_exp)
  have "odd (unat v div 2 ^ k)" using k(1,3) by (simp add: bit_iff_odd [symmetric] bit_unsigned_iff)
  then have "unat v div 2 ^ k \<noteq> 0" by (metis even_zero)
  then have "2 ^ k \<le> unat v" by (simp add: div_eq_0_iff)
  with k(1,2) up show thesis by (intro that)
qed

text \<open>Between two powers of two.\<close>

lemma roundup_between:
  assumes "2 ^ n \<le> unat (v :: u64)" "unat v < 2 ^ (n + 1)" "n < 63"
  shows "unat (if v AND (drop_bit 1 (push_bit (n + 1) 1) - 1) \<noteq> 0 then push_bit (n + 1) 1 else v) =
    (if unat v = 2 ^ n then 2 ^ n else 2 ^ (n + 1))"
proof -
  have pow: "unat (push_bit m (1 :: u64)) = 2 ^ m" if "m < 64" for m
  proof -
    have "push_bit m (1 :: u64) = word_of_nat (2 ^ m)" by (simp add: push_bit_eq_mult)
    moreover have "unat (word_of_nat (2 ^ m) :: u64) = 2 ^ m mod 2 ^ 64" unfolding unat_of_nat by simp
    moreover have "(2 :: nat) ^ m < 2 ^ 64" using that by (rule power_strict_increasing) simp
    ultimately show ?thesis by simp
  qed
  have p: "unat (push_bit (n + 1) (1 :: u64)) = 2 ^ (n + 1)" "unat (push_bit n (1 :: u64)) = 2 ^ n"
    by (rule pow; use assms(3) in simp)+
  have "unat (drop_bit 1 (push_bit (n + 1) (1 :: u64))) = unat (push_bit n (1 :: u64))"
    unfolding unat_drop_bit_eq p by (simp add: drop_bit_eq_div)
  then have "drop_bit 1 (push_bit (n + 1) 1) = (push_bit n 1 :: u64)" by (simp only: word_unat_eq_iff)
  then have m: "drop_bit 1 (push_bit (n + 1) 1) - 1 = (mask n :: u64)" by (simp add: mask_eq_exp_minus_1)
  have "unat (take_bit n v) = unat v mod 2 ^ n"
    unfolding unsigned_take_bit_eq by (rule take_bit_eq_mod)
  also have "\<dots> = unat v - 2 ^ n" using assms(1,2) by (simp add: mod_if)
  finally have z: "take_bit n v = 0 \<longleftrightarrow> unat v = 2 ^ n" using assms(1) by (simp add: word_unat_eq_iff)
  with p z show ?thesis unfolding m take_bit_eq_mask [symmetric] by simp
qed

text \<open>Reading a decimal number with \<open>strtol\<close>.\<close>

lemma digits_int: "\<forall>c\<in>set ds. isdigit c \<Longrightarrow> rest = [] \<or> \<not> isdigit (hd rest) \<Longrightarrow>
    digits (ds @ rest) (int a) = int (foldl (\<lambda>n c. 10 * n + (of_char c - 48)) a ds)"
proof (induction ds arbitrary: a)
  case Nil
  then show ?case by (cases rest) simp_all
next
  case (Cons c ds)
  have "10 * int a + ((of_char c :: int) - 48) = int (10 * a + (of_char c - 48))"
    using Cons.prems(1) by (simp add: isdigit_def of_nat_diff of_nat_of_char)
  moreover have "digits ((c # ds) @ rest) (int a) = digits (ds @ rest) (10 * int a + (of_char c - 48))"
    using Cons.prems(1) by simp
  ultimately have "digits ((c # ds) @ rest) (int a) = digits (ds @ rest) (int (10 * a + (of_char c - 48)))" by simp
  also have "\<dots> = int (foldl (\<lambda>n c. 10 * n + (of_char c - 48)) (10 * a + (of_char c - 48)) ds)"
    using Cons.prems by (intro Cons.IH) simp_all
  finally show ?case by simp
qed

lemma strtol10_show_u:
  assumes "n < 2 ^ 63"
  shows "strtol10 (show_u n) = int n"
proof -
  obtain d cs where d: "d < 10" "show_u n = digit_char d # cs" using show_u_hd by blast
  have "signed_digits (show_u n) = digits (show_u n @ []) (int 0)" using d by (simp add: signed_digits_def)
  also have "\<dots> = int n"
    using digits_int [of "show_u n" "[]" 0] show_u_digits [of _ n] digits_value_show_u [of n] by (simp add: digits_value_def)
  finally have "signed_digits (show_u n) = int n" .
  moreover have "dropWhile isspace (show_u n) = show_u n" using d by simp
  ultimately show ?thesis using assms by (simp add: strtol10_def)
qed

text \<open>Reading one in any notation.\<close>

lemma show_u_hd_pos: "0 < n \<Longrightarrow> \<exists>d cs. 0 < d \<and> d < 10 \<and> show_u n = digit_char d # cs"
proof (induction n rule: show_u.induct)
  case (1 n)
  show ?case
  proof (cases "n < 10")
    case True
    then show ?thesis using 1(2) by (auto simp: show_u.simps [of n])
  next
    case False
    with 1 obtain d cs where "0 < d" "d < 10" "show_u (n div 10) = digit_char d # cs" by fastforce
    then show ?thesis using False by (auto simp: show_u.simps [of n])
  qed
qed

lemma digit_val_digit: "isdigit c \<Longrightarrow> digit_val c = of_char c - 48" "isdigit c \<Longrightarrow> digit_val c < 10"
  by (auto simp: digit_val_def isdigit_def Let_def)

lemma foldl_digits: "\<forall>c\<in>set ds. isdigit c \<Longrightarrow>
    foldl (\<lambda>n c. 10 * n + digit_val c) a ds = foldl (\<lambda>n c. 10 * n + (of_char c - 48)) a ds"
  by (induction ds arbitrary: a) (simp_all add: digit_val_digit)

lemma strtoull0_show_u:
  assumes n: "0 < n" "n < 2 ^ 64" and rest: "rest = [] \<or> 10 \<le> digit_val (hd rest)"
  shows "strtoull0 (show_u n @ rest) = (n, rest)"
proof -
  obtain d cs where d: "0 < d" "d < 10" "show_u n = digit_char d # cs" using show_u_hd_pos [OF n(1)] by blast
  have "digit_char d \<noteq> CHR ''0''"
  proof
    assume "digit_char d = CHR ''0''"
    then have "(of_char (digit_char d) :: nat) = 48" by simp
    with d show False by simp
  qed
  with d have sp: "dropWhile isspace (show_u n @ rest) = show_u n @ rest" "sign_of (show_u n @ rest) = (False, show_u n @ rest)"
    "based (show_u n @ rest) = (10, show_u n @ rest)" by (simp_all add: sign_of_def based_def)
  have all: "\<forall>c\<in>set (show_u n). isdigit c" using show_u_digits by blast
  then have tw: "takeWhile (\<lambda>c. digit_val c < 10) (show_u n @ rest) = show_u n"
    "dropWhile (\<lambda>c. digit_val c < 10) (show_u n @ rest) = rest"
    using rest digit_val_digit(2) by (auto simp: takeWhile_append dropWhile_append; cases rest; auto)+
  have v: "foldl (\<lambda>n c. 10 * n + digit_val c) 0 (show_u n) = n"
    using foldl_digits [OF all] digits_value_show_u [of n] by (simp add: digits_value_def)
  have "show_u n \<noteq> []" using d(3) by simp
  then show ?thesis using n(2) unfolding strtoull0_def sp prod.case Let_def tw v by simp
qed

lemma unit_chars:
  "digit_val CHR ''k'' = 20" "digit_val CHR ''K'' = 20" "digit_val CHR ''m'' = 22" "digit_val CHR ''M'' = 22"
  "digit_val CHR ''g'' = 16" "digit_val CHR ''G'' = 16"
  "tolower CHR ''k'' = CHR ''k''" "tolower CHR ''K'' = CHR ''k''" "tolower CHR ''m'' = CHR ''m''"
  "tolower CHR ''M'' = CHR ''m''" "tolower CHR ''g'' = CHR ''g''" "tolower CHR ''G'' = CHR ''g''"
  by code_simp+

lemma env_get:
  "setenv x v overwrite e y = (if y = x \<and> (overwrite \<or> e x = None) then Some v else e y)"
  "unsetenv x e y = (if y = x then None else e y)"
  by (simp_all add: setenv_def unsetenv_def)

text \<open>
  The answer of \<open>pthread_getaffinity_np\<close> for the own thread: a buffer short of whole bytes for
  the threads is an error, and of the threads of a last, incomplete byte it tells those that
  fit the buffer.
\<close>

lemma pthread_getaffinity_own:
  "pthread_getaffinity_np self self threads len False =
    (if len < unat threads div 8 then Error EINVAL else Set {i. i < unat threads \<and> i div 8 < len})"
proof -
  have "fold (\<lambda>i. CPU_SET_S i len) xs A = A \<union> {i \<in> set xs. i div 8 < len}" for xs A
    by (induction xs arbitrary: A) (auto simp: CPU_SET_S_def)
  from this [of "[0..<unat threads]" "{}"] show ?thesis by (auto simp: pthread_getaffinity_np_def)
qed

section \<open>Properties\<close>

text \<open>
  For every value between 1 and the largest below \<open>2 ^ 63\<close>, \<open>roundup_nextpow2\<close> is defined
  and gives the least power of two that is not smaller.
\<close>

theorem roundup_is_least_power:
  assumes "v \<noteq> 0" "unat v < 2 ^ 63"
  shows "\<exists>r k. roundup_nextpow2 v = Some r \<and> unat r = 2 ^ k \<and> unat v \<le> unat r \<and> (\<forall>j. unat v \<le> 2 ^ j \<longrightarrow> unat r \<le> 2 ^ j)"
proof -
  from clz64_top [OF assms(1)] obtain n where n: "n < 64" "clz64 v = 63 - n" "2 ^ n \<le> unat v" "unat v < 2 ^ (n + 1)" .
  have "n < 63"
  proof (rule ccontr)
    assume "\<not> n < 63"
    then have "(2 :: nat) ^ 63 \<le> 2 ^ n" by (intro power_increasing) simp_all
    with n(3) assms(2) show False by linarith
  qed
  then have c: "clz64 v \<noteq> 0" "64 - clz64 v = n + 1" using n(2) by simp_all
  let ?r = "if v AND (drop_bit 1 (push_bit (n + 1) 1) - 1) \<noteq> 0 then push_bit (n + 1) 1 else v"
  have r: "roundup_nextpow2 v = Some ?r" using assms(1) c by (simp add: roundup_nextpow2_def Let_def)
  have u: "unat ?r = (if unat v = 2 ^ n then 2 ^ n else 2 ^ (n + 1))" by (rule roundup_between [OF n(3,4) \<open>n < 63\<close>])
  have least: "2 ^ (n + 1) \<le> (2 :: nat) ^ j" if "unat v \<le> 2 ^ j" "unat v \<noteq> 2 ^ n" for j
  proof -
    have "(2 :: nat) ^ n < 2 ^ j" using that n(3) by linarith
    then have "n < j" by (simp add: power_strict_increasing_iff)
    then show ?thesis by (intro power_increasing) simp_all
  qed
  show ?thesis
    by (intro exI [of _ ?r] exI [of _ "if unat v = 2 ^ n then n else n + 1"])
      (use r u n(3,4) least in \<open>auto simp del: power_Suc\<close>)
qed

lemma roundup_is_least_power_witness:
  "\<exists>r k. roundup_nextpow2 5 = Some r \<and> unat r = 2 ^ k \<and> 5 \<le> unat r"
  using roundup_is_least_power [of 5] by auto

text \<open>
  \<open>parseint\<close> reads back a positive number that was printed, with one of the units none,
  \<open>k\<close>, \<open>m\<close>, \<open>g\<close> (in either case) behind it: the number shifted by 0, 10, 20 or 30 bits.
\<close>

theorem parseint_units:
  assumes "0 < n" "n < 2 ^ 64" "(u, k) \<in> {(CHR ''k'', 10), (CHR ''K'', 10), (CHR ''m'', 20), (CHR ''M'', 20), (CHR ''g'', 30), (CHR ''G'', 30)}"
  shows "parseint (show_u n) = Some (word_of_nat n) \<and> parseint (show_u n @ u # rest) = Some (push_bit k (word_of_nat n))"
proof -
  have "10 \<le> digit_val u" "unit_shift (u # rest) = Some k"
    using assms(3) by (auto simp: unit_chars unit_shift_def)
  then show ?thesis
    using strtoull0_show_u [OF assms(1,2), of "[]"] strtoull0_show_u [OF assms(1,2), of "u # rest"] assms(1)
    by (simp add: parseint_def unit_shift_def)
qed

lemma parseint_units_witness: "parseint (show_u 8 @ ''m'') = Some (8 * 2 ^ 20)"
  using parseint_units [of 8 "CHR ''m''" 20 "[]"] by (simp add: push_bit_eq_mult)

text \<open>
  What the launcher decides about the library arrives there: the program's environment
  preloads the library, carries the flags of the options in a form the library reads back, and
  has no affinity settings of OpenMP; the launcher pins itself unless told not to.
\<close>

theorem flags_reach_library:
  assumes "numaplace_main path opts e = Some (e', pin)"
  shows "\<exists>st. main_options opts (first_settings e) = Go st \<and> lib_flags e' = flagval st \<and>
    pin = (flagval st AND FLAGS_PARENT = 0) \<and> e' ''LD_PRELOAD'' = Some path \<and>
    e' ''OMP_PROC_BIND'' = None \<and> e' ''GOMP_CPU_AFFINITY'' = None \<and> e' ''KMP_AFFINITY'' = None"
proof -
  from assms obtain st where st: "main_options opts (first_settings e) = Go st" "e' = launch_env path st"
    "pin = (flagval st AND FLAGS_PARENT = 0)" by (auto simp: numaplace_main_def split: option_result.splits)
  have "unat (flagval st) < 2 ^ 32" using unsigned_less [of "flagval st"] by simp
  then have "strtol10 (show_u (unat (flagval st))) = int (unat (flagval st))" by (intro strtol10_show_u) simp
  moreover have "e' ''NUMAPLACE_FLAGS'' = Some (show_u (unat (flagval st)))"
    by (simp add: st(2) launch_env_def env_get Let_def)
  ultimately have "lib_flags e' = flagval st" by (simp add: lib_flags_def)
  moreover have "e' ''LD_PRELOAD'' = Some path" "e' ''OMP_PROC_BIND'' = None" "e' ''GOMP_CPU_AFFINITY'' = None" "e' ''KMP_AFFINITY'' = None"
    by (simp_all add: st(2) launch_env_def env_get Let_def)
  ultimately show ?thesis using st by blast
qed

lemma flags_reach_library_witness:
  "\<exists>e' pin. numaplace_main ''lib'' [(CHR ''p'', []), (CHR ''v'', [])] (\<lambda>_. None) = Some (e', pin) \<and>
    lib_flags e' = FLAGS_ALLOCATOR OR FLAGS_PARENT OR FLAGS_VERBOSE \<and> \<not> pin"
proof -
  obtain e' pin where m: "numaplace_main ''lib'' [(CHR ''p'', []), (CHR ''v'', [])] (\<lambda>_. None) = Some (e', pin)"
    by (simp add: numaplace_main_def main_option_def)
  from flags_reach_library [OF m] show ?thesis
    using m by (auto simp: main_option_def first_settings_def flag_defs)
qed

end
